(* ===== verification/Prelude.thy ===== *)
theory Prelude
  imports Main "HOL-Library.Word" "HOL-Library.Monad_Syntax"
begin

text \<open>
  Shared ground of the development: the C library and language idioms the sources use over and
  over (counting loops, \<open>memmove\<close>, \<open>memcpy\<close> and \<open>memset\<close> on arrays, bit masks) as executable
  functions with their characteristic lemmas, and the collections that carry the proofs.

  Conventions. A computation that may have undefined behaviour (a bad dereference, an index
  outside an array) or may not return is of type \<open>'a option\<close>, with \<open>None\<close> for "no defined
  result"; it is sequenced with the \<open>do\<close> notation. Arrays are lists of their C length.
\<close>

unbundle bit_operations_syntax

named_theorems arr_simps \<open>entries and lengths of arrays after the memory operations\<close>
named_theorems heap_simps \<open>reading the heap after a store\<close>

type_synonym tv = "64 word"

abbreviation NATV :: tv where "NATV \<equiv> - 1"
abbreviation NSECS :: "'a::numeral" where "NSECS \<equiv> 1000000000"
abbreviation USECS :: "'a::numeral" where "USECS \<equiv> 1000000"
abbreviation MSECS :: "'a::numeral" where "MSECS \<equiv> 1000"

subsection \<open>The loop \<open>for (; i < n && P(i); i++);\<close>\<close>

function scan_while :: "(nat \<Rightarrow> bool) \<Rightarrow> nat \<Rightarrow> nat \<Rightarrow> nat" where
  "scan_while P i n = (if i < n \<and> P i then scan_while P (Suc i) n else i)"
  by pat_completeness auto
termination
  by (relation "measure (\<lambda>(P, i, n). n - i)") auto

declare scan_while.simps [simp del]

lemma scan_while_ge: "i \<le> scan_while P i n"
proof (induction P i n rule: scan_while.induct)
  case (1 P i n)
  then show ?case by (subst scan_while.simps) (auto intro: order.trans [of i "Suc i"])
qed

lemma scan_while_le: "i \<le> n \<Longrightarrow> scan_while P i n \<le> n"
proof (induction P i n rule: scan_while.induct)
  case (1 P i n)
  then show ?case by (subst scan_while.simps) auto
qed

lemma scan_while_all: "i \<le> j \<Longrightarrow> j < scan_while P i n \<Longrightarrow> P j"
proof (induction P i n rule: scan_while.induct)
  case (1 P i n)
  from "1.prems" have step: "i < n \<and> P i" "j < scan_while P (Suc i) n \<or> j = i"
    by (auto simp: scan_while.simps [of P i n] split: if_splits)
  with "1.IH" "1.prems"(1) show ?case by (cases "i = j") auto
qed

lemma scan_while_stop: "scan_while P i n < n \<Longrightarrow> \<not> P (scan_while P i n)"
proof (induction P i n rule: scan_while.induct)
  case (1 P i n)
  then show ?case
    by (subst scan_while.simps, subst (asm) (3) scan_while.simps) (auto split: if_splits)
qed

lemma scan_while_eqI:
  assumes "i \<le> r" "r \<le> n" "\<And>j. i \<le> j \<Longrightarrow> j < r \<Longrightarrow> P j" "r < n \<Longrightarrow> \<not> P r"
  shows "scan_while P i n = r"
proof -
  let ?s = "scan_while P i n"
  have "\<not> ?s < r" using assms(1-3) scan_while_stop [of P i n] scan_while_ge [of i P n] by auto
  moreover have "\<not> r < ?s"
    using assms(1,2,4) scan_while_all [of i r P n] scan_while_le [of i n P] by auto
  ultimately show ?thesis by simp
qed

lemma scan_while_cong:
  "(\<And>j. i \<le> j \<Longrightarrow> j < n \<Longrightarrow> P j = Q j) \<Longrightarrow> scan_while P i n = scan_while Q i n"
proof (induction P i n rule: scan_while.induct)
  case (1 P i n)
  then show ?case by (subst (1 2) scan_while.simps) auto
qed

subsection \<open>Memory operations on arrays\<close>

text \<open>
  \<open>memmove_arr xs dst src cnt\<close> is \<open>memmove(xs + dst, xs + src, cnt * sizeof *xs)\<close>,
  \<open>memcpy_arr xs dst ys cnt\<close> is \<open>memcpy(xs + dst, ys, cnt * sizeof *xs)\<close> and
  \<open>memset_arr xs dst v\<close> sets every entry from \<open>dst\<close> to the end of the array.
\<close>

definition memcpy_arr :: "'a list \<Rightarrow> nat \<Rightarrow> 'a list \<Rightarrow> nat \<Rightarrow> 'a list" where
  "memcpy_arr xs dst ys cnt = take dst xs @ take cnt ys @ drop (dst + cnt) xs"

definition memmove_arr :: "'a list \<Rightarrow> nat \<Rightarrow> nat \<Rightarrow> nat \<Rightarrow> 'a list" where
  "memmove_arr xs dst src cnt = memcpy_arr xs dst (drop src xs) cnt"

definition memset_arr :: "'a list \<Rightarrow> nat \<Rightarrow> 'a \<Rightarrow> 'a list" where
  "memset_arr xs dst v = take dst xs @ replicate (length xs - dst) v"

lemma length_memcpy_arr [arr_simps]:
  "dst + cnt \<le> length xs \<Longrightarrow> cnt \<le> length ys \<Longrightarrow> length (memcpy_arr xs dst ys cnt) = length xs"
  by (simp add: memcpy_arr_def)

lemma nth_memcpy_arr [arr_simps]:
  "dst + cnt \<le> length xs \<Longrightarrow> cnt \<le> length ys \<Longrightarrow> j < length xs \<Longrightarrow>
   memcpy_arr xs dst ys cnt ! j = (if dst \<le> j \<and> j < dst + cnt then ys ! (j - dst) else xs ! j)"
  by (auto simp: memcpy_arr_def nth_append min_def)

lemma length_memmove_arr [arr_simps]:
  "dst + cnt \<le> length xs \<Longrightarrow> src + cnt \<le> length xs \<Longrightarrow>
   length (memmove_arr xs dst src cnt) = length xs"
  by (simp add: memmove_arr_def length_memcpy_arr)

lemma nth_memmove_arr [arr_simps]:
  "dst + cnt \<le> length xs \<Longrightarrow> src + cnt \<le> length xs \<Longrightarrow> j < length xs \<Longrightarrow>
   memmove_arr xs dst src cnt ! j =
     (if dst \<le> j \<and> j < dst + cnt then xs ! (src + (j - dst)) else xs ! j)"
  by (auto simp: memmove_arr_def nth_memcpy_arr)

lemma length_memset_arr [arr_simps]: "dst \<le> length xs \<Longrightarrow> length (memset_arr xs dst v) = length xs"
  by (simp add: memset_arr_def)

lemma nth_memset_arr [arr_simps]:
  "dst \<le> length xs \<Longrightarrow> j < length xs \<Longrightarrow>
   memset_arr xs dst v ! j = (if j < dst then xs ! j else v)"
  by (auto simp: memset_arr_def nth_append)

text \<open>An array read with its bounds check: \<open>None\<close> is an access outside the array.\<close>

definition nth_opt :: "'a list \<Rightarrow> nat \<Rightarrow> 'a option" where
  "nth_opt xs i = (if i < length xs then Some (xs ! i) else None)"

lemma nth_opt_eq [simp]: "i < length xs \<Longrightarrow> nth_opt xs i = Some (xs ! i)"
  by (simp add: nth_opt_def)

subsection \<open>Bits of machine words\<close>

definition bit1 :: "nat \<Rightarrow> 64 word" where
  "bit1 i = push_bit i 1"

lemma bit_bit1 [simp]: "bit (bit1 i) j \<longleftrightarrow> j = i \<and> i < 64"
  by (auto simp: bit1_def bit_exp_iff)

lemma bit_low_mask [simp]: "bit (2 ^ m - 1 :: 64 word) j \<longleftrightarrow> j < m \<and> j < 64"
  by (auto simp: bit_mask_iff simp flip: mask_eq_exp_minus_1)

subsection \<open>Ordered keys with an unordered element\<close>

text \<open>
  The keys of the trees are decimal numbers: totally ordered up to numerical equality, except
  for NaN, which fills the unused part of a key array and is unordered. \<open>lt\<close> is the order of
  the tree, \<open>eq\<close> is C's \<open>==\<close>, \<open>ok\<close> says that a key is a number.
\<close>

locale key_order =
  fixes lt :: "'k \<Rightarrow> 'k \<Rightarrow> bool"
    and eq :: "'k \<Rightarrow> 'k \<Rightarrow> bool"
    and ok :: "'k \<Rightarrow> bool"
  assumes irrefl: "\<not> lt x x"
    and trans: "lt x y \<Longrightarrow> lt y z \<Longrightarrow> lt x z"
    and lt_ok: "lt x y \<Longrightarrow> ok x \<and> ok y"
    and eq_ok: "eq x y \<Longrightarrow> ok x \<and> ok y"
    and trichotomy: "ok x \<Longrightarrow> ok y \<Longrightarrow> lt x y \<or> eq x y \<or> lt y x"
    and eq_sym: "eq x y \<Longrightarrow> eq y x"
    and eq_refl: "ok x \<Longrightarrow> eq x x"
    and eq_lt: "eq x y \<Longrightarrow> lt y z \<Longrightarrow> lt x z"
    and lt_eq: "lt x y \<Longrightarrow> eq y z \<Longrightarrow> lt x z"
begin

lemma asym: "lt x y \<Longrightarrow> \<not> lt y x"
  using irrefl trans by blast

lemma eq_not_lt: "eq x y \<Longrightarrow> \<not> lt x y" "eq x y \<Longrightarrow> \<not> lt y x"
  using eq_sym irrefl lt_eq eq_lt by blast+

lemma eq_trans: "eq x y \<Longrightarrow> eq y z \<Longrightarrow> eq x z"
  by (meson eq_lt eq_not_lt eq_ok eq_sym trichotomy)

text \<open>The search loop of the trees: the first of the first \<open>n\<close> keys that is not before \<open>k\<close>.\<close>

definition pos :: "'k list \<Rightarrow> nat \<Rightarrow> 'k \<Rightarrow> nat" where
  "pos ks n k = scan_while (\<lambda>j. lt (ks ! j) k) 0 n"

lemma pos_le: "pos ks n k \<le> n"
  unfolding pos_def by (rule scan_while_le) simp

lemma before_pos: "j < pos ks n k \<Longrightarrow> lt (ks ! j) k"
  unfolding pos_def by (rule scan_while_all [where P = "\<lambda>j. lt (ks ! j) k"]) auto

lemma not_before_pos: "pos ks n k < n \<Longrightarrow> \<not> lt (ks ! pos ks n k) k"
  unfolding pos_def by (rule scan_while_stop)

definition ordered :: "'k list \<Rightarrow> nat \<Rightarrow> bool" where
  "ordered ks n \<longleftrightarrow> (\<forall>i j. i < j \<longrightarrow> j < n \<longrightarrow> lt (ks ! i) (ks ! j)) \<and> (\<forall>i < n. ok (ks ! i))"

lemma after_pos:
  assumes "ordered ks n" "pos ks n k \<le> j" "j < n"
  shows "\<not> lt (ks ! j) k"
proof (cases "pos ks n k = j")
  case True
  then show ?thesis using not_before_pos assms(3) by metis
next
  case False
  then have "lt (ks ! pos ks n k) (ks ! j)" using assms by (auto simp: ordered_def)
  then show ?thesis using not_before_pos [of ks n k] trans assms(2,3) by (meson le_less_trans)
qed

lemma eq_is_pos:
  assumes "ordered ks n" "j < n" "eq k (ks ! j)"
  shows "j = pos ks n k"
proof (rule ccontr)
  assume ne: "j \<noteq> pos ks n k"
  consider "j < pos ks n k" | "pos ks n k < j" using ne by linarith
  then show False
  proof cases
    case 1
    then show False using before_pos eq_not_lt(2) assms(3) by blast
  next
    case 2
    then have "lt (ks ! pos ks n k) (ks ! j)" using assms by (auto simp: ordered_def)
    then show False
      using lt_eq eq_sym assms(2,3) not_before_pos 2 by (meson less_trans)
  qed
qed

lemma after_pos_lt:
  assumes "ordered ks n" "ok k" "\<not> eq k (ks ! pos ks n k)" "pos ks n k \<le> j" "j < n"
  shows "lt k (ks ! j)"
proof -
  have "\<not> lt (ks ! j) k" using after_pos assms(1,4,5) by blast
  moreover have "\<not> eq k (ks ! j)" using eq_is_pos assms(1,3,5) by metis
  moreover have "ok (ks ! j)" using assms(1,5) by (simp add: ordered_def)
  ultimately show ?thesis using trichotomy assms(2) by blast
qed

end

end
