(* ===== verification/Decimal.thy ===== *)
theory Decimal
  imports Prelude Complex_Main
begin

text \<open>
  The C types \<open>_Decimal64\<close> and \<open>_Decimal32\<close> the sources compute with. A value is its object
  representation, so that \<open>memset\<close>, \<open>memcmp\<close> and the unions of \<open>bits64\<close> and \<open>bobs64\<close> mean what
  they mean in C. The operators of the language follow IEEE 754-2008 (ISO/IEC TS 24732) on the
  binary integer decimal encoding: \<open>dec\<close> is what an encoding stands for, comparison is by
  numerical value with NaN unordered, arithmetic is exact with one rounding, half to even, to
  the precision of the format and with the preferred exponent of each operation.
\<close>

datatype d64 = bobs64 (bits64: "64 word")
datatype d32 = bobs32 (bits32: "32 word")

datatype dec = DNaN | DInf bool | DFin bool int int

subsection \<open>Decoding and encoding\<close>

definition dec_of_d64 :: "d64 \<Rightarrow> dec" where
  "dec_of_d64 x =
     (let b = bits64 x; s = bit b 63 in
      if b AND 0x7C00000000000000 = 0x7C00000000000000 then DNaN
      else if b AND 0x7C00000000000000 = 0x7800000000000000 then DInf s
      else if b AND 0x6000000000000000 = 0x6000000000000000 then
        (let c = uint (0x20000000000000 OR (b AND 0x7FFFFFFFFFFFF)) in
         DFin s (if c < 10 ^ 16 then c else 0) (uint (drop_bit 51 b AND 0x3FF) - 398))
      else DFin s (uint (b AND 0x1FFFFFFFFFFFFF)) (uint (drop_bit 53 b AND 0x3FF) - 398))"

definition d64_of_dec :: "dec \<Rightarrow> d64" where
  "d64_of_dec d = bobs64 (case d of
     DNaN \<Rightarrow> 0x7C00000000000000
   | DInf s \<Rightarrow> (if s then 0xF800000000000000 else 0x7800000000000000)
   | DFin s c e \<Rightarrow>
       (if s then 0x8000000000000000 else 0) OR
       (if c < 2 ^ 53 then push_bit 53 (word_of_int (e + 398)) OR word_of_int c
        else 0x6000000000000000 OR push_bit 51 (word_of_int (e + 398)) OR
          (word_of_int c AND 0x7FFFFFFFFFFFF)))"

definition dec_of_d32 :: "d32 \<Rightarrow> dec" where
  "dec_of_d32 x =
     (let b = bits32 x; s = bit b 31 in
      if b AND 0x7C000000 = 0x7C000000 then DNaN
      else if b AND 0x7C000000 = 0x78000000 then DInf s
      else if b AND 0x60000000 = 0x60000000 then
        (let c = uint (0x800000 OR (b AND 0x1FFFFF)) in
         DFin s (if c < 10 ^ 7 then c else 0) (uint (drop_bit 21 b AND 0xFF) - 101))
      else DFin s (uint (b AND 0x7FFFFF)) (uint (drop_bit 23 b AND 0xFF) - 101))"

abbreviation NAND64 :: d64 where "NAND64 \<equiv> bobs64 0x7C00000000000000"
abbreviation INFD64 :: d64 where "INFD64 \<equiv> bobs64 0x7800000000000000"

text \<open>The literals of the sources: \<open>c\<close> times ten to the power \<open>e\<close>, e.g. \<open>dd 9500 (-2)\<close> for 95.00.\<close>

definition dd :: "int \<Rightarrow> int \<Rightarrow> d64" where
  "dd c e = d64_of_dec (DFin False c e)"

subsection \<open>Comparison\<close>

text \<open>
  Two finite numbers are compared at their common exponent; the infinities lie outside all
  of them and NaN compares false with everything.
\<close>

definition scaled :: "bool \<Rightarrow> int \<Rightarrow> int \<Rightarrow> int \<Rightarrow> int" where
  "scaled s c e m = (if s then - c else c) * 10 ^ nat (e - m)"

fun dec_le :: "dec \<Rightarrow> dec \<Rightarrow> bool" where
  "dec_le DNaN y = False"
| "dec_le x DNaN = False"
| "dec_le (DInf s) (DInf t) = (s \<or> \<not> t)"
| "dec_le (DInf s) (DFin _ _ _) = s"
| "dec_le (DFin _ _ _) (DInf t) = (\<not> t)"
| "dec_le (DFin s c e) (DFin s' c' e') =
     (scaled s c e (min e e') \<le> scaled s' c' e' (min e e'))"

fun dec_lt :: "dec \<Rightarrow> dec \<Rightarrow> bool" where
  "dec_lt DNaN y = False"
| "dec_lt x DNaN = False"
| "dec_lt (DInf s) (DInf t) = (s \<and> \<not> t)"
| "dec_lt (DInf s) (DFin _ _ _) = s"
| "dec_lt (DFin _ _ _) (DInf t) = (\<not> t)"
| "dec_lt (DFin s c e) (DFin s' c' e') =
     (scaled s c e (min e e') < scaled s' c' e' (min e e'))"

instantiation d64 :: ord
begin

definition less_eq_d64 :: "d64 \<Rightarrow> d64 \<Rightarrow> bool" where
  "x \<le> y \<longleftrightarrow> dec_le (dec_of_d64 x) (dec_of_d64 y)"

definition less_d64 :: "d64 \<Rightarrow> d64 \<Rightarrow> bool" where
  "x < y \<longleftrightarrow> dec_lt (dec_of_d64 x) (dec_of_d64 y)"

instance ..

end

text \<open>C's \<open>x == y\<close> on decimals, and \<open>isnand64\<close>.\<close>

definition deq :: "d64 \<Rightarrow> d64 \<Rightarrow> bool" where
  "deq x y \<longleftrightarrow> x \<le> y \<and> y \<le> x"

definition isnand64 :: "d64 \<Rightarrow> bool" where
  "isnand64 x \<longleftrightarrow> dec_of_d64 x = DNaN"

definition isinfd64 :: "d64 \<Rightarrow> bool" where
  "isinfd64 x \<longleftrightarrow> (\<exists>s. dec_of_d64 x = DInf s)"

lemma isinfd64_code [code]:
  "isinfd64 x = (case dec_of_d64 x of DInf _ \<Rightarrow> True | _ \<Rightarrow> False)"
  by (auto simp: isinfd64_def split: dec.splits)

subsection \<open>Arithmetic\<close>

function ndigits :: "int \<Rightarrow> nat" where
  "ndigits n = (if n < 10 then 1 else Suc (ndigits (n div 10)))"
  by pat_completeness auto
termination
  by (relation "measure nat") auto

declare ndigits.simps [simp del]

definition round_half_even :: "int \<Rightarrow> nat \<Rightarrow> int" where
  "round_half_even c k =
     (let q = c div 10 ^ k; r = c mod 10 ^ k in
      if 10 ^ k < 2 * r \<or> (2 * r = 10 ^ k \<and> odd q) then q + 1 else q)"

text \<open>One rounding to 16 digits and the exponent range of the 64 bit format.\<close>

definition dec_round :: "bool \<Rightarrow> int \<Rightarrow> int \<Rightarrow> dec" where
  "dec_round s c e =
     (let k = max (int (ndigits c) - 16) (- 398 - e);
          (c1, e1) = (if k \<le> 0 then (c, e) else (round_half_even c (nat k), e + k));
          (c2, e2) = (if c1 = 10 ^ 16 then (10 ^ 15, e1 + 1) else (c1, e1)) in
      if c2 = 0 then DFin s 0 (min e2 369)
      else if e2 \<le> 369 then DFin s c2 e2
      else if c2 * 10 ^ nat (e2 - 369) < 10 ^ 16 then DFin s (c2 * 10 ^ nat (e2 - 369)) 369
      else DInf s)"

fun dec_add :: "dec \<Rightarrow> dec \<Rightarrow> dec" where
  "dec_add DNaN y = DNaN"
| "dec_add x DNaN = DNaN"
| "dec_add (DInf s) (DInf t) = (if s = t then DInf s else DNaN)"
| "dec_add (DInf s) (DFin _ _ _) = DInf s"
| "dec_add (DFin _ _ _) (DInf t) = DInf t"
| "dec_add (DFin s c e) (DFin s' c' e') =
     (let m = min e e'; v = scaled s c e m + scaled s' c' e' m in
      dec_round (if v = 0 then s \<and> s' else v < 0) \<bar>v\<bar> m)"

fun dec_mul :: "dec \<Rightarrow> dec \<Rightarrow> dec" where
  "dec_mul DNaN y = DNaN"
| "dec_mul x DNaN = DNaN"
| "dec_mul (DInf s) (DInf t) = DInf (s \<noteq> t)"
| "dec_mul (DInf s) (DFin t c _) = (if c = 0 then DNaN else DInf (s \<noteq> t))"
| "dec_mul (DFin s c _) (DInf t) = (if c = 0 then DNaN else DInf (s \<noteq> t))"
| "dec_mul (DFin s c e) (DFin s' c' e') = dec_round (s \<noteq> s') (c * c') (e + e')"

text \<open>
  Division: enough digits of the quotient to round from, with a sticky digit for a remainder;
  an exact quotient moves towards the preferred exponent \<open>e - e'\<close> as far as it has zeros to drop.
\<close>

fun strip_zeros :: "nat \<Rightarrow> int \<Rightarrow> int \<Rightarrow> int \<times> int" where
  "strip_zeros 0 c e = (c, e)"
| "strip_zeros (Suc k) c e = (if c mod 10 = 0 then strip_zeros k (c div 10) (e + 1) else (c, e))"

fun dec_div :: "dec \<Rightarrow> dec \<Rightarrow> dec" where
  "dec_div DNaN y = DNaN"
| "dec_div x DNaN = DNaN"
| "dec_div (DInf s) (DInf t) = DNaN"
| "dec_div (DInf s) (DFin t _ _) = DInf (s \<noteq> t)"
| "dec_div (DFin s _ _) (DInf t) = DFin (s \<noteq> t) 0 (- 398)"
| "dec_div (DFin s c e) (DFin s' c' e') =
     (if c' = 0 then (if c = 0 then DNaN else DInf (s \<noteq> s'))
      else if c = 0 then dec_round (s \<noteq> s') 0 (e - e')
      else let k = 17 + ndigits c'; q = c * 10 ^ k div c' in
        if c * 10 ^ k mod c' = 0
        then (case strip_zeros k q (e - e' - int k) of (c1, e1) \<Rightarrow> dec_round (s \<noteq> s') c1 e1)
        else dec_round (s \<noteq> s') (10 * q + 1) (e - e' - int k - 1))"

instantiation d64 :: "{zero, plus, minus, uminus, times, divide}"
begin

definition zero_d64 :: d64 where "0 = bobs64 0x31C0000000000000"

definition plus_d64 :: "d64 \<Rightarrow> d64 \<Rightarrow> d64" where
  "x + y = d64_of_dec (dec_add (dec_of_d64 x) (dec_of_d64 y))"

definition uminus_d64 :: "d64 \<Rightarrow> d64" where
  "- x = bobs64 (bits64 x XOR 0x8000000000000000)"

definition minus_d64 :: "d64 \<Rightarrow> d64 \<Rightarrow> d64" where
  "x - y = x + - (y :: d64)"

definition times_d64 :: "d64 \<Rightarrow> d64 \<Rightarrow> d64" where
  "x * y = d64_of_dec (dec_mul (dec_of_d64 x) (dec_of_d64 y))"

definition divide_d64 :: "d64 \<Rightarrow> d64 \<Rightarrow> d64" where
  "x div y = d64_of_dec (dec_div (dec_of_d64 x) (dec_of_d64 y))"

instance ..

end

subsection \<open>Encoding and decoding are inverse\<close>

lemma bit_small_int: "0 \<le> c \<Longrightarrow> c < 2 ^ n \<Longrightarrow> n \<le> m \<Longrightarrow> \<not> bit (c::int) m"
proof -
  assume a: "0 \<le> c" "c < 2 ^ n" "n \<le> m"
  then have "c < 2 ^ m" by (meson less_le_trans one_le_numeral power_increasing)
  then show ?thesis using a by (simp add: bit_iff_odd)
qed

lemma bit_consts:
  "bit (0x8000000000000000 :: 64 word) n \<longleftrightarrow> n = 63"
  "bit (0x6000000000000000 :: 64 word) n \<longleftrightarrow> n = 61 \<or> n = 62"
  "bit (0x1FFFFFFFFFFFFF :: 64 word) n \<longleftrightarrow> n < 53"
  "bit (0x3FF :: 64 word) n \<longleftrightarrow> n < 10"
proof -
  have "(0x8000000000000000 :: 64 word) = push_bit 63 1" by simp
  then show "bit (0x8000000000000000 :: 64 word) n \<longleftrightarrow> n = 63" 
    by (simp only: bit_push_bit_iff bit_1_iff) auto
  have "(0x6000000000000000 :: 64 word) = push_bit 61 (mask 2)" by (simp add: mask_eq_exp_minus_1)
  then show "bit (0x6000000000000000 :: 64 word) n \<longleftrightarrow> n = 61 \<or> n = 62"
    by (simp only: bit_push_bit_iff bit_mask_iff) auto
  have "(0x1FFFFFFFFFFFFF :: 64 word) = mask 53" by (simp add: mask_eq_exp_minus_1)
  then show "bit (0x1FFFFFFFFFFFFF :: 64 word) n \<longleftrightarrow> n < 53"
    by (simp only: bit_mask_iff) auto
  have "(0x3FF :: 64 word) = mask 10" by (simp add: mask_eq_exp_minus_1)
  then show "bit (0x3FF :: 64 word) n \<longleftrightarrow> n < 10" by (simp only: bit_mask_iff) auto
qed

lemma d64_fin_fields:
  fixes c e :: int and s :: bool and b :: "64 word"
  defines "b \<equiv> bits64 (d64_of_dec (DFin s c e))"
  assumes c: "0 \<le> c" "c < 2 ^ 53" and e: "- 398 \<le> e" "e \<le> 369"
  shows "b AND 0x6000000000000000 \<noteq> 0x6000000000000000" "uint (b AND 0x1FFFFFFFFFFFFF) = c"
    "uint (drop_bit 53 b AND 0x3FF) = e + 398" "bit b 63 = s"
proof -
  define E where "E = e + 398"
  have E: "0 \<le> E" "E < 768" using e by (auto simp: E_def)
  have b: "b = (if s then 0x8000000000000000 else 0) OR (push_bit 53 (word_of_int E) OR word_of_int c)"
    using c(2) by (simp add: b_def d64_of_dec_def E_def)
  have bit: "bit b n \<longleftrightarrow> n = 63 \<and> s \<or> 53 \<le> n \<and> n < 64 \<and> bit E (n - 53) \<or> n < 53 \<and> bit c n" for n
  proof -
    have "bit b n \<longleftrightarrow> s \<and> n = 63 \<or> 53 \<le> n \<and> n < 64 \<and> bit (word_of_int E :: 64 word) (n - 53) \<or>
        bit (word_of_int c :: 64 word) n"
      by (cases s) (simp_all only: b bit_or_iff bit_push_bit_iff bit_consts if_True if_False bit_0_eq, auto)
    then show ?thesis using bit_small_int [OF c, of n] by (auto simp: bit_word_of_int_iff)
  qed
  have E10: "bit E n \<Longrightarrow> n < 10" for n using bit_small_int [of E 10 n] E by force
  have "\<not> (bit E 8 \<and> bit E 9)"
  proof
    assume "bit E 8 \<and> bit E 9"
    then have "512 \<le> E" using E(1) bit_small_int [of E 9 9] by force
    then have "E div 256 = 2" using E(2) by (intro int_div_pos_eq [of _ _ _ "E - 512"]) auto
    with \<open>bit E 8 \<and> bit E 9\<close> show False by (simp add: bit_iff_odd)
  qed
  then have "\<not> (bit b 61 \<and> bit b 62)" using bit by auto
  then show "b AND 0x6000000000000000 \<noteq> 0x6000000000000000"
    by (metis bit_and_iff bit_consts(2))
  have "b AND 0x1FFFFFFFFFFFFF = word_of_int c"
    by (rule bit_word_eqI, unfold bit_and_iff bit_consts bit bit_word_of_int_iff)
      (use bit_small_int [OF c] not_less in auto)
  then show "uint (b AND 0x1FFFFFFFFFFFFF) = c" using c by (simp add: uint_word_of_int)
  have "drop_bit 53 b AND 0x3FF = word_of_int E"
    by (rule bit_word_eqI, unfold bit_and_iff bit_consts bit_drop_bit_eq comp_def bit bit_word_of_int_iff)
      (use E10 in force)
  then have "uint (drop_bit 53 b AND 0x3FF) = E" using E by (simp add: uint_word_of_int)
  then show "uint (drop_bit 53 b AND 0x3FF) = e + 398" by (simp add: E_def)
  show "bit b 63 = s" using bit [of 63] E10 [of 10] by auto
qed

lemma dec_of_d64_fin:
  assumes "0 \<le> c" "c < 2 ^ 53" "- 398 \<le> e" "e \<le> 369"
  shows "dec_of_d64 (d64_of_dec (DFin s c e)) = DFin s c e"
proof -
  let ?b = "bits64 (d64_of_dec (DFin s c e))"
  note f = d64_fin_fields [OF assms, of s]
  have "(?b AND 0x7C00000000000000) AND 0x6000000000000000 = ?b AND 0x6000000000000000"
    by (simp only: and.assoc) simp
  then have "?b AND 0x7C00000000000000 \<noteq> 0x7C00000000000000"
    "?b AND 0x7C00000000000000 \<noteq> 0x7800000000000000" using f(1) by force+
  then show ?thesis using f by (simp add: dec_of_d64_def Let_def)
qed

lemma dec_of_dd:
  "0 \<le> c \<Longrightarrow> c < 2 ^ 53 \<Longrightarrow> - 398 \<le> e \<Longrightarrow> e \<le> 369 \<Longrightarrow> dec_of_d64 (dd c e) = DFin False c e"
  unfolding dd_def by (rule dec_of_d64_fin)

subsection \<open>The order of the numbers\<close>

definition fval :: "bool \<Rightarrow> int \<Rightarrow> int \<Rightarrow> rat" where
  "fval s c e = (if s then - of_int c else of_int c) * 10 powi e"

lemma scaled_fval: "m \<le> e \<Longrightarrow> of_int (scaled s c e m) * 10 powi m = fval s c e"
proof -
  assume "m \<le> e"
  then have "(10::rat) ^ nat (e - m) * 10 powi m = 10 powi e"
    using power_int_add [of "10::rat" "e - m" m] by (simp flip: power_int_of_nat)
  then show ?thesis by (simp add: scaled_def fval_def)
qed

lemma scaled_le_iff:
  "scaled s c e (min e e') \<le> scaled s' c' e' (min e e') \<longleftrightarrow> fval s c e \<le> fval s' c' e'"
  (is "?a \<le> ?b \<longleftrightarrow> _")
proof -
  have "?a \<le> ?b \<longleftrightarrow> of_int ?a * 10 powi min e e' \<le> of_int ?b * (10::rat) powi min e e'"
    by (simp add: mult_le_cancel_right_pos)
  then show ?thesis by (simp add: scaled_fval)
qed

lemma scaled_less_iff:
  "scaled s c e (min e e') < scaled s' c' e' (min e e') \<longleftrightarrow> fval s c e < fval s' c' e'"
  using scaled_le_iff [of s' c' e' e s c] by (simp add: min.commute not_le [symmetric])

lemma dec_le_trans: "dec_le x y \<Longrightarrow> dec_le y z \<Longrightarrow> dec_le x z"
  by (cases x; cases y; cases z) (auto simp: scaled_le_iff)

lemma dec_lt_iff: "dec_lt x y \<longleftrightarrow> dec_le x y \<and> \<not> dec_le y x"
  by (cases x; cases y) (auto simp: scaled_le_iff scaled_less_iff)

lemma dec_le_total: "x \<noteq> DNaN \<Longrightarrow> y \<noteq> DNaN \<Longrightarrow> dec_le x y \<or> dec_le y x"
  by (cases x; cases y) (auto simp: scaled_le_iff)

lemma dec_le_not_nan: "dec_le x y \<Longrightarrow> x \<noteq> DNaN \<and> y \<noteq> DNaN"
  by (cases x; cases y) auto

lemma d64_le_trans: "x \<le> y \<Longrightarrow> y \<le> z \<Longrightarrow> x \<le> (z :: d64)"
  unfolding less_eq_d64_def by (rule dec_le_trans)

lemma d64_lt_iff: "x < (y :: d64) \<longleftrightarrow> x \<le> y \<and> \<not> y \<le> x"
  by (simp add: less_eq_d64_def less_d64_def dec_lt_iff)

lemma d64_less_le_trans: "x < y \<Longrightarrow> y \<le> z \<Longrightarrow> x < (z :: d64)"
  using d64_le_trans [of x y z] d64_le_trans [of y z x] by (auto simp: d64_lt_iff)

lemma d64_le_total: "\<not> isnand64 x \<Longrightarrow> \<not> isnand64 y \<Longrightarrow> x \<le> y \<or> y \<le> x"
  unfolding less_eq_d64_def isnand64_def by (rule dec_le_total)

lemma d64_le_not_nan: "x \<le> y \<Longrightarrow> \<not> isnand64 x \<and> \<not> isnand64 y"
  unfolding less_eq_d64_def isnand64_def by (rule dec_le_not_nan)

lemma d64_le_refl [simp]: "x \<le> x \<longleftrightarrow> \<not> isnand64 x"
  using d64_le_total [of x x] d64_le_not_nan [of x x] by argo

lemma deq_refl [simp]: "deq x x \<longleftrightarrow> \<not> isnand64 x"
  by (simp add: deq_def)

lemma deq_sym: "deq x y \<Longrightarrow> deq y x"
  by (auto simp: deq_def)

text \<open>
  The order of a side of the book: ascending prices on the ask side, descending ones on the
  bid side. Both are instances of the key order of the prelude.
\<close>

definition kbefore :: "bool \<Rightarrow> d64 \<Rightarrow> d64 \<Rightarrow> bool" where
  "kbefore descp x y \<longleftrightarrow> (if descp then y < x else x < y)"

interpretation px: key_order "kbefore descp" deq "\<lambda>x. \<not> isnand64 x" for descp
proof
  fix x y z
  show "\<not> kbefore descp x x" by (auto simp: kbefore_def d64_lt_iff)
  show "kbefore descp x y \<Longrightarrow> kbefore descp y z \<Longrightarrow> kbefore descp x z"
    by (auto simp: kbefore_def d64_lt_iff split: if_splits intro: d64_le_trans)
  show "kbefore descp x y \<Longrightarrow> \<not> isnand64 x \<and> \<not> isnand64 y"
    by (auto simp: kbefore_def d64_lt_iff split: if_splits dest: d64_le_not_nan)
  show "deq x y \<Longrightarrow> \<not> isnand64 x \<and> \<not> isnand64 y"
    by (auto simp: deq_def dest: d64_le_not_nan)
  show "\<not> isnand64 x \<Longrightarrow> \<not> isnand64 y \<Longrightarrow> kbefore descp x y \<or> deq x y \<or> kbefore descp y x"
    using d64_le_total by (auto simp: kbefore_def deq_def d64_lt_iff)
  show "deq x y \<Longrightarrow> deq y x" by (rule deq_sym)
  show "\<not> isnand64 x \<Longrightarrow> deq x x" by simp
  show "deq x y \<Longrightarrow> kbefore descp y z \<Longrightarrow> kbefore descp x z"
    by (auto simp: kbefore_def deq_def d64_lt_iff split: if_splits intro: d64_le_trans)
  show "kbefore descp x y \<Longrightarrow> deq y z \<Longrightarrow> kbefore descp x z"
    by (auto simp: kbefore_def deq_def d64_lt_iff split: if_splits intro: d64_le_trans)
qed

end
