(* ===== verification/Btree.thy ===== *)
theory Btree
  imports Decimal
begin

text \<open>
  The B+ tree of \<open>src/src/btree.c\<close> (and \<open>btree.h\<close>, \<open>btree_val.h\<close>), in its 64 bit instance: one side
  of an order book, mapping prices to quantities with a time stamp. Nodes live in an explicit
  heap, a list of cells indexed by address, because the code keeps pointers into nodes across
  calls that move the contents of nodes; a pointer to a value is the address of its node with
  the index of its slot. A deleted level stays in its leaf with a quantity that is not positive
  and its slot is reused; the bit mask \<open>used\<close> tells the iterator which slots to visit.
\<close>

subsection \<open>Values and nodes\<close>

record btree_val =
  val_q :: d64
  val_t :: tv

definition btree_val_nil :: btree_val where
  "btree_val_nil = \<lparr>val_q = 0, val_t = 0\<rparr>"

definition btree_val_nil_p :: "btree_val \<Rightarrow> bool" where
  "btree_val_nil_p v \<longleftrightarrow> val_q v \<le> 0"

type_synonym btree_t = nat

datatype btree_ual = UV (ual_v: btree_val) | UT (ual_t: btree_t)

record btree_s =
  bt_n :: nat
  bt_innerp :: bool
  bt_descp :: bool
  bt_splitp :: bool
  bt_used :: "64 word"
  bt_key :: "d64 list"
  bt_val :: "btree_ual list"
  bt_next :: "btree_t option"

type_synonym heap = "btree_s option list"
type_synonym val_ptr = "btree_t \<times> nat"

definition deref :: "heap \<Rightarrow> btree_t \<Rightarrow> btree_s option" where
  "deref h a = (if a < length h then h ! a else None)"

definition store :: "heap \<Rightarrow> btree_t \<Rightarrow> btree_s \<Rightarrow> heap" where
  "store h a nd = h[a := Some nd]"

text \<open>Reading and writing a value through a pointer.\<close>

definition load_val :: "heap \<Rightarrow> val_ptr \<Rightarrow> btree_val option" where
  "load_val h p = do { nd \<leftarrow> deref h (fst p); Some (ual_v (bt_val nd ! snd p)) }"

definition store_val :: "heap \<Rightarrow> val_ptr \<Rightarrow> btree_val \<Rightarrow> heap option" where
  "store_val h p v = do {
     nd \<leftarrow> deref h (fst p);
     Some (store h (fst p) (nd\<lparr>bt_val := (bt_val nd)[snd p := UV v]\<rparr>))
   }"

text \<open>The byte pattern that \<open>memset\<close> fills key arrays with, a NaN.\<close>

abbreviation key_fill :: d64 where
  "key_fill \<equiv> bobs64 (- 1)"

definition countof_key :: nat where
  "countof_key = 64"

definition new_btree :: "bool \<Rightarrow> btree_s" where
  "new_btree descp =
     \<lparr>bt_n = 0, bt_innerp = False, bt_descp = descp, bt_splitp = False, bt_used = 0,
      bt_key = replicate countof_key key_fill, bt_val = replicate 64 (UV \<lparr>val_q = bobs64 0, val_t = 0\<rparr>),
      bt_next = None\<rparr>"

definition make_btree :: "heap \<Rightarrow> bool \<Rightarrow> heap \<times> btree_t" where
  "make_btree h descp = (h @ [Some (new_btree descp)], length h)"

partial_function (option) free_from :: "heap \<Rightarrow> btree_t \<Rightarrow> nat \<Rightarrow> heap option" where
  "free_from h t i = do {
     nd \<leftarrow> deref h t;
     if bt_innerp nd \<and> i \<le> bt_n nd
     then do { h' \<leftarrow> free_from h (ual_t (bt_val nd ! i)) 0; free_from h' t (i + 1) }
     else Some (h[t := None])
   }"

definition free_btree :: "heap \<Rightarrow> btree_t \<Rightarrow> heap option" where
  "free_btree h t = free_from h t 0"

subsection \<open>Pruning and splitting\<close>

text \<open>
  \<open>node_free_p\<close>: the loop over the children of an inner node is the recursion on the child index.
\<close>

definition leaf_free_p :: "btree_s \<Rightarrow> bool" where
  "leaf_free_p nd \<longleftrightarrow>
     scan_while (\<lambda>nul. btree_val_nil_p (ual_v (bt_val nd ! nul))) 0 (bt_n nd) \<ge> bt_n nd"

partial_function (option) node_free_from :: "heap \<Rightarrow> btree_t \<Rightarrow> nat \<Rightarrow> bool option" where
  "node_free_from h t nul = do {
     nd \<leftarrow> deref h t;
     if \<not> bt_innerp nd then Some (leaf_free_p nd)
     else if nul \<le> bt_n nd then do {
       b \<leftarrow> node_free_from h (ual_t (bt_val nd ! nul)) 0;
       if b then node_free_from h t (nul + 1) else Some False
     }
     else Some True
   }"

definition node_free_p :: "heap \<Rightarrow> btree_t \<Rightarrow> bool option" where
  "node_free_p h t = node_free_from h t 0"

text \<open>The scan of \<open>node_split\<close> for a prunable child: the index after the last one if there is none.\<close>

partial_function (option) find_free :: "heap \<Rightarrow> btree_s \<Rightarrow> nat \<Rightarrow> nat option" where
  "find_free h pr nul =
     (if nul \<le> bt_n pr then do {
        b \<leftarrow> node_free_p h (ual_t (bt_val pr ! nul));
        if b then Some nul else find_free h pr (nul + 1)
      } else Some nul)"

definition pivot :: nat where
  "pivot = countof_key div 2 - 1"

definition root_split :: "heap \<Rightarrow> btree_t \<Rightarrow> heap option" where
  "root_split h rootp = do {
     rt \<leftarrow> deref h rootp;
     let (h, left) = make_btree h (bt_descp rt);
     let (h, rght) = make_btree h (bt_descp rt);
     lf \<leftarrow> deref h left;
     rg \<leftarrow> deref h rght;
     let lf = lf\<lparr>bt_key := memcpy_arr (bt_key lf) 0 (bt_key rt) (pivot + 1),
                bt_val := memcpy_arr (bt_val lf) 0 (bt_val rt) (pivot + 1),
                bt_innerp := bt_innerp rt,
                bt_n := pivot + (if bt_innerp rt then 0 else 1),
                bt_next := Some rght\<rparr>;
     let rg = rg\<lparr>bt_key := memcpy_arr (bt_key rg) 0 (drop (pivot + 1) (bt_key rt)) pivot,
                bt_val := memcpy_arr (bt_val rg) 0 (drop (pivot + 1) (bt_val rt)) (pivot + 1),
                bt_innerp := bt_innerp rt,
                bt_n := pivot,
                bt_next := None\<rparr>;
     let rt = rt\<lparr>bt_key := memset_arr ((bt_key rt)[0 := bt_key rt ! pivot]) 1 key_fill,
                bt_val := (bt_val rt)[0 := UT left, 1 := UT rght],
                bt_n := 1,
                bt_innerp := True,
                bt_next := None\<rparr>;
     Some (store (store (store h left lf) rght rg) rootp rt)
   }"

definition node_split :: "heap \<Rightarrow> btree_t \<Rightarrow> nat \<Rightarrow> heap option" where
  "node_split h prnt idx = do {
     pr \<leftarrow> deref h prnt;
     let chld = ual_t (bt_val pr ! idx);
     ch \<leftarrow> deref h chld;
     nul \<leftarrow> find_free h pr 0;
     (h, rght) \<leftarrow>
       (if nul > bt_n pr then Some (make_btree h (bt_descp ch))
        else do {
          let rght = ual_t (bt_val pr ! nul);
          rg \<leftarrow> deref h rght;
          if nul > 0 then do {
            let prev = ual_t (bt_val pr ! (nul - 1));
            pv \<leftarrow> deref h prev;
            Some (store h prev (pv\<lparr>bt_next := bt_next rg\<rparr>), rght)
          } else Some (h, rght)
        });
     pr \<leftarrow> deref h prnt;
     let (pr, idx) =
       (if nul > idx then
          (pr\<lparr>bt_key := memmove_arr (bt_key pr) (idx + 1) idx (nul - idx),
             bt_val := memmove_arr (bt_val pr) (idx + 1) idx (nul - idx)\<rparr>, idx)
        else if nul < idx then
          (pr\<lparr>bt_key := memmove_arr (bt_key pr) nul (nul + 1) (idx - nul),
             bt_val := memmove_arr (bt_val pr) nul (nul + 1) (idx - nul)\<rparr>, idx - 1)
        else (pr, idx));
     ch \<leftarrow> deref h chld;
     let pr = pr\<lparr>bt_n := bt_n pr + (if nul > bt_n pr then 1 else 0),
                bt_key := (bt_key pr)[idx := bt_key ch ! pivot],
                bt_val := (bt_val pr)[idx + 1 := UT rght]\<rparr>;
     let h = store h prnt pr;
     rg \<leftarrow> deref h rght;
     ch \<leftarrow> deref h chld;
     let rg = rg\<lparr>bt_key := memset_arr
                   (memcpy_arr (bt_key rg) 0 (drop (pivot + 1) (bt_key ch)) pivot) pivot key_fill,
                bt_val := memcpy_arr (bt_val rg) 0 (drop (pivot + 1) (bt_val ch)) (pivot + 1),
                bt_innerp := bt_innerp ch,
                bt_next := bt_next ch,
                bt_n := pivot\<rparr>;
     let h = store h rght rg;
     ch \<leftarrow> deref h chld;
     let n' = pivot + (if bt_innerp ch then 0 else 1);
     let ch = ch\<lparr>bt_n := n', bt_next := Some rght,
                bt_key := memset_arr (bt_key ch) n' key_fill\<rparr>;
     Some (store h chld ch)
   }"

subsection \<open>Search\<close>

text \<open>The loop \<open>for (i = 0U; i < t->n && k > t->key[i]; i++);\<close> (and \<open><\<close> in a descending tree).\<close>

definition key_index :: "btree_s \<Rightarrow> d64 \<Rightarrow> nat" where
  "key_index nd k =
     scan_while (\<lambda>i. if bt_descp nd then k < bt_key nd ! i else k > bt_key nd ! i) 0 (bt_n nd)"

definition leaf_get :: "btree_s \<Rightarrow> d64 \<Rightarrow> nat option" where
  "leaf_get nd k =
     (let i = key_index nd k in if \<not> deq k (bt_key nd ! i) then None else Some i)"

partial_function (option) twig_get :: "heap \<Rightarrow> btree_t \<Rightarrow> d64 \<Rightarrow> val_ptr option option" where
  "twig_get h t k = do {
     nd \<leftarrow> deref h t;
     let c = ual_t (bt_val nd ! key_index nd k);
     cn \<leftarrow> deref h c;
     if \<not> bt_innerp cn then Some (map_option (Pair c) (leaf_get cn k))
     else twig_get h c k
   }"

definition btree_get :: "heap \<Rightarrow> btree_t \<Rightarrow> d64 \<Rightarrow> val_ptr option option" where
  "btree_get h t k = do {
     nd \<leftarrow> deref h t;
     if \<not> bt_innerp nd then Some (map_option (Pair t) (leaf_get nd k)) else twig_get h t k
   }"

subsection \<open>Insertion\<close>

definition leaf_add :: "btree_s \<Rightarrow> d64 \<Rightarrow> btree_s \<times> nat \<times> bool" where
  "leaf_add nd k =
     (let i = key_index nd k;
          (nd, i) =
            (if deq k (bt_key nd ! i) then (nd, i)
             else
               (let nul = scan_while (\<lambda>j. \<not> btree_val_nil_p (ual_v (bt_val nd ! j))) 0 (bt_n nd);
                    (nd, i) =
                      (if nul > i then
                         (let msk = push_bit i (drop_bit i (bt_used nd) AND (push_bit (nul - i) 1 - 1));
                              used = bt_used nd XOR msk;
                              msk = push_bit 1 msk;
                              used = used XOR msk
                          in (nd\<lparr>bt_used := used,
                                 bt_key := memmove_arr (bt_key nd) (i + 1) i (nul - i),
                                 bt_val := memmove_arr (bt_val nd) (i + 1) i (nul - i)\<rparr>, i))
                       else if nul < i then
                         (let msk = push_bit nul (drop_bit nul (bt_used nd) AND (push_bit (i - nul) 1 - 1));
                              used = bt_used nd XOR msk;
                              msk = drop_bit 1 msk;
                              used = used XOR msk;
                              i = i - 1
                          in (nd\<lparr>bt_used := used,
                                 bt_key := memmove_arr (bt_key nd) nul (nul + 1) (i - nul),
                                 bt_val := memmove_arr (bt_val nd) nul (nul + 1) (i - nul)\<rparr>, i))
                       else (nd, i))
                in (nd\<lparr>bt_n := bt_n nd + (if nul < bt_n nd then 0 else 1),
                       bt_key := (bt_key nd)[i := k],
                       bt_val := (bt_val nd)[i := UV btree_val_nil]\<rparr>, i)));
          splitp = (bt_n nd \<ge> countof_key - 1)
      in (nd\<lparr>bt_used := bt_used nd OR bit1 i\<rparr>, i, splitp))"

partial_function (option) twig_add :: "heap \<Rightarrow> btree_t \<Rightarrow> d64 \<Rightarrow> (heap \<times> val_ptr \<times> bool) option" where
  "twig_add h t k = do {
     nd \<leftarrow> deref h t;
     let i = key_index nd k;
     let c = ual_t (bt_val nd ! i);
     cn \<leftarrow> deref h c;
     (h, r, splitp) \<leftarrow>
       (if \<not> bt_innerp cn
        then (case leaf_add cn k of (cn', j, sp) \<Rightarrow> Some (store h c cn', (c, j), sp))
        else twig_add h c k);
     h \<leftarrow> (if splitp then node_split h t i else Some h);
     nd \<leftarrow> deref h t;
     Some (h, r, bt_n nd \<ge> countof_key - 1)
   }"

definition btree_put :: "heap \<Rightarrow> btree_t \<Rightarrow> d64 \<Rightarrow> (heap \<times> val_ptr) option" where
  "btree_put h t k = do {
     nd \<leftarrow> deref h t;
     h \<leftarrow> (if bt_splitp nd then root_split h t else Some h);
     nd \<leftarrow> deref h t;
     (h, vp, splitp) \<leftarrow>
       (if \<not> bt_innerp nd
        then (case leaf_add nd k of (nd', j, sp) \<Rightarrow> Some (store h t nd', (t, j), sp))
        else twig_add h t k);
     nd \<leftarrow> deref h t;
     Some (store h t (nd\<lparr>bt_splitp := splitp\<rparr>), vp)
   }"

definition btree_rem :: "heap \<Rightarrow> btree_t \<Rightarrow> d64 \<Rightarrow> (heap \<times> btree_val) option" where
  "btree_rem h t k = do {
     vp \<leftarrow> btree_get h t k;
     case vp of
       Some p \<Rightarrow> do { w \<leftarrow> load_val h p; h \<leftarrow> store_val h p btree_val_nil; Some (h, w) }
     | None \<Rightarrow> Some (h, btree_val_nil)
   }"

subsection \<open>Walking the leaves\<close>

text \<open>\<open>for (; t->innerp; t = t->val->t);\<close>\<close>

partial_function (option) first_leaf :: "heap \<Rightarrow> btree_t \<Rightarrow> btree_t option" where
  "first_leaf h t = do {
     nd \<leftarrow> deref h t;
     if bt_innerp nd then first_leaf h (ual_t (bt_val nd ! 0)) else Some t
   }"

definition clr_vals :: "btree_s \<Rightarrow> btree_s" where
  "clr_vals nd = nd\<lparr>bt_val := fold (\<lambda>i vs. vs[i := UV btree_val_nil]) [0..<bt_n nd] (bt_val nd)\<rparr>"

partial_function (option) clr_leaves :: "heap \<Rightarrow> btree_t \<Rightarrow> heap option" where
  "clr_leaves h t = do {
     nd \<leftarrow> deref h t;
     let h = store h t (clr_vals nd);
     case bt_next nd of None \<Rightarrow> Some h | Some t' \<Rightarrow> clr_leaves h t'
   }"

definition btree_clr :: "heap \<Rightarrow> btree_t \<Rightarrow> heap option" where
  "btree_clr h t = do { t \<leftarrow> first_leaf h t; clr_leaves h t }"

partial_function (option) top_leaves :: "heap \<Rightarrow> btree_t \<Rightarrow> (d64 \<times> val_ptr) option option" where
  "top_leaves h t = do {
     nd \<leftarrow> deref h t;
     let i = scan_while (\<lambda>i. btree_val_nil_p (ual_v (bt_val nd ! i))) 0 (bt_n nd);
     if i < bt_n nd then Some (Some (bt_key nd ! i, (t, i)))
     else (case bt_next nd of None \<Rightarrow> Some None | Some t' \<Rightarrow> top_leaves h t')
   }"

definition btree_top :: "heap \<Rightarrow> btree_t \<Rightarrow> (d64 \<times> val_ptr) option option" where
  "btree_top h t = do { t \<leftarrow> first_leaf h t; top_leaves h t }"

subsection \<open>The iterator\<close>

record btree_iter =
  it_t :: "btree_t option"
  it_i :: nat
  it_k :: d64
  it_v :: "val_ptr option"

definition iter_init :: "btree_t \<Rightarrow> btree_iter" where
  "iter_init t = \<lparr>it_t = Some t, it_i = 0, it_k = bobs64 0, it_v = None\<rparr>"

text \<open>
  \<open>__builtin_ctzll\<close>: the number of trailing zeros. The builtin has no defined result for zero,
  which is what the iterator applies it to at the end of every leaf; the instruction compilers
  emit for it (\<open>tzcnt\<close>) then yields the width of the operand.
\<close>

definition ctzll :: "64 word \<Rightarrow> nat" where
  "ctzll u = scan_while (\<lambda>i. \<not> bit u i) 0 64"

text \<open>The loop over the marked slots of a leaf, which unmarks those that hold no quantity.\<close>

function iter_scan :: "btree_s \<Rightarrow> 64 word \<Rightarrow> nat \<Rightarrow> nat \<Rightarrow> btree_s \<times> nat option" where
  "iter_scan nd u sh i =
     (if i < bt_n nd then
        (if \<not> btree_val_nil_p (ual_v (bt_val nd ! i)) then (nd, Some i)
         else
           (let nd' = nd\<lparr>bt_used := (bt_used nd OR bit1 i) XOR bit1 i\<rparr>;
                u' = drop_bit (sh + 1) u;
                sh' = ctzll u'
            in iter_scan nd' u' sh' (i + (sh' + 1))))
      else (nd, None))"
  by pat_completeness auto
termination
  by (relation "measure (\<lambda>(nd, u, sh, i). bt_n nd - i)") auto

declare iter_scan.simps [simp del]

partial_function (option) iter_leaves :: "heap \<Rightarrow> btree_t \<Rightarrow> nat \<Rightarrow>
    (heap \<times> (btree_t \<times> nat \<times> d64) option) option" where
  "iter_leaves h t i = do {
     nd \<leftarrow> deref h t;
     let u = drop_bit i (bt_used nd);
     let sh = ctzll u;
     case iter_scan nd u sh (i + sh) of
       (nd', Some j) \<Rightarrow> Some (store h t nd', Some (t, j, bt_key nd ! j))
     | (nd', None) \<Rightarrow>
         (case bt_next nd of None \<Rightarrow> Some (store h t nd', None)
          | Some t' \<Rightarrow> iter_leaves (store h t nd') t' 0)
   }"

definition btree_iter_next :: "heap \<Rightarrow> btree_iter \<Rightarrow> (heap \<times> btree_iter \<times> bool) option" where
  "btree_iter_next h it =
     (case it_t it of
        None \<Rightarrow> Some (h, it\<lparr>it_v := None\<rparr>, False)
      | Some t \<Rightarrow> do {
          nd \<leftarrow> deref h t;
          l \<leftarrow> first_leaf h t;
          (h, r) \<leftarrow> iter_leaves h l (if bt_innerp nd then 0 else it_i it);
          case r of
            Some (t', j, k) \<Rightarrow>
              Some (h, it\<lparr>it_t := Some t', it_k := k, it_v := Some (t', j), it_i := j + 1\<rparr>, True)
          | None \<Rightarrow> Some (h, it\<lparr>it_t := None, it_i := 0, it_v := None\<rparr>, False)
        })"

declare free_from.simps [code] node_free_from.simps [code] find_free.simps [code]
declare twig_get.simps [code] twig_add.simps [code] first_leaf.simps [code]
declare clr_leaves.simps [code] top_leaves.simps [code] iter_leaves.simps [code]

end
