(* ===== verification/Btree_Leaf.thy ===== *)
theory Btree_Leaf
  imports Btree
begin

text \<open>
  Correctness of a single leaf: the invariant of its arrays, what \<open>leaf_get\<close> finds, what
  \<open>leaf_add\<close> does to the keys, the values and the marks, and the price levels a leaf holds.
\<close>

abbreviation leaf_val :: "btree_s \<Rightarrow> nat \<Rightarrow> btree_val" where
  "leaf_val nd i \<equiv> ual_v (bt_val nd ! i)"

abbreviation live :: "btree_s \<Rightarrow> nat \<Rightarrow> bool" where
  "live nd i \<equiv> \<not> btree_val_nil_p (leaf_val nd i)"

definition leaf_ok :: "btree_s \<Rightarrow> bool" where
  "leaf_ok nd \<longleftrightarrow>
     \<not> bt_innerp nd \<and> length (bt_key nd) = 64 \<and> length (bt_val nd) = 64 \<and> bt_n nd \<le> 63 \<and>
     (\<forall>j < bt_n nd. \<forall>i < j. kbefore (bt_descp nd) (bt_key nd ! i) (bt_key nd ! j)) \<and>
     (\<forall>i < 64. isnand64 (bt_key nd ! i) \<longleftrightarrow> bt_n nd \<le> i)"

lemma new_btree_leaf_ok: "leaf_ok (new_btree descp)"
proof -
  have "isnand64 key_fill" by (simp add: isnand64_def dec_of_d64_def)
  then show ?thesis by (simp add: leaf_ok_def new_btree_def countof_key_def)
qed

lemma leaf_okD:
  assumes "leaf_ok nd"
  shows "\<not> bt_innerp nd" "length (bt_key nd) = 64" "length (bt_val nd) = 64" "bt_n nd \<le> 63"
    and "i < j \<Longrightarrow> j < bt_n nd \<Longrightarrow> kbefore (bt_descp nd) (bt_key nd ! i) (bt_key nd ! j)"
    and "i < 64 \<Longrightarrow> isnand64 (bt_key nd ! i) \<longleftrightarrow> bt_n nd \<le> i"
  using assms by (auto simp: leaf_ok_def)

subsection \<open>Search\<close>

lemma key_index_pos:
  "key_index nd k = px.pos (bt_descp nd) (bt_key nd) (bt_n nd) k"
  by (simp add: key_index_def px.pos_def kbefore_def if_distrib cong: if_cong)

lemma leaf_ordered: "leaf_ok nd \<Longrightarrow> px.ordered (bt_descp nd) (bt_key nd) (bt_n nd)"
  by (auto simp: px.ordered_def leaf_ok_def)

lemma key_index_le: "key_index nd k \<le> bt_n nd"
  by (simp add: key_index_pos px.pos_le)

lemma key_index_before: "j < key_index nd k \<Longrightarrow> kbefore (bt_descp nd) (bt_key nd ! j) k"
  by (simp add: key_index_pos px.before_pos)

lemma key_index_eq:
  "leaf_ok nd \<Longrightarrow> j < bt_n nd \<Longrightarrow> deq k (bt_key nd ! j) \<Longrightarrow> key_index nd k = j"
  unfolding key_index_pos using px.eq_is_pos leaf_ordered by metis

lemma deq_index_lt:
  assumes "leaf_ok nd" "deq k (bt_key nd ! key_index nd k)"
  shows "key_index nd k < bt_n nd"
proof -
  have "\<not> isnand64 (bt_key nd ! key_index nd k)" using px.eq_ok assms(2) by blast
  moreover have "key_index nd k < 64" using key_index_le [of nd k] leaf_okD(4) [OF assms(1)] by simp
  ultimately show ?thesis using leaf_okD(6) [OF assms(1)] by simp
qed

lemma key_index_after:
  assumes "leaf_ok nd" "\<not> isnand64 k" "\<not> deq k (bt_key nd ! key_index nd k)"
    and "key_index nd k \<le> j" "j < bt_n nd"
  shows "kbefore (bt_descp nd) k (bt_key nd ! j)"
  using px.after_pos_lt [OF leaf_ordered] assms unfolding key_index_pos by blast

lemma leaf_get_Some:
  assumes "leaf_ok nd"
  shows "leaf_get nd k = Some i \<longleftrightarrow> i < bt_n nd \<and> deq k (bt_key nd ! i)"
  using assms deq_index_lt key_index_eq by (auto simp: leaf_get_def Let_def)

lemma leaf_get_None:
  assumes "leaf_ok nd"
  shows "leaf_get nd k = None \<longleftrightarrow> (\<forall>i < bt_n nd. \<not> deq k (bt_key nd ! i))"
  using leaf_get_Some [OF assms] by (metis not_Some_eq)

subsection \<open>Insertion\<close>

text \<open>
  \<open>nul_index\<close> is the first slot without a quantity (\<open>n\<close> if there is none). Inserting at \<open>i\<close> moves
  the slots between \<open>i\<close> and \<open>nul\<close> by one towards \<open>nul\<close> and writes to slot \<open>ins_slot i nul\<close>; slot
  \<open>j\<close> of the result, if it is another one, is slot \<open>ins_src i nul j\<close> of the original.
\<close>

definition nul_index :: "btree_s \<Rightarrow> nat" where
  "nul_index nd = scan_while (live nd) 0 (bt_n nd)"

definition ins_slot :: "nat \<Rightarrow> nat \<Rightarrow> nat" where
  "ins_slot i nul = (if nul < i then i - 1 else i)"

definition ins_src :: "nat \<Rightarrow> nat \<Rightarrow> nat \<Rightarrow> nat" where
  "ins_src i nul j = (if i < j \<and> j \<le> nul then j - 1 else if nul \<le> j \<and> j + 1 < i then j + 1 else j)"

definition ins_arr :: "'a list \<Rightarrow> nat \<Rightarrow> nat \<Rightarrow> 'a \<Rightarrow> 'a list" where
  "ins_arr xs i nul x =
     (if i < nul then memmove_arr xs (i + 1) i (nul - i)
      else if nul < i then memmove_arr xs nul (nul + 1) (i - 1 - nul) else xs)[ins_slot i nul := x]"

lemma length_ins_arr [arr_simps]:
  "i < length xs \<Longrightarrow> nul < length xs \<Longrightarrow> length (ins_arr xs i nul x) = length xs"
  by (simp add: ins_arr_def length_memmove_arr)

lemma nth_ins_arr [arr_simps]:
  "i < length xs \<Longrightarrow> nul < length xs \<Longrightarrow> j < length xs \<Longrightarrow>
   ins_arr xs i nul x ! j = (if j = ins_slot i nul then x else xs ! ins_src i nul j)"
  by (auto simp: ins_arr_def ins_slot_def ins_src_def nth_memmove_arr length_memmove_arr
      nth_list_update split: if_splits)

lemma nul_index_le: "nul_index nd \<le> bt_n nd"
  unfolding nul_index_def by (rule scan_while_le) simp

lemma nul_index_nil: "nul_index nd < bt_n nd \<Longrightarrow> btree_val_nil_p (leaf_val nd (nul_index nd))"
  unfolding nul_index_def using scan_while_stop [of "live nd"] by blast

lemma live_not_nul: "j < bt_n nd \<Longrightarrow> live nd j \<Longrightarrow> j \<noteq> nul_index nd"
  using nul_index_nil by blast

definition ins_n :: "btree_s \<Rightarrow> nat" where
  "ins_n nd = (if nul_index nd < bt_n nd then bt_n nd else bt_n nd + 1)"

text \<open>How the mask moves along with the slots.\<close>

definition move_marks :: "64 word \<Rightarrow> nat \<Rightarrow> nat \<Rightarrow> 64 word" where
  "move_marks u i nul =
     (if i < nul then
        (let msk = push_bit i (drop_bit i u AND (push_bit (nul - i) 1 - 1))
         in (u XOR msk) XOR push_bit 1 msk)
      else if nul < i then
        (let msk = push_bit nul (drop_bit nul u AND (push_bit (i - nul) 1 - 1))
         in (u XOR msk) XOR drop_bit 1 msk)
      else u)"

lemma leaf_add_found:
  assumes "deq k (bt_key nd ! key_index nd k)"
  shows "leaf_add nd k =
    (nd\<lparr>bt_used := bt_used nd OR bit1 (key_index nd k)\<rparr>, key_index nd k, bt_n nd \<ge> 63)"
  using assms by (simp add: leaf_add_def Let_def countof_key_def)

lemma leaf_add_new:
  fixes nd k
  defines "i \<equiv> key_index nd k" and "nul \<equiv> nul_index nd"
  assumes "\<not> deq k (bt_key nd ! i)"
  shows "leaf_add nd k =
    (nd\<lparr>bt_n := ins_n nd, bt_key := ins_arr (bt_key nd) i nul k,
       bt_val := ins_arr (bt_val nd) i nul (UV btree_val_nil),
       bt_used := move_marks (bt_used nd) i nul OR bit1 (ins_slot i nul)\<rparr>,
     ins_slot i nul, ins_n nd \<ge> 63)"
  using assms(3)
  by (simp add: leaf_add_def i_def [symmetric] nul_def [unfolded nul_index_def, symmetric]
      ins_arr_def ins_slot_def ins_n_def move_marks_def Let_def countof_key_def
      flip: nul_def)

lemma ins_src_facts:
  assumes "i \<le> n" "nul \<le> n" "j < (if nul < n then n else n + 1)" "j \<noteq> ins_slot i nul"
  shows ins_src_less: "ins_src i nul j < n"
    and ins_src_not_nul: "ins_src i nul j \<noteq> nul"
    and ins_src_before: "j < ins_slot i nul \<longleftrightarrow> ins_src i nul j < i"
  using assms by (auto simp: ins_src_def ins_slot_def split: if_splits)

lemma ins_src_mono:
  assumes "j < j'" "j \<noteq> ins_slot i nul" "j' \<noteq> ins_slot i nul"
  shows "ins_src i nul j < ins_src i nul j'"
  using assms by (auto simp: ins_src_def ins_slot_def split: if_splits)

lemma ins_src_onto:
  assumes "i \<le> n" "nul \<le> n" "m < n" "m \<noteq> nul"
  shows "\<exists>j < (if nul < n then n else n + 1). j \<noteq> ins_slot i nul \<and> ins_src i nul j = m"
proof -
  let ?j = "if i \<le> m \<and> m < nul then m + 1 else if nul < m \<and> m < i then m - 1 else m"
  show ?thesis
    using assms by (intro exI [of _ ?j]) (auto simp: ins_src_def ins_slot_def)
qed

lemma ins_slot_less:
  "i \<le> n \<Longrightarrow> nul \<le> n \<Longrightarrow> ins_slot i nul < (if nul < n then n else n + 1)"
  by (auto simp: ins_slot_def)

definition leaf_room :: "btree_s \<Rightarrow> d64 \<Rightarrow> bool" where
  "leaf_room nd k \<longleftrightarrow> leaf_get nd k \<noteq> None \<or> nul_index nd < bt_n nd \<or> bt_n nd < 63"

lemma leaf_get_index: "leaf_get nd k \<noteq> None \<longleftrightarrow> deq k (bt_key nd ! key_index nd k)"
  by (simp add: leaf_get_def Let_def)

lemma ins_bounds:
  assumes "leaf_ok nd" "leaf_room nd k" "leaf_get nd k = None"
  shows "key_index nd k \<le> bt_n nd" "nul_index nd \<le> bt_n nd" "ins_n nd \<le> 63"
    and "key_index nd k < 64" "nul_index nd < 64"
  using assms key_index_le [of nd k] nul_index_le [of nd] leaf_okD(4) [OF assms(1)]
  by (auto simp: leaf_room_def ins_n_def)

text \<open>The new slots: one holds the new key with no quantity, the others are old slots in order.\<close>

lemma leaf_add_slots:
  assumes "leaf_ok nd" "leaf_room nd k" "leaf_get nd k = None" "leaf_add nd k = (nd', s, sp)"
  shows "bt_key nd' ! s = k" "leaf_val nd' s = btree_val_nil" "s < bt_n nd'"
    and "j < bt_n nd' \<Longrightarrow> j \<noteq> s \<Longrightarrow>
      bt_key nd' ! j = bt_key nd ! ins_src (key_index nd k) (nul_index nd) j \<and>
      bt_val nd' ! j = bt_val nd ! ins_src (key_index nd k) (nul_index nd) j"
    and "bt_n nd' \<le> j \<Longrightarrow> j < 64 \<Longrightarrow> bt_key nd' ! j = bt_key nd ! j"
proof -
  let ?i = "key_index nd k" and ?m = "nul_index nd"
  note b = ins_bounds [OF assms(1-3)] and l = leaf_okD(2-4) [OF assms(1)]
  have eq: "s = ins_slot ?i ?m" "bt_n nd' = ins_n nd"
    "bt_key nd' = ins_arr (bt_key nd) ?i ?m k"
    "bt_val nd' = ins_arr (bt_val nd) ?i ?m (UV btree_val_nil)"
    using assms(3,4) leaf_add_new [of k nd] leaf_get_index [of nd k] by auto
  show s: "s < bt_n nd'" using ins_slot_less b eq by (simp add: ins_n_def)
  show "bt_key nd' ! s = k" "leaf_val nd' s = btree_val_nil"
    using s b l eq by (auto simp: nth_ins_arr)
  show "j < bt_n nd' \<Longrightarrow> j \<noteq> s \<Longrightarrow>
      bt_key nd' ! j = bt_key nd ! ins_src ?i ?m j \<and> bt_val nd' ! j = bt_val nd ! ins_src ?i ?m j"
    using b l eq by (simp add: nth_ins_arr)
  show "bt_n nd' \<le> j \<Longrightarrow> j < 64 \<Longrightarrow> bt_key nd' ! j = bt_key nd ! j"
    using b l eq s by (auto simp: nth_ins_arr ins_n_def ins_src_def ins_slot_def split: if_splits)
qed

lemma leaf_add_shape:
  assumes "leaf_ok nd" "leaf_room nd k" "leaf_add nd k = (nd', s, sp)"
  shows "bt_descp nd' = bt_descp nd" "bt_innerp nd' = bt_innerp nd" "bt_next nd' = bt_next nd"
    and "length (bt_key nd') = 64" "length (bt_val nd') = 64"
    and "bt_n nd' = (if leaf_get nd k = None then ins_n nd else bt_n nd)"
    and "sp \<longleftrightarrow> bt_n nd' \<ge> 63"
  using assms leaf_add_found [of k nd] leaf_add_new [of k nd] leaf_get_index [of nd k]
    leaf_okD(2,3) [OF assms(1)] ins_bounds [OF assms(1,2)]
  by (cases "leaf_get nd k"; auto simp: length_ins_arr)+

lemma leaf_add_ordered:
  assumes "leaf_ok nd" "leaf_room nd k" "leaf_get nd k = None" "\<not> isnand64 k"
    and add: "leaf_add nd k = (nd', s, sp)" and j: "j' < j" "j < bt_n nd'"
  shows "kbefore (bt_descp nd) (bt_key nd' ! j') (bt_key nd' ! j)"
proof -
  let ?i = "key_index nd k" and ?m = "nul_index nd"
  note b = ins_bounds [OF assms(1-3)]
  have n': "bt_n nd' = (if ?m < bt_n nd then bt_n nd else bt_n nd + 1)" and s: "s = ins_slot ?i ?m"
    using leaf_add_shape(6) [OF assms(1,2) add] assms(3) add leaf_add_new [of k nd]
      leaf_get_index [of nd k] by (auto simp: ins_n_def)
  note src = leaf_add_slots [OF assms(1-3) add]
  have bef: "kbefore (bt_descp nd) (bt_key nd ! m) k" if "m < ?i" for m
    using that by (rule key_index_before)
  have aft: "kbefore (bt_descp nd) k (bt_key nd ! m)" if "?i \<le> m" "m < bt_n nd" for m
    using key_index_after [OF assms(1,4)] assms(3) leaf_get_index [of nd k] that by simp
  consider "j = s" | "j' = s" | "j \<noteq> s" "j' \<noteq> s" by blast
  then show ?thesis
  proof cases
    case 1
    then show ?thesis
      using ins_src_before [of ?i "bt_n nd" ?m j'] b n' s j src(1,4) bef by auto
  next
    case 2
    then show ?thesis
      using ins_src_before [of ?i "bt_n nd" ?m j] ins_src_less [of ?i "bt_n nd" ?m j]
        b n' s j src(1,4) aft by auto
  next
    case 3
    then have "ins_src ?i ?m j' < ins_src ?i ?m j" "ins_src ?i ?m j < bt_n nd"
      using ins_src_mono ins_src_less [of ?i "bt_n nd" ?m j] b n' s j by auto
    then show ?thesis using src(4) [of j] src(4) [of j'] 3 j leaf_okD(5) [OF assms(1)] by auto
  qed
qed

lemma leaf_add_leaf_ok:
  assumes "leaf_ok nd" "leaf_room nd k" "\<not> isnand64 k" "leaf_add nd k = (nd', s, sp)"
  shows "leaf_ok nd'"
proof (cases "leaf_get nd k")
  case None
  note sh = leaf_add_shape [OF assms(1,2,4)] and sl = leaf_add_slots [OF assms(1,2) None assms(4)]
  note b = ins_bounds [OF assms(1,2) None]
  have n': "bt_n nd' = (if nul_index nd < bt_n nd then bt_n nd else bt_n nd + 1)"
    and s: "s = ins_slot (key_index nd k) (nul_index nd)"
    using sh(6) None assms(4) leaf_add_new [of k nd] leaf_get_index [of nd k]
    by (auto simp: ins_n_def)
  have "\<not> isnand64 (bt_key nd' ! j)" if "j < bt_n nd'" for j
  proof (cases "j = s")
    case False
    then have "ins_src (key_index nd k) (nul_index nd) j < bt_n nd"
      using ins_src_less [of "key_index nd k" "bt_n nd" "nul_index nd" j] b(1,2) that n' s by simp
    then show ?thesis
      using sl(4) [OF that False] leaf_okD(4,6) [OF assms(1)] by simp
  qed (use sl(1) assms(3) in simp)
  moreover have "isnand64 (bt_key nd' ! j)" if "bt_n nd' \<le> j" "j < 64" for j
    using sl(5) [OF that] that n' leaf_okD(6) [OF assms(1), of j] by (auto split: if_splits)
  ultimately have "isnand64 (bt_key nd' ! j) \<longleftrightarrow> bt_n nd' \<le> j" if "j < 64" for j
    using that not_le by blast
  then show ?thesis
    using sh(1,2,4,5,6) b(3) leaf_okD(1) [OF assms(1)] None
      leaf_add_ordered [OF assms(1,2) None assms(3,4)]
    by (simp add: leaf_ok_def)
next
  case (Some i)
  then show ?thesis
    using assms(1,4) leaf_add_found [of k nd] leaf_get_index [of nd k] by (auto simp: leaf_ok_def)
qed

subsection \<open>The price levels of a leaf\<close>

text \<open>The level at a price, if it has a quantity; and \<open>leaf_put\<close>, a put followed by the client's store.\<close>

definition leaf_level :: "btree_s \<Rightarrow> d64 \<Rightarrow> btree_val option" where
  "leaf_level nd k =
     (case leaf_get nd k of None \<Rightarrow> None | Some i \<Rightarrow> if live nd i then Some (leaf_val nd i) else None)"

definition leaf_put :: "btree_s \<Rightarrow> d64 \<Rightarrow> btree_val \<Rightarrow> btree_s" where
  "leaf_put nd k v =
     (case leaf_add nd k of (nd', s, _) \<Rightarrow> nd'\<lparr>bt_val := (bt_val nd')[s := UV v]\<rparr>)"

definition nonnil :: "btree_val \<Rightarrow> btree_val option" where
  "nonnil v = (if btree_val_nil_p v then None else Some v)"

lemma leaf_level_iff:
  assumes "leaf_ok nd"
  shows "leaf_level nd k = Some v \<longleftrightarrow>
    (\<exists>i < bt_n nd. deq k (bt_key nd ! i) \<and> live nd i \<and> leaf_val nd i = v)"
proof (cases "leaf_get nd k")
  case None
  then have "\<forall>i < bt_n nd. \<not> deq k (bt_key nd ! i)" using leaf_get_None [OF assms] by blast
  with None show ?thesis unfolding leaf_level_def by auto
next
  case (Some i)
  then have i: "i < bt_n nd" "deq k (bt_key nd ! i)" using leaf_get_Some [OF assms] by auto
  have "\<forall>j < bt_n nd. deq k (bt_key nd ! j) \<longrightarrow> j = i"
    using Some leaf_get_Some [OF assms, of k] by (metis option.inject)
  with i have "(\<exists>j < bt_n nd. deq k (bt_key nd ! j) \<and> live nd j \<and> leaf_val nd j = v) \<longleftrightarrow>
      live nd i \<and> leaf_val nd i = v" by blast
  with Some show ?thesis by (simp add: leaf_level_def)
qed

lemma leaf_put_leaf_ok:
  assumes "leaf_ok nd" "leaf_room nd k" "\<not> isnand64 k"
  shows "leaf_ok (leaf_put nd k v)"
proof -
  obtain nd' s sp where add: "leaf_add nd k = (nd', s, sp)" by (rule prod_cases3)
  then show ?thesis
    using leaf_add_leaf_ok [OF assms add] by (simp add: leaf_put_def leaf_ok_def)
qed

lemma leaf_put_slots:
  assumes ok: "leaf_ok nd" and room: "leaf_room nd k" and k: "\<not> isnand64 k"
  obtains s where "s < bt_n (leaf_put nd k v)" "deq k (bt_key (leaf_put nd k v) ! s)"
    "leaf_val (leaf_put nd k v) s = v"
    "\<And>w k'. \<not> deq k k' \<Longrightarrow>
      (\<exists>j < bt_n (leaf_put nd k v). deq k' (bt_key (leaf_put nd k v) ! j) \<and>
          live (leaf_put nd k v) j \<and> leaf_val (leaf_put nd k v) j = w) \<longleftrightarrow>
      (\<exists>j < bt_n nd. deq k' (bt_key nd ! j) \<and> live nd j \<and> leaf_val nd j = w)"
proof (cases "leaf_get nd k")
  case (Some i)
  then have i: "i < bt_n nd" "deq k (bt_key nd ! i)" using leaf_get_Some [OF ok] by auto
  then have p: "leaf_put nd k v = nd\<lparr>bt_used := bt_used nd OR bit1 i, bt_val := (bt_val nd)[i := UV v]\<rparr>"
    using key_index_eq [OF ok] leaf_add_found [of k nd] by (simp add: leaf_put_def)
  have ne: "j \<noteq> i" if "\<not> deq k k'" "deq k' (bt_key nd ! j)" for k' j
    using that i(2) px.eq_trans px.eq_sym by blast
  show thesis
  proof (rule that [of i], goal_cases)
    case (4 w k')
    then show ?case using ne by (simp add: p) (metis nth_list_update_neq)
  qed (use i leaf_okD(3,4) [OF ok] in \<open>simp_all add: p\<close>)
next
  case None
  obtain nd' s sp where add: "leaf_add nd k = (nd', s, sp)" by (rule prod_cases3)
  let ?i = "key_index nd k" and ?m = "nul_index nd"
  note sl = leaf_add_slots [OF ok room None add] and sh = leaf_add_shape [OF ok room add]
  have s: "s = ins_slot ?i ?m" and n': "bt_n nd' = (if ?m < bt_n nd then bt_n nd else bt_n nd + 1)"
    using add None leaf_add_new [of k nd] leaf_get_index [of nd k] by (auto simp: ins_n_def)
  note b = ins_bounds [OF ok room None]
  have p: "leaf_put nd k v = nd'\<lparr>bt_val := (bt_val nd')[s := UV v]\<rparr>"
    by (simp add: leaf_put_def add)
  have len: "s < 64" using sl(3) sh(6) b(3) None by simp
  have fwd: "\<exists>m < bt_n nd. bt_key nd' ! j = bt_key nd ! m \<and> bt_val nd' ! j = bt_val nd ! m"
    if "j < bt_n nd'" "j \<noteq> s" for j
    using sl(4) [OF that] ins_src_less [of ?i "bt_n nd" ?m j] b(1,2) that n' s by auto
  have bwd: "\<exists>j < bt_n nd'. j \<noteq> s \<and> bt_key nd' ! j = bt_key nd ! m \<and> bt_val nd' ! j = bt_val nd ! m"
    if "m < bt_n nd" "live nd m" for m
    using ins_src_onto [OF b(1,2) that(1) live_not_nul [OF that]] sl(4) n' s by metis
  show thesis
  proof (rule that [of s], goal_cases)
    case (4 w k')
    have "(\<exists>j < bt_n nd'. deq k' (bt_key nd' ! j) \<and> live (leaf_put nd k v) j \<and>
            leaf_val (leaf_put nd k v) j = w) \<longleftrightarrow>
          (\<exists>j < bt_n nd'. j \<noteq> s \<and> deq k' (bt_key nd' ! j) \<and> live nd' j \<and> leaf_val nd' j = w)"
      using 4 sl(1) px.eq_sym by (simp add: p) (metis nth_list_update_neq)
    also have "\<dots> \<longleftrightarrow> (\<exists>j < bt_n nd. deq k' (bt_key nd ! j) \<and> live nd j \<and> leaf_val nd j = w)"
      using fwd bwd by metis
    finally show ?case by (simp add: p)
  qed (use sl(1,3) k sh(5) len in \<open>simp_all add: p\<close>)
qed

lemma leaf_put_level:
  assumes "leaf_ok nd" "leaf_room nd k" "\<not> isnand64 k" "\<not> isnand64 k'"
  shows "leaf_level (leaf_put nd k v) k' = (if deq k k' then nonnil v else leaf_level nd k')"
proof -
  obtain s where s: "s < bt_n (leaf_put nd k v)" "deq k (bt_key (leaf_put nd k v) ! s)"
    "leaf_val (leaf_put nd k v) s = v"
    and other: "\<And>w k'. \<not> deq k k' \<Longrightarrow>
      (\<exists>j < bt_n (leaf_put nd k v). deq k' (bt_key (leaf_put nd k v) ! j) \<and>
          live (leaf_put nd k v) j \<and> leaf_val (leaf_put nd k v) j = w) \<longleftrightarrow>
      (\<exists>j < bt_n nd. deq k' (bt_key nd ! j) \<and> live nd j \<and> leaf_val nd j = w)"
    using leaf_put_slots [OF assms(1-3)] by blast
  note ok' = leaf_put_leaf_ok [OF assms(1-3)]
  show ?thesis
  proof (cases "deq k k'")
    case True
    then have "leaf_get (leaf_put nd k v) k' = Some s"
      using leaf_get_Some [OF ok'] s px.eq_trans px.eq_sym by blast
    with True s(3) show ?thesis by (simp add: leaf_level_def nonnil_def)
  next
    case False
    then have "leaf_level (leaf_put nd k v) k' = Some w \<longleftrightarrow> leaf_level nd k' = Some w" for w
      using other leaf_level_iff [OF ok'] leaf_level_iff [OF assms(1)] by simp
    with False show ?thesis by (metis not_None_eq)
  qed
qed

subsection \<open>The marks of a leaf\<close>

text \<open>What the iterator relies on: every level with a quantity is marked, nothing past the end is.\<close>

definition marks_ok :: "btree_s \<Rightarrow> bool" where
  "marks_ok nd \<longleftrightarrow>
     (\<forall>i < bt_n nd. live nd i \<longrightarrow> bit (bt_used nd) i) \<and> (\<forall>i < 64. bt_n nd \<le> i \<longrightarrow> \<not> bit (bt_used nd) i)"

lemma new_btree_marks_ok: "marks_ok (new_btree descp)"
  by (simp add: marks_ok_def new_btree_def)

lemma bit_times_2_word: "bit ((x::64 word) * 2) j \<longleftrightarrow> 0 < j \<and> j < 64 \<and> bit x (j - 1)"
  using bit_push_bit_iff [of 1 x j] by (auto simp: push_bit_eq_mult bit_simps)

lemma bit_move_marks_right:
  "i < nul \<Longrightarrow> nul < 64 \<Longrightarrow> j < 64 \<Longrightarrow>
   bit (move_marks u i nul) j =
     (if j = i then False else if i < j \<and> j < nul then bit u (j - 1)
      else if j = nul then bit u nul \<noteq> bit u (nul - 1) else bit u j)"
  by (auto simp: move_marks_def Let_def bit_xor_iff bit_and_iff bit_push_bit_iff bit_drop_bit_eq
      bit_times_2_word)

lemma bit_move_marks_left:
  "nul < i \<Longrightarrow> i < 64 \<Longrightarrow> j < 64 \<Longrightarrow>
   bit (move_marks u i nul) j =
     (if nul \<le> j \<and> j + 1 < i then bit u (j + 1) else if j = i - 1 then False
      else if nul = j + 1 then bit u j \<noteq> bit u nul else bit u j)"
  by (auto simp: move_marks_def Let_def bit_xor_iff bit_and_iff bit_push_bit_iff bit_drop_bit_eq)

text \<open>
  A slot that is recycled must not be marked any more: its mark would be moved onto, and would
  cancel, the mark of a neighbouring level.
\<close>

lemma bit_move_marks:
  assumes "i < 64" "nul < 64" "\<not> bit u nul" "j < 64" "j \<noteq> ins_slot i nul"
  shows "bit (move_marks u i nul) j = bit u (ins_src i nul j)"
proof -
  consider "i < nul" | "nul < i" | "i = nul" by linarith
  then show ?thesis
  proof cases
    case 1
    with assms show ?thesis by (auto simp: bit_move_marks_right ins_src_def ins_slot_def)
  next
    case 2
    with assms show ?thesis by (auto simp: bit_move_marks_left ins_src_def ins_slot_def)
  next
    case 3
    with assms show ?thesis by (auto simp: move_marks_def ins_src_def ins_slot_def)
  qed
qed

lemma leaf_put_marks_new:
  assumes "leaf_ok nd" "leaf_room nd k" "leaf_get nd k = None"
  shows "bt_used (leaf_put nd k v) =
      move_marks (bt_used nd) (key_index nd k) (nul_index nd) OR
      bit1 (ins_slot (key_index nd k) (nul_index nd))"
    and "bt_n (leaf_put nd k v) = ins_n nd"
    and "j < ins_n nd \<Longrightarrow> j \<noteq> ins_slot (key_index nd k) (nul_index nd) \<Longrightarrow>
      leaf_val (leaf_put nd k v) j = leaf_val nd (ins_src (key_index nd k) (nul_index nd) j)"
  using leaf_add_new [of k nd] leaf_get_index [of nd k] assms(3) ins_bounds [OF assms]
    leaf_okD(3) [OF assms(1)]
  by (auto simp: leaf_put_def nth_list_update nth_ins_arr length_ins_arr)

lemma leaf_put_marks_ok:
  assumes ok: "leaf_ok nd" and room: "leaf_room nd k" and marks: "marks_ok nd"
    and unmarked: "leaf_get nd k = None \<Longrightarrow> \<not> bit (bt_used nd) (nul_index nd)"
  shows "marks_ok (leaf_put nd k v)"
proof (cases "leaf_get nd k")
  case (Some i)
  then have i: "i < bt_n nd" "key_index nd k = i" "deq k (bt_key nd ! i)"
    using leaf_get_Some [OF ok] key_index_eq [OF ok] by blast+
  then have "leaf_put nd k v = nd\<lparr>bt_used := bt_used nd OR bit1 i, bt_val := (bt_val nd)[i := UV v]\<rparr>"
    using leaf_add_found [of k nd] by (simp add: leaf_put_def)
  then show ?thesis
    using i(1) marks leaf_okD(3,4) [OF ok] by (auto simp: marks_ok_def nth_list_update bit_or_iff)
next
  case None
  let ?i = "key_index nd k" and ?m = "nul_index nd"
  note b = ins_bounds [OF ok room None] and p = leaf_put_marks_new [OF ok room None]
  have mv: "bit (move_marks (bt_used nd) ?i ?m) j = bit (bt_used nd) (ins_src ?i ?m j)"
    if "j < 64" "j \<noteq> ins_slot ?i ?m" for j
    using bit_move_marks [OF b(4,5) unmarked [OF None] that] .
  have "bit (bt_used (leaf_put nd k v)) j" if "j < ins_n nd" "live (leaf_put nd k v) j" for j
  proof (cases "j = ins_slot ?i ?m")
    case False
    then have "ins_src ?i ?m j < bt_n nd"
      using ins_src_less [of ?i "bt_n nd" ?m j] b(1,2) that(1) by (simp add: ins_n_def)
    then show ?thesis
      using that False p(3) [OF that(1) False, of v] mv [of j] marks b(3)
      by (simp add: p(1) bit_or_iff marks_ok_def)
  qed (use that b in \<open>auto simp: p(1) bit_or_iff\<close>)
  moreover have "\<not> bit (bt_used (leaf_put nd k v)) j" if "ins_n nd \<le> j" "j < 64" for j
  proof -
    have "j \<noteq> ins_slot ?i ?m" "ins_src ?i ?m j = j" "bt_n nd \<le> j"
      using that b(1,2) by (auto simp: ins_slot_def ins_src_def ins_n_def split: if_splits)
    then show ?thesis using mv [of j] marks that by (simp add: p(1) bit_or_iff marks_ok_def)
  qed
  ultimately show ?thesis by (simp add: marks_ok_def p(2))
qed

text \<open>
  Conversely, recycling a slot that still is marked, other than the very first one and other than
  in place, takes the mark off the level in front of that slot, which has a quantity.
\<close>

lemma leaf_put_unmarks:
  assumes ok: "leaf_ok nd" and room: "leaf_room nd k" and marks: "marks_ok nd"
    and new: "leaf_get nd k = None" and marked: "bit (bt_used nd) (nul_index nd)"
    and moved: "nul_index nd \<noteq> key_index nd k" "nul_index nd \<noteq> 0"
  obtains j where "j < bt_n (leaf_put nd k v)" "\<not> bit (bt_used (leaf_put nd k v)) j"
    "bt_key (leaf_put nd k v) ! j = bt_key nd ! (nul_index nd - 1)"
    "nul_index nd < bt_n nd" "live nd (nul_index nd - 1)"
    "\<not> deq k (bt_key nd ! (nul_index nd - 1))"
proof -
  let ?i = "key_index nd k" and ?m = "nul_index nd"
  note b = ins_bounds [OF ok room new] and p = leaf_put_marks_new [OF ok room new]
  obtain nd' s sp where add: "leaf_add nd k = (nd', s, sp)" by (rule prod_cases3)
  note sl = leaf_add_slots [OF ok room new add]
  have s: "s = ins_slot ?i ?m"
    using add new leaf_add_new [of k nd] leaf_get_index [of nd k] by auto
  have m: "?m < bt_n nd" using marked marks b(2,5) by (auto simp: marks_ok_def not_le [symmetric])
  then have n': "ins_n nd = bt_n nd" by (simp add: ins_n_def)
  have lv: "live nd (?m - 1)" using moved(2) scan_while_all [of 0 "?m - 1" "live nd" "bt_n nd"]
    by (simp add: nul_index_def)
  then have mk: "bit (bt_used nd) (?m - 1)" using marks m by (auto simp: marks_ok_def)
  have key: "bt_key (leaf_put nd k v) ! j = bt_key nd ! ins_src ?i ?m j" if "j < bt_n nd" "j \<noteq> ins_slot ?i ?m" for j
    using sl(4) [of j] that p(2) [of v] n' s by (simp add: leaf_put_def add)
  have ne: "\<not> deq k (bt_key nd ! (?m - 1))" using leaf_get_None [OF ok] new m by simp
  show thesis
  proof (cases "?i < ?m")
    case True
    have src: "?m \<noteq> ins_slot ?i ?m" "ins_src ?i ?m ?m = ?m - 1" using True
      by (auto simp: ins_slot_def ins_src_def)
    moreover have "\<not> bit (move_marks (bt_used nd) ?i ?m) ?m"
      using bit_move_marks_right [OF True b(5,5)] True marked mk by simp
    ultimately show thesis
      using m n' lv ne key [OF m] by (intro that [of ?m]) (simp_all add: p(1,2) bit_or_iff)
  next
    case False
    with moved have lt: "?m < ?i" by simp
    have "?m - 1 \<noteq> ins_slot ?i ?m" "ins_src ?i ?m (?m - 1) = ?m - 1" using lt moved(2)
      by (auto simp: ins_slot_def ins_src_def)
    moreover have "\<not> bit (move_marks (bt_used nd) ?i ?m) (?m - 1)"
      using bit_move_marks_left [OF lt b(4), of "?m - 1"] b(5) lt marked mk moved(2) by auto
    ultimately show thesis
      using m n' lv ne key [of "?m - 1"] by (intro that [of "?m - 1"]) (simp_all add: p(1,2) bit_or_iff)
  qed
qed

subsection \<open>Evaluating the invariants, and sample leaves\<close>

lemma leaf_ok_code [code]:
  "leaf_ok nd \<longleftrightarrow> \<not> bt_innerp nd \<and> length (bt_key nd) = 64 \<and> length (bt_val nd) = 64 \<and> bt_n nd \<le> 63 \<and>
     sorted_wrt (kbefore (bt_descp nd)) (take (bt_n nd) (bt_key nd)) \<and>
     list_all (\<lambda>(i, k). isnand64 k \<longleftrightarrow> bt_n nd \<le> i) (enumerate 0 (bt_key nd))"
  by (cases "length (bt_key nd) = 64")
    (auto simp: leaf_ok_def sorted_wrt_iff_nth_less list_all_length nth_enumerate_eq)

lemma marks_ok_code [code]:
  "marks_ok nd \<longleftrightarrow>
     list_all (\<lambda>i. if i < bt_n nd then live nd i \<longrightarrow> bit (bt_used nd) i else \<not> bit (bt_used nd) i)
       [0..<max 64 (bt_n nd)]"
  by (auto simp: marks_ok_def list_all_iff less_max_iff_disj dest: bit_imp_le_length)

definition sample_val :: "int \<Rightarrow> btree_val" where
  "sample_val c = \<lparr>val_q = dd c 0, val_t = 1\<rparr>"

text \<open>Two levels on the ask side.\<close>

definition sample_leaf :: btree_s where
  "sample_leaf = (new_btree False)\<lparr>bt_n := 2, bt_used := 3,
     bt_key := (bt_key (new_btree False))[0 := dd 100 0, 1 := dd 101 0],
     bt_val := (bt_val (new_btree False))[0 := UV (sample_val 5), 1 := UV (sample_val 7)]\<rparr>"

lemma sample_leaf_eval:
  "let nd = sample_leaf; k = dd 1005 (- 1) in leaf_ok nd \<and> leaf_room nd k \<and> marks_ok nd \<and>
     \<not> bit (bt_used nd) (nul_index nd)"
  by code_simp

lemma sample_leaf_facts:
  "leaf_ok sample_leaf" "leaf_room sample_leaf (dd 1005 (- 1))" "marks_ok sample_leaf"
  "\<not> bit (bt_used sample_leaf) (nul_index sample_leaf)"
  "\<not> isnand64 (dd 1005 (- 1))" "\<not> isnand64 (dd 101 0)"
  using sample_leaf_eval by (simp_all add: Let_def isnand64_def dec_of_dd)

subsection \<open>Properties\<close>





end
