(* ===== verification/Btree_Iter.thy ===== *)
theory Btree_Iter
  imports Btree_Leaf
begin

text \<open>
  Walking a tree: the chain of its leaves, the levels the iterator shows, and the laws of
  \<open>btree_iter_next\<close>, \<open>btree_clr\<close> and \<open>btree_top\<close> on such a chain. The iterator's only effect on the
  nodes is that it takes marks off slots without a quantity.
\<close>

lemma deref_store [heap_simps]:
  "a < length h \<Longrightarrow> deref (store h a nd) b = (if b = a then Some nd else deref h b)"
  by (simp add: deref_def store_def nth_list_update)

lemma deref_Some_lt: "deref h a = Some nd \<Longrightarrow> a < length h"
  by (simp add: deref_def split: if_splits)

lemma length_store [simp]: "length (store h a nd) = length h"
  by (simp add: store_def)

subsection \<open>Scanning one leaf\<close>

definition vis :: "btree_s \<Rightarrow> nat \<Rightarrow> bool" where
  "vis nd j \<longleftrightarrow> bit (bt_used nd) j \<and> live nd j"

definition leaf_levels :: "btree_s \<Rightarrow> nat \<Rightarrow> nat \<Rightarrow> (d64 \<times> btree_val) list" where
  "leaf_levels nd i m = map (\<lambda>j. (bt_key nd ! j, leaf_val nd j)) (filter (vis nd) [i..<m])"

text \<open>Nodes that differ only in marks of slots without a quantity.\<close>

definition same_marks :: "btree_s \<Rightarrow> btree_s \<Rightarrow> bool" where
  "same_marks nd nd' \<longleftrightarrow> (\<exists>u. nd' = nd\<lparr>bt_used := u\<rparr> \<and>
     (\<forall>j. bit u j \<longrightarrow> bit (bt_used nd) j) \<and> (\<forall>j. live nd j \<longrightarrow> bit u j = bit (bt_used nd) j))"

lemma same_marks_refl [simp]: "same_marks nd nd"
  unfolding same_marks_def by (rule exI [of _ "bt_used nd"]) simp

lemma same_marks_trans:
  assumes "same_marks a b" "same_marks b c"
  shows "same_marks a c"
proof -
  obtain u where u: "b = a\<lparr>bt_used := u\<rparr>" "\<And>j. bit u j \<Longrightarrow> bit (bt_used a) j"
    "\<And>j. live a j \<Longrightarrow> bit u j = bit (bt_used a) j"
    using assms(1) unfolding same_marks_def by blast
  obtain w where w: "c = b\<lparr>bt_used := w\<rparr>" "\<And>j. bit w j \<Longrightarrow> bit (bt_used b) j"
    "\<And>j. live b j \<Longrightarrow> bit w j = bit (bt_used b) j"
    using assms(2) unfolding same_marks_def by blast
  show ?thesis unfolding same_marks_def
    using u(2,3) w(2,3) by (intro exI [of _ w]) (simp add: u(1) w(1))
qed

lemma same_marksD:
  assumes "same_marks nd nd'"
  shows "bt_n nd' = bt_n nd" "bt_innerp nd' = bt_innerp nd" "bt_next nd' = bt_next nd"
    "bt_key nd' = bt_key nd" "bt_val nd' = bt_val nd" "bt_descp nd' = bt_descp nd"
    "vis nd' = vis nd" "leaf_levels nd' = leaf_levels nd" "leaf_ok nd' = leaf_ok nd"
proof -
  obtain u where u: "nd' = nd\<lparr>bt_used := u\<rparr>" "\<forall>j. live nd j \<longrightarrow> bit u j = bit (bt_used nd) j"
    using assms unfolding same_marks_def by blast
  then show "bt_n nd' = bt_n nd" "bt_innerp nd' = bt_innerp nd" "bt_next nd' = bt_next nd"
    "bt_key nd' = bt_key nd" "bt_val nd' = bt_val nd" "bt_descp nd' = bt_descp nd"
    "vis nd' = vis nd"
    by (auto simp: vis_def fun_eq_iff)
  then show "leaf_levels nd' = leaf_levels nd" "leaf_ok nd' = leaf_ok nd"
    by (intro ext, simp add: leaf_levels_def, simp add: leaf_ok_def)
qed

lemma ctzll_stop: "ctzll u < 64 \<Longrightarrow> bit u (ctzll u)"
  unfolding ctzll_def using scan_while_stop [of "\<lambda>i. \<not> bit u i" 0 64] by blast

lemma ctzll_below: "j < ctzll u \<Longrightarrow> \<not> bit u j"
  unfolding ctzll_def by (rule scan_while_all [of 0 j "\<lambda>i. \<not> bit u i" 64]) auto

lemma ctzll_le: "ctzll u \<le> 64"
  unfolding ctzll_def by (rule scan_while_le) simp

text \<open>The first visible slot from \<open>b\<close> on, for the marks \<open>w\<close> the scan started with.\<close>

lemma iter_scan_spec:
  assumes "bt_n nd \<le> 64" "u = drop_bit b w" "sh = ctzll u" "i = b + sh"
    and "\<And>j. b \<le> j \<Longrightarrow> bit w j = bit (bt_used nd) j"
  shows "\<exists>nd'. iter_scan nd u sh i =
      (nd', let j = scan_while (\<lambda>j. \<not> vis nd j) b (bt_n nd) in if j < bt_n nd then Some j else None) \<and>
      same_marks nd nd'"
  using assms
proof (induction nd u sh i arbitrary: b rule: iter_scan.induct)
  case (1 nd u sh i)
  have below: "\<not> bit w j" if "b \<le> j" "j < i" for j
    using that "1.prems"(2-4) ctzll_below [of "j - b" u] by (simp add: bit_drop_bit_eq)
  show ?case
  proof (cases "i < bt_n nd")
    case False
    then have "\<not> vis nd j" if "b \<le> j" "j < bt_n nd" for j
      using below that "1.prems"(5) by (simp add: vis_def)
    then have "\<not> scan_while (\<lambda>j. \<not> vis nd j) b (bt_n nd) < bt_n nd"
      using scan_while_stop [of "\<lambda>j. \<not> vis nd j"] scan_while_ge by blast
    then show ?thesis using False by (simp add: iter_scan.simps Let_def)
  next
    case True
    then have "sh < 64" using "1.prems"(1,4) by simp
    then have mk: "bit (bt_used nd) i"
      using ctzll_stop [of u] "1.prems"(2-5) by (simp add: bit_drop_bit_eq)
    have bi: "b \<le> i" using "1.prems"(4) by simp
    show ?thesis
    proof (cases "live nd i")
      case live: True
      have "scan_while (\<lambda>j. \<not> vis nd j) b (bt_n nd) = i"
        using True bi mk live below "1.prems"(5) by (intro scan_while_eqI) (auto simp: vis_def)
      then show ?thesis using True live by (simp add: iter_scan.simps Let_def)
    next
      case nil: False
      let ?nd = "nd\<lparr>bt_used := (bt_used nd OR bit1 i) XOR bit1 i\<rparr>"
      have bits: "bit (bt_used ?nd) j \<longleftrightarrow> bit (bt_used nd) j \<and> j \<noteq> i" for j
        using \<open>sh < 64\<close> True "1.prems"(1) by (auto simp: bit_or_iff bit_xor_iff)
      have same: "same_marks nd ?nd"
        unfolding same_marks_def
        using nil bits by (intro exI [of _ "(bt_used nd OR bit1 i) XOR bit1 i"]) auto
      have "drop_bit (sh + 1) u = drop_bit (i + 1) w"
        using "1.prems"(2,4) by (simp add: drop_bit_drop_bit add.commute add.left_commute del: drop_bit_Suc)
      moreover have "bit w j = bit (bt_used ?nd) j" if "i + 1 \<le> j" for j
        using that bits "1.prems"(5) bi by simp
      ultimately obtain nd' where nd': "iter_scan ?nd (drop_bit (sh + 1) u) (ctzll (drop_bit (sh + 1) u))
          (i + (ctzll (drop_bit (sh + 1) u) + 1)) =
          (nd', let j = scan_while (\<lambda>j. \<not> vis ?nd j) (i + 1) (bt_n ?nd)
                in if j < bt_n ?nd then Some j else None)" "same_marks ?nd nd'"
        using "1.IH" [OF True _ refl refl refl, of "i + 1"] nil "1.prems"(1) by auto
      have "scan_while (\<lambda>j. \<not> vis nd j) b (bt_n nd) = scan_while (\<lambda>j. \<not> vis nd j) (i + 1) (bt_n nd)"
      proof (rule scan_while_eqI)
        show "b \<le> scan_while (\<lambda>j. \<not> vis nd j) (i + 1) (bt_n nd)"
          using bi scan_while_ge [of "i + 1"] by (meson le_trans trans_le_add1)
        show "scan_while (\<lambda>j. \<not> vis nd j) (i + 1) (bt_n nd) \<le> bt_n nd"
          using True by (intro scan_while_le) simp
        show "\<not> vis nd j" if "b \<le> j" "j < scan_while (\<lambda>j. \<not> vis nd j) (i + 1) (bt_n nd)" for j
        proof (cases "i + 1 \<le> j")
          case True
          then show ?thesis using that(2) scan_while_all [of "i + 1" j "\<lambda>j. \<not> vis nd j"] by blast
        next
          case False
          then show ?thesis
            using that(1) below [of j] "1.prems"(5) nil by (cases "j = i") (auto simp: vis_def)
        qed
      qed (rule scan_while_stop)
      then show ?thesis
        using nd' True nil same_marksD(7) [OF same] same_marks_trans [OF same]
        by (auto simp: iter_scan.simps [of nd] Let_def)
    qed
  qed
qed

subsection \<open>Chains of leaves\<close>

primrec leaf_chain :: "heap \<Rightarrow> btree_t option \<Rightarrow> btree_t list \<Rightarrow> bool" where
  "leaf_chain h p [] \<longleftrightarrow> p = None"
| "leaf_chain h p (t # ts) \<longleftrightarrow> p = Some t \<and>
     (case deref h t of None \<Rightarrow> False | Some nd \<Rightarrow> leaf_ok nd \<and> leaf_chain h (bt_next nd) ts)"

definition leaf_levels_at :: "heap \<Rightarrow> btree_t \<Rightarrow> (d64 \<times> btree_val) list" where
  "leaf_levels_at h t =
     (case deref h t of None \<Rightarrow> [] | Some nd \<Rightarrow> leaf_levels nd 0 (bt_n nd))"

definition chain_levels :: "heap \<Rightarrow> btree_t list \<Rightarrow> (d64 \<times> btree_val) list" where
  "chain_levels h ts = concat (map (leaf_levels_at h) ts)"

text \<open>\<open>holds h t xs\<close>: the tree at \<open>t\<close> has a chain of leaves, in which the iterator sees the levels \<open>xs\<close>.\<close>

definition leaves :: "heap \<Rightarrow> btree_t \<Rightarrow> btree_t list \<Rightarrow> bool" where
  "leaves h t ts \<longleftrightarrow> (case first_leaf h t of None \<Rightarrow> False | Some l \<Rightarrow> leaf_chain h (Some l) ts)"

definition holds :: "heap \<Rightarrow> btree_t \<Rightarrow> (d64 \<times> btree_val) list \<Rightarrow> bool" where
  "holds h t xs \<longleftrightarrow> (\<exists>ts. leaves h t ts \<and> xs = chain_levels h ts)"

lemma chain_levels_simps [simp]:
  "chain_levels h [] = []"
  "chain_levels h (t # ts) = leaf_levels_at h t @ chain_levels h ts"
  "chain_levels h (ts @ us) = chain_levels h ts @ chain_levels h us"
  by (simp_all add: chain_levels_def)

lemma leaf_levels_split:
  "i \<le> j \<Longrightarrow> j \<le> m \<Longrightarrow> leaf_levels nd i m = leaf_levels nd i j @ leaf_levels nd j m"
  using upt_add_eq_append [of i j "m - j"] by (simp add: leaf_levels_def)

lemma leaf_levels_empty [simp]: "leaf_levels nd i i = []"
  by (simp add: leaf_levels_def)

lemma leaf_levels_step:
  "j < m \<Longrightarrow> vis nd j \<Longrightarrow>
   leaf_levels nd j m = (bt_key nd ! j, leaf_val nd j) # leaf_levels nd (Suc j) m"
  by (simp add: leaf_levels_def upt_conv_Cons)

lemma leaf_levels_Nil: "leaf_levels nd i m = [] \<longleftrightarrow> (\<forall>j. i \<le> j \<longrightarrow> j < m \<longrightarrow> \<not> vis nd j)"
  by (auto simp: leaf_levels_def filter_empty_conv)

lemma leaf_chain_Cons [simp]:
  "leaf_chain h p (t # ts) \<longleftrightarrow>
   p = Some t \<and> (\<exists>nd. deref h t = Some nd \<and> leaf_ok nd \<and> leaf_chain h (bt_next nd) ts)"
  by (auto split: option.splits)

declare leaf_chain.simps(2) [simp del]

lemma leaf_chain_append:
  "leaf_chain h p (us @ c # vs) \<Longrightarrow> leaf_chain h (Some c) (c # vs)"
  by (induction us arbitrary: p) auto

lemma leaf_chain_det: "leaf_chain h p ts \<Longrightarrow> leaf_chain h p us \<Longrightarrow> ts = us"
proof (induction ts arbitrary: p us)
  case (Cons t ts)
  then show ?case by (cases us) auto
next
  case Nil
  then show ?case by (cases us) auto
qed

lemma leaf_chain_distinct: "leaf_chain h p ts \<Longrightarrow> distinct ts"
proof (induction ts arbitrary: p)
  case (Cons t ts)
  have "t \<notin> set ts"
  proof
    assume "t \<in> set ts"
    then obtain us vs where "ts = us @ t # vs" by (meson split_list)
    moreover from this have "leaf_chain h (Some t) (t # vs)"
      using leaf_chain_append [of h p "t # us" t vs] Cons.prems by simp
    moreover have "leaf_chain h (Some t) (t # ts)" using Cons.prems by simp
    ultimately show False using leaf_chain_det [of h "Some t" "t # vs" "t # ts"] by auto
  qed
  then show ?case using Cons by auto
qed simp

lemma leaf_chain_store:
  assumes "deref h c = Some nd" "leaf_ok nd'" "bt_next nd' = bt_next nd"
  shows "leaf_chain h p ts \<Longrightarrow> leaf_chain (store h c nd') p ts"
  using assms deref_Some_lt [OF assms(1)]
  by (induction ts arbitrary: p) (auto simp: heap_simps)

lemma chain_levels_store:
  assumes "deref h c = Some nd" "c \<notin> set ts"
  shows "chain_levels (store h c nd') ts = chain_levels h ts"
  using assms deref_Some_lt [OF assms(1)]
  by (induction ts) (auto simp: leaf_levels_at_def heap_simps)

lemma first_leaf_leaf: "deref h t = Some nd \<Longrightarrow> \<not> bt_innerp nd \<Longrightarrow> first_leaf h t = Some t"
  by (subst first_leaf.simps) simp

text \<open>The descent to the first leaf only depends on the inner nodes.\<close>

definition same_twigs :: "heap \<Rightarrow> heap \<Rightarrow> bool" where
  "same_twigs h h' \<longleftrightarrow> (\<forall>a nd. deref h a = Some nd \<longrightarrow>
     (\<exists>nd'. deref h' a = Some nd' \<and> bt_innerp nd' = bt_innerp nd \<and>
        (bt_innerp nd \<longrightarrow> bt_val nd' = bt_val nd)))"

lemma first_leaf_sim:
  assumes "same_twigs h h'" "first_leaf h t = Some l"
  shows "first_leaf h' t = Some l"
proof -
  have "same_twigs h h' \<longrightarrow> first_leaf h' t = Some l" if "first_leaf h t = Some l" for h t l
    using that
  proof (rule first_leaf.raw_induct [rotated, of h t l])
    fix f h t l
    assume IH: "\<And>h t l. f h t = Some l \<Longrightarrow> same_twigs h h' \<longrightarrow> first_leaf h' t = Some l"
      and "deref h t \<bind> (\<lambda>n. if bt_innerp n then f h (ual_t (bt_val n ! 0)) else Some t) = Some l"
    then obtain n where n: "deref h t = Some n"
      "(if bt_innerp n then f h (ual_t (bt_val n ! 0)) else Some t) = Some l"
      by (auto simp: bind_eq_Some_conv)
    show "same_twigs h h' \<longrightarrow> first_leaf h' t = Some l"
    proof
      assume same: "same_twigs h h'"
      then obtain n' where "deref h' t = Some n'" "bt_innerp n' = bt_innerp n"
        "bt_innerp n \<longrightarrow> bt_val n' = bt_val n"
        using n(1) by (auto simp: same_twigs_def)
      then show "first_leaf h' t = Some l"
        using n(2) IH same by (subst first_leaf.simps) (auto split: if_splits)
    qed
  qed
  then show ?thesis using assms by blast
qed

lemma same_twigs_store:
  "deref h c = Some nd \<Longrightarrow> \<not> bt_innerp nd \<Longrightarrow> \<not> bt_innerp nd' \<Longrightarrow> same_twigs h (store h c nd')"
  using deref_Some_lt [of h c nd] by (auto simp: same_twigs_def heap_simps)

text \<open>Heaps that differ only in marks of slots without a quantity.\<close>

definition same_heap :: "heap \<Rightarrow> heap \<Rightarrow> bool" where
  "same_heap h h' \<longleftrightarrow> (\<forall>a nd. deref h a = Some nd \<longrightarrow>
     (\<exists>nd'. deref h' a = Some nd' \<and> same_marks nd nd'))"

lemma same_heap_refl [simp]: "same_heap h h"
  by (auto simp: same_heap_def intro: same_marks_refl)

lemma same_heapE:
  assumes "same_heap h h'" "deref h a = Some nd"
  obtains nd' where "deref h' a = Some nd'" "same_marks nd nd'"
  using assms unfolding same_heap_def by blast

lemma same_heap_trans: "same_heap h h' \<Longrightarrow> same_heap h' h'' \<Longrightarrow> same_heap h h''"
  unfolding same_heap_def using same_marks_trans by meson

lemma same_heap_store:
  "deref h a = Some nd \<Longrightarrow> same_marks nd nd' \<Longrightarrow> same_heap h (store h a nd')"
  using deref_Some_lt [of h a nd] by (auto simp: same_heap_def heap_simps)

lemma same_heap_twigs: "same_heap h h' \<Longrightarrow> same_twigs h h'"
  unfolding same_heap_def same_twigs_def using same_marksD(2,5) by metis

lemma same_heap_chain: "same_heap h h' \<Longrightarrow> leaf_chain h p ts \<Longrightarrow> leaf_chain h' p ts"
proof (induction ts arbitrary: p)
  case (Cons t ts)
  then obtain nd nd' where "deref h t = Some nd" "leaf_ok nd" "leaf_chain h (bt_next nd) ts"
    "deref h' t = Some nd'" "same_marks nd nd'" "p = Some t"
    by (auto elim: same_heapE)
  then show ?case using Cons.IH [OF Cons.prems(1)] same_marksD(3,9) by simp
qed simp

lemma leaf_chain_deref: "leaf_chain h p ts \<Longrightarrow> t \<in> set ts \<Longrightarrow> \<exists>nd. deref h t = Some nd"
  by (induction ts arbitrary: p) auto

lemma same_heap_levels:
  assumes "same_heap h h'" "leaf_chain h p ts" "set us \<subseteq> set ts"
  shows "chain_levels h' us = chain_levels h us"
  using assms(3)
proof (induction us)
  case (Cons t us)
  then obtain nd nd' where "deref h t = Some nd" "deref h' t = Some nd'" "same_marks nd nd'"
    using leaf_chain_deref [OF assms(2)] same_heapE [OF assms(1)] by (metis list.set_intros(1) subsetD)
  then show ?case using Cons same_marksD(1,8) by (simp add: leaf_levels_at_def)
qed simp

lemma same_heap_leaves: "same_heap h h' \<Longrightarrow> leaves h t ts \<Longrightarrow> leaves h' t ts"
  using first_leaf_sim [OF same_heap_twigs] same_heap_chain
  by (fastforce simp: leaves_def split: option.splits)

subsection \<open>Stepping an iterator\<close>

text \<open>The leaf the iterator stands in: either a level of it comes next or the scan goes on behind it.\<close>

lemma iter_leaves_first:
  assumes "deref h t = Some nd" "bt_n nd \<le> 64"
  obtains nd' where "same_marks nd nd'"
    "iter_leaves h t i =
       (let j = scan_while (\<lambda>j. \<not> vis nd j) i (bt_n nd) in
        if j < bt_n nd then Some (store h t nd', Some (t, j, bt_key nd ! j))
        else case bt_next nd of None \<Rightarrow> Some (store h t nd', None)
             | Some t' \<Rightarrow> iter_leaves (store h t nd') t' 0)"
proof -
  obtain nd' where "same_marks nd nd'" "iter_scan nd (drop_bit i (bt_used nd))
      (ctzll (drop_bit i (bt_used nd))) (i + ctzll (drop_bit i (bt_used nd))) =
      (nd', let j = scan_while (\<lambda>j. \<not> vis nd j) i (bt_n nd) in if j < bt_n nd then Some j else None)"
    using iter_scan_spec [OF assms(2) refl refl refl, of i "bt_used nd"] by blast
  then show ?thesis
    using that assms(1) by (simp add: iter_leaves.simps [of h t i] Let_def)
qed

lemma scan_vis_none:
  "\<not> scan_while (\<lambda>j. \<not> vis nd j) i (bt_n nd) < bt_n nd \<Longrightarrow> leaf_levels nd i (bt_n nd) = []"
  unfolding leaf_levels_Nil using scan_while_all [of i _ "\<lambda>j. \<not> vis nd j" "bt_n nd"]
  by (meson le_less_trans not_le)

lemma scan_vis_some:
  assumes "j = scan_while (\<lambda>j. \<not> vis nd j) i (bt_n nd)" "j < bt_n nd"
  shows "vis nd j" "i \<le> j" "leaf_levels nd i j = []"
  using scan_while_stop [of "\<lambda>j. \<not> vis nd j" i "bt_n nd"] scan_while_ge [of i]
    scan_while_all [of i _ "\<lambda>j. \<not> vis nd j" "bt_n nd"] assms
  by (auto simp: leaf_levels_Nil)

lemma iter_leaves_spec:
  assumes "leaf_chain h (Some t) (t # ts)" "deref h t = Some nd"
  shows "(\<exists>h'. iter_leaves h t i = Some (h', None) \<and> same_heap h h' \<and>
        leaf_levels nd i (bt_n nd) @ chain_levels h ts = []) \<or>
      (\<exists>h' us c vs nc j. iter_leaves h t i = Some (h', Some (c, j, bt_key nc ! j)) \<and>
        same_heap h h' \<and> t # ts = us @ c # vs \<and> deref h c = Some nc \<and> j < bt_n nc \<and> vis nc j \<and>
        (if us = [] then i \<le> j \<and> leaf_levels nc i j = []
         else leaf_levels nd i (bt_n nd) = [] \<and> chain_levels h (tl us) = [] \<and>
           leaf_levels nc 0 j = []))"
  using assms
proof (induction ts arbitrary: h t nd i)
  case (Nil h t nd i)
  then have ok: "bt_next nd = None" "bt_n nd \<le> 64" using leaf_okD(4) [of nd] by auto
  obtain nd' where nd': "same_marks nd nd'" "iter_leaves h t i =
       (let j = scan_while (\<lambda>j. \<not> vis nd j) i (bt_n nd) in
        if j < bt_n nd then Some (store h t nd', Some (t, j, bt_key nd ! j))
        else case bt_next nd of None \<Rightarrow> Some (store h t nd', None)
             | Some t' \<Rightarrow> iter_leaves (store h t nd') t' 0)"
    using iter_leaves_first [OF Nil.prems(2) ok(2), of i] by blast
  note same = same_heap_store [OF Nil.prems(2) nd'(1)]
  show ?case
  proof (cases "scan_while (\<lambda>j. \<not> vis nd j) i (bt_n nd) < bt_n nd")
    case True
    then show ?thesis using nd'(2) ok(1) same scan_vis_some [OF refl True] Nil.prems(2)
      by (intro disjI2 exI [of _ "store h t nd'"] exI [of _ "[]"] exI [of _ t] exI [of _ "[]"]
          exI [of _ nd] exI [of _ "scan_while (\<lambda>j. \<not> vis nd j) i (bt_n nd)"])
        (auto simp: Let_def)
  qed (use nd'(2) same scan_vis_none ok(1) in \<open>auto simp: Let_def\<close>)
next
  case (Cons t' ts h t nd i)
  then obtain nt where ok: "bt_n nd \<le> 64" "bt_next nd = Some t'" "deref h t' = Some nt"
    "leaf_chain h (Some t') (t' # ts)" using leaf_okD(4) [of nd] by auto
  obtain nd' where nd': "same_marks nd nd'" "iter_leaves h t i =
       (let j = scan_while (\<lambda>j. \<not> vis nd j) i (bt_n nd) in
        if j < bt_n nd then Some (store h t nd', Some (t, j, bt_key nd ! j))
        else case bt_next nd of None \<Rightarrow> Some (store h t nd', None)
             | Some t' \<Rightarrow> iter_leaves (store h t nd') t' 0)"
    using iter_leaves_first [OF Cons.prems(2) ok(1), of i] by blast
  let ?h = "store h t nd'"
  note same = same_heap_store [OF Cons.prems(2) nd'(1)]
  show ?case
  proof (cases "scan_while (\<lambda>j. \<not> vis nd j) i (bt_n nd) < bt_n nd")
    case True
    then show ?thesis using nd'(2) same scan_vis_some [OF refl True] Cons.prems(2)
      by (intro disjI2 exI [of _ ?h] exI [of _ "[]"] exI [of _ t] exI [of _ "t' # ts"] exI [of _ nd]
          exI [of _ "scan_while (\<lambda>j. \<not> vis nd j) i (bt_n nd)"])
        (auto simp: Let_def)
  next
    case False
    obtain nt' where nt': "deref ?h t' = Some nt'" "same_marks nt nt'"
      using same ok(3) by (rule same_heapE)
    have lev: "leaf_levels nt' 0 (bt_n nt') = leaf_levels_at h t'"
      using nt'(2) ok(3) same_marksD(1,8) by (simp add: leaf_levels_at_def)
    have ch: "chain_levels ?h us = chain_levels h us" if "set us \<subseteq> set (t' # ts)" for us
      using same_heap_levels [OF same ok(4) that] .
    have "leaf_chain ?h (Some t') (t' # ts)" using same_heap_chain [OF same ok(4)] .
    from Cons.IH [OF this nt'(1), of 0] consider
      (none) h' where "iter_leaves ?h t' 0 = Some (h', None)" "same_heap ?h h'"
        "leaf_levels nt' 0 (bt_n nt') @ chain_levels ?h ts = []"
    | (some) h' us c vs nc j where "iter_leaves ?h t' 0 = Some (h', Some (c, j, bt_key nc ! j))"
        "same_heap ?h h'" "t' # ts = us @ c # vs" "deref ?h c = Some nc" "j < bt_n nc" "vis nc j"
        "if us = [] then leaf_levels nc 0 j = []
         else leaf_levels nt' 0 (bt_n nt') = [] \<and> chain_levels ?h (tl us) = [] \<and>
           leaf_levels nc 0 j = []"
      by metis
    then show ?thesis
    proof cases
      case none
      then show ?thesis
        using False nd'(2) ok(2) same_heap_trans [OF same none(2)] scan_vis_none [OF False] lev
          ch [OF set_subset_Cons] by auto
    next
      case some
      obtain nc0 where nc0: "deref h c = Some nc0" "same_marks nc0 nc"
        using some(3,4) leaf_chain_deref [OF ok(4), of c] same_heapE [OF same, of c]
        by (metis in_set_conv_decomp option.inject)
      have "set (tl us) \<subseteq> set (t' # ts)" using some(3) by (cases us) auto
      then have "chain_levels h us = []"
        using some(3,7) lev ch [of "tl us"] by (cases us) (auto split: if_splits)
      then show ?thesis
        using False nd'(2) ok(2) same_heap_trans [OF same some(2)] scan_vis_none [OF False] some nc0
          same_marksD(1,4,7,8) [OF nc0(2)]
        by (intro disjI2 exI [of _ h'] exI [of _ "t # us"] exI [of _ c] exI [of _ vs] exI [of _ nc0]
            exI [of _ j]) (auto split: if_splits)
    qed
  qed
qed

subsection \<open>The contract of the iterator\<close>

text \<open>
  \<open>iter_inv h t it pre xs\<close>: the iterator over tree \<open>t\<close> has passed the levels \<open>pre\<close> and \<open>xs\<close> are to come.
  \<open>iter_cur h t it pre x xs\<close>: a step has just succeeded and the iterator points at \<open>x\<close>.
\<close>

definition iter_inv :: "heap \<Rightarrow> btree_t \<Rightarrow> btree_iter \<Rightarrow> (d64 \<times> btree_val) list \<Rightarrow>
    (d64 \<times> btree_val) list \<Rightarrow> bool" where
  "iter_inv h t it pre xs \<longleftrightarrow> (\<exists>us c vs nc i. leaves h t (us @ c # vs) \<and> deref h c = Some nc \<and>
     i \<le> bt_n nc \<and> pre = chain_levels h us @ leaf_levels nc 0 i \<and>
     xs = leaf_levels nc i (bt_n nc) @ chain_levels h vs \<and> it_i it = i \<and>
     (it_t it = Some c \<or> it_t it = Some t \<and> us = [] \<and> i = 0))"

definition iter_cur :: "heap \<Rightarrow> btree_t \<Rightarrow> btree_iter \<Rightarrow> (d64 \<times> btree_val) list \<Rightarrow>
    d64 \<times> btree_val \<Rightarrow> (d64 \<times> btree_val) list \<Rightarrow> bool" where
  "iter_cur h t it pre x xs \<longleftrightarrow> (\<exists>us c vs nc j. leaves h t (us @ c # vs) \<and> deref h c = Some nc \<and>
     j < bt_n nc \<and> vis nc j \<and> x = (bt_key nc ! j, leaf_val nc j) \<and>
     pre = chain_levels h us @ leaf_levels nc 0 j \<and>
     xs = leaf_levels nc (j + 1) (bt_n nc) @ chain_levels h vs \<and>
     it_t it = Some c \<and> it_i it = j + 1 \<and> it_k it = bt_key nc ! j \<and> it_v it = Some (c, j))"

lemma leaves_first:
  "leaves h t ts \<longleftrightarrow> (\<exists>l. first_leaf h t = Some l \<and> leaf_chain h (Some l) ts)"
  by (auto simp: leaves_def split: option.splits)

lemma leaves_Cons: "leaves h t (l # ts) \<Longrightarrow> first_leaf h t = Some l"
  by (auto simp: leaves_first)

lemma leaves_chain: "leaves h t (us @ c # vs) \<Longrightarrow> leaf_chain h (Some c) (c # vs)"
  using leaf_chain_append by (auto simp: leaves_first simp del: leaf_chain_Cons)

lemma leaves_not_Nil: "leaves h t ts \<Longrightarrow> ts \<noteq> []"
  by (auto simp: leaves_first)

lemma iter_invI:
  "leaves h t (us @ c # vs) \<Longrightarrow> deref h c = Some nc \<Longrightarrow> i \<le> bt_n nc \<Longrightarrow>
   pre = chain_levels h us @ leaf_levels nc 0 i \<Longrightarrow>
   xs = leaf_levels nc i (bt_n nc) @ chain_levels h vs \<Longrightarrow> it_i it = i \<Longrightarrow>
   it_t it = Some c \<or> it_t it = Some t \<and> us = [] \<and> i = 0 \<Longrightarrow> iter_inv h t it pre xs"
  unfolding iter_inv_def by blast

lemma iter_inv_init:
  assumes "holds h t xs"
  shows "iter_inv h t (iter_init t) [] xs"
proof -
  obtain l ts where ts: "leaves h t (l # ts)" "xs = chain_levels h (l # ts)"
    using assms leaves_not_Nil by (metis holds_def list.exhaust)
  then obtain nd where "deref h l = Some nd" using leaves_chain [of h t "[]"] by auto
  then show ?thesis
    using ts iter_invI [of h t "[]" l ts nd 0 "[]" xs "iter_init t"]
    by (simp add: iter_init_def leaf_levels_at_def leaf_levels_Nil)
qed

lemma iter_inv_holds:
  assumes "iter_inv h t it pre xs"
  shows "holds h t (pre @ xs)"
proof -
  from assms obtain us c vs nc i where "leaves h t (us @ c # vs)" "deref h c = Some nc"
    "i \<le> bt_n nc" "pre = chain_levels h us @ leaf_levels nc 0 i"
    "xs = leaf_levels nc i (bt_n nc) @ chain_levels h vs"
    unfolding iter_inv_def by blast
  then show ?thesis unfolding holds_def
    using leaf_levels_split [of 0 i "bt_n nc" nc]
    by (intro exI [of _ "us @ c # vs"]) (simp add: leaf_levels_at_def)
qed

lemma iter_cur_inv:
  assumes "iter_cur h t it pre x xs"
  shows "iter_inv h t it (pre @ [x]) xs"
proof -
  from assms obtain us c vs nc j where c: "leaves h t (us @ c # vs)" "deref h c = Some nc"
    "j < bt_n nc" "vis nc j" "x = (bt_key nc ! j, leaf_val nc j)"
    "pre = chain_levels h us @ leaf_levels nc 0 j"
    "xs = leaf_levels nc (j + 1) (bt_n nc) @ chain_levels h vs" "it_t it = Some c" "it_i it = j + 1"
    unfolding iter_cur_def by blast
  have "leaf_levels nc 0 (j + 1) = leaf_levels nc 0 j @ [x]"
    using c(4,5) by (simp add: leaf_levels_def)
  then show ?thesis using c by (intro iter_invI [of h t us c vs nc "j + 1"]) simp_all
qed

lemma iter_cur_load:
  "iter_cur h t it pre x xs \<Longrightarrow>
   \<exists>p. it_v it = Some p \<and> load_val h p = Some (snd x) \<and> it_k it = fst x"
  by (auto simp: iter_cur_def load_val_def)

lemma iter_next_leaf:
  assumes "leaves h t (us @ c # vs)" "deref h c = Some nc" "i \<le> bt_n nc"
    and "it_t it = Some c \<or> it_t it = Some t \<and> us = [] \<and> i = 0" "it_i it = i"
  shows "btree_iter_next h it = do {
      (h, r) \<leftarrow> iter_leaves h c i;
      case r of
        Some (t', j, k) \<Rightarrow>
          Some (h, it\<lparr>it_t := Some t', it_k := k, it_v := Some (t', j), it_i := j + 1\<rparr>, True)
      | None \<Rightarrow> Some (h, it\<lparr>it_t := None, it_i := 0, it_v := None\<rparr>, False)
    }"
proof -
  obtain a nd where a: "it_t it = Some a" "deref h a = Some nd" "first_leaf h a = Some c"
    "(if bt_innerp nd then 0 else it_i it) = i"
  proof (cases "it_t it = Some c")
    case True
    moreover have "\<not> bt_innerp nc" using leaves_chain [OF assms(1)] assms(2) leaf_okD(1) by auto
    ultimately show ?thesis using that assms(2,5) first_leaf_leaf by simp
  next
    case False
    then have t: "it_t it = Some t" "us = []" "i = 0" using assms(4) by auto
    then have "first_leaf h t = Some c" using assms(1) leaves_Cons by simp
    moreover from this obtain nd where "deref h t = Some nd"
      by (subst (asm) first_leaf.simps) (auto simp: bind_eq_Some_conv)
    ultimately show ?thesis using that t assms(5) by simp
  qed
  then show ?thesis unfolding btree_iter_next_def by (simp cong: option.case_cong)
qed

lemma iter_next_Nil:
  assumes "iter_inv h t it pre []"
  shows "\<exists>h' it'. btree_iter_next h it = Some (h', it', False) \<and> holds h' t pre"
proof -
  from assms obtain us c vs nc i where c: "leaves h t (us @ c # vs)" "deref h c = Some nc"
    "i \<le> bt_n nc" "pre = chain_levels h us @ leaf_levels nc 0 i"
    "[] = leaf_levels nc i (bt_n nc) @ chain_levels h vs" "it_i it = i"
    "it_t it = Some c \<or> it_t it = Some t \<and> us = [] \<and> i = 0"
    unfolding iter_inv_def by blast
  have nv: "\<not> vis nd j" if "leaf_levels nd k m = []" "k \<le> j" "j < m" for nd k m j
    using that by (simp add: leaf_levels_Nil)
  obtain h' where h': "iter_leaves h c i = Some (h', None)" "same_heap h h'"
  proof -
    { fix us' c' vs' nc' j
      assume "c # vs = us' @ c' # vs'" "deref h c' = Some nc'" "j < bt_n nc'" "vis nc' j"
        "us' = [] \<longrightarrow> i \<le> j"
      then have False using c(2,5) nv [of nc' 0 "bt_n nc'" j] nv [of nc i "bt_n nc" j]
        by (cases us') (auto simp: leaf_levels_at_def)
    }
    then show ?thesis
      using that iter_leaves_spec [OF leaves_chain [OF c(1)] c(2), of i] by (metis (no_types))
  qed
  have "holds h t pre" using iter_inv_holds [OF assms] by simp
  then have "holds h' t pre"
    using same_heap_leaves [OF h'(2)] same_heap_levels [OF h'(2)]
    by (fastforce simp: holds_def leaves_first)
  then show ?thesis using iter_next_leaf [OF c(1-3,7,6)] h'(1) by simp
qed

lemma iter_next_Cons:
  assumes "iter_inv h t it pre (x # xs)"
  shows "\<exists>h' it'. btree_iter_next h it = Some (h', it', True) \<and> iter_cur h' t it' pre x xs"
proof -
  from assms obtain us c vs nc i where c: "leaves h t (us @ c # vs)" "deref h c = Some nc"
    "i \<le> bt_n nc" "pre = chain_levels h us @ leaf_levels nc 0 i"
    "x # xs = leaf_levels nc i (bt_n nc) @ chain_levels h vs" "it_i it = i"
    "it_t it = Some c \<or> it_t it = Some t \<and> us = [] \<and> i = 0"
    unfolding iter_inv_def by blast
  from iter_leaves_spec [OF leaves_chain [OF c(1)] c(2), of i] c(5)
  obtain h' us' c' vs' nc' j where n: "iter_leaves h c i = Some (h', Some (c', j, bt_key nc' ! j))"
    "same_heap h h'" "c # vs = us' @ c' # vs'" "deref h c' = Some nc'" "j < bt_n nc'" "vis nc' j"
    "if us' = [] then i \<le> j \<and> leaf_levels nc' i j = []
     else leaf_levels nc i (bt_n nc) = [] \<and> chain_levels h (tl us') = [] \<and> leaf_levels nc' 0 j = []"
    by auto
  have all: "us @ c # vs = (us @ us') @ c' # vs'" using n(3) by simp
  obtain nx where nx: "deref h' c' = Some nx" "same_marks nc' nx" using n(2,4) by (rule same_heapE)
  note m = same_marksD [OF nx(2)]
  obtain l where l: "leaf_chain h (Some l) (us @ c # vs)" using c(1) by (auto simp: leaves_first)
  note lv = same_heap_levels [OF n(2) l]
  have lvs: "chain_levels h' (us @ us') = chain_levels h (us @ us')" "chain_levels h' vs' = chain_levels h vs'"
    by (intro lv; simp add: all; blast)+
  have step: "leaf_levels nc' j (bt_n nc') = (bt_key nc' ! j, leaf_val nc' j) # leaf_levels nc' (j + 1) (bt_n nc')"
    using leaf_levels_step [OF n(5,6)] by simp
  have split: "leaf_levels nc' 0 (bt_n nc') = leaf_levels nc' 0 j @ leaf_levels nc' j (bt_n nc')"
    using leaf_levels_split [of 0 j "bt_n nc'"] n(5) by simp
  have at: "pre = chain_levels h (us @ us') @ leaf_levels nc' 0 j \<and>
    x # xs = leaf_levels nc' j (bt_n nc') @ chain_levels h vs'"
  proof (cases us')
    case Nil
    then have "c' = c" "nc' = nc" "vs' = vs" using n(3,4) c(2) by auto
    then show ?thesis using c(4,5) n(5,7) Nil leaf_levels_split [of i j "bt_n nc" nc]
        leaf_levels_split [of 0 i j nc] by simp
  next
    case (Cons a us'')
    then have "a = c" "vs = us'' @ c' # vs'" using n(3) by auto
    then show ?thesis using c(2,4,5) n(4,7) Cons split leaf_levels_split [of 0 i "bt_n nc" nc] c(3)
      by (simp add: leaf_levels_at_def)
  qed
  have "iter_cur h' t (it\<lparr>it_t := Some c', it_k := bt_key nc' ! j, it_v := Some (c', j), it_i := j + 1\<rparr>) pre x xs"
    unfolding iter_cur_def
    using at step lvs nx(1) m n(5,6) same_heap_leaves [OF n(2) c(1)] all
    by (intro exI [of _ "us @ us'"], intro exI [of _ c'], intro exI [of _ vs'],
        intro exI [of _ nx], intro exI [of _ j]) simp
  then show ?thesis using iter_next_leaf [OF c(1-3,7,6)] n(1) by simp
qed

text \<open>Writing a value through the iterator changes the level it points at and no other.\<close>

lemma leaf_levels_write:
  fixes nc :: btree_s and j :: nat and v :: btree_val
  defines "nc' \<equiv> nc\<lparr>bt_val := (bt_val nc)[j := UV v]\<rparr>"
  assumes "j < length (bt_val nc)" "bit (bt_used nc) j"
  shows "leaf_levels nc' 0 j = leaf_levels nc 0 j"
    and "leaf_levels nc' (Suc j) m = leaf_levels nc (Suc j) m"
    and "leaf_levels nc' 0 (Suc j) =
      leaf_levels nc 0 j @ (if btree_val_nil_p v then [] else [(bt_key nc ! j, v)])"
proof -
  have eq: "(bt_val nc)[j := UV v] ! k = bt_val nc ! k" if "k \<noteq> j" for k using that by simp
  have v: "vis nc' k = vis nc k" "leaf_val nc' k = leaf_val nc k" if "k \<noteq> j" for k
    using that by (auto simp: nc'_def vis_def)
  have f: "filter (vis nc') [0..<j] = filter (vis nc) [0..<j]"
    "filter (vis nc') [Suc j..<m] = filter (vis nc) [Suc j..<m]"
    using v(1) by (auto intro!: filter_cong)
  have k: "bt_key nc' = bt_key nc" by (simp add: nc'_def)
  show 1: "leaf_levels nc' 0 j = leaf_levels nc 0 j"
    unfolding leaf_levels_def f k using v(2) by auto
  show "leaf_levels nc' (Suc j) m = leaf_levels nc (Suc j) m"
    unfolding leaf_levels_def f k using v(2) by auto
  show "leaf_levels nc' 0 (Suc j) =
      leaf_levels nc 0 j @ (if btree_val_nil_p v then [] else [(bt_key nc ! j, v)])"
    using leaf_levels_split [of 0 j "Suc j" nc'] 1 assms(2,3)
    by (simp add: leaf_levels_def [of _ j] k) (simp add: vis_def nc'_def)
qed

lemma iter_cur_write:
  assumes "iter_cur h t it pre x xs" "it_v it = Some p"
  shows "\<exists>h'. store_val h p v = Some h' \<and>
    iter_inv h' t it (pre @ (if btree_val_nil_p v then [] else [(fst x, v)])) xs"
proof -
  from assms obtain us c vs nc j where c: "leaves h t (us @ c # vs)" "deref h c = Some nc"
    "j < bt_n nc" "vis nc j" "x = (bt_key nc ! j, leaf_val nc j)"
    "pre = chain_levels h us @ leaf_levels nc 0 j"
    "xs = leaf_levels nc (j + 1) (bt_n nc) @ chain_levels h vs" "it_t it = Some c" "it_i it = j + 1"
    and p: "p = (c, j)"
    unfolding iter_cur_def by auto
  obtain l where l: "first_leaf h t = Some l" "leaf_chain h (Some l) (us @ c # vs)"
    using c(1) by (auto simp: leaves_first)
  have ok: "leaf_ok nc" using leaves_chain [OF c(1)] c(2) by auto
  let ?nc = "nc\<lparr>bt_val := (bt_val nc)[j := UV v]\<rparr>"
  let ?h = "store h c ?nc"
  have ok': "leaf_ok ?nc" using ok by (simp add: leaf_ok_def)
  have "leaves ?h t (us @ c # vs)"
    using first_leaf_sim [OF same_twigs_store [OF c(2)], of ?nc] l ok leaf_okD(1)
      leaf_chain_store [OF c(2) ok' _ l(2)]
    by (auto simp: leaves_first)
  moreover have "chain_levels ?h us = chain_levels h us" "chain_levels ?h vs = chain_levels h vs"
    using chain_levels_store [OF c(2)] leaf_chain_distinct [OF l(2)] by auto
  moreover have "deref ?h c = Some ?nc" using deref_Some_lt [OF c(2)] by (simp add: heap_simps)
  moreover have "j < length (bt_val nc)" "bit (bt_used nc) j"
    using c(3,4) leaf_okD(3,4) [OF ok] by (auto simp: vis_def)
  ultimately have "iter_inv ?h t it (pre @ (if btree_val_nil_p v then [] else [(fst x, v)])) xs"
    using c(3,5-9) leaf_levels_write [of j nc v]
    by (intro iter_invI [of ?h t us c vs ?nc "j + 1"]) simp_all
  then show ?thesis using c(2) p by (simp add: store_val_def)
qed

subsection \<open>Clearing and the first level\<close>

lemma clr_vals_simps [simp]:
  "bt_n (clr_vals nd) = bt_n nd" "bt_next (clr_vals nd) = bt_next nd"
  "bt_key (clr_vals nd) = bt_key nd" "bt_innerp (clr_vals nd) = bt_innerp nd"
  "bt_descp (clr_vals nd) = bt_descp nd" "bt_used (clr_vals nd) = bt_used nd"
  "bt_splitp (clr_vals nd) = bt_splitp nd"
  by (simp_all add: clr_vals_def)

lemma fold_update_nth:
  "length (fold (\<lambda>i vs. vs[i := x]) is xs) = length xs"
  "j < length xs \<Longrightarrow> fold (\<lambda>i vs. vs[i := x]) is xs ! j = (if j \<in> set is then x else xs ! j)"
  by (induction "is" arbitrary: xs) (auto simp: nth_list_update)

lemma nil_is_nil [simp]: "btree_val_nil_p btree_val_nil"
  by code_simp

lemma clr_vals_leaf:
  assumes "leaf_ok nd"
  shows "leaf_ok (clr_vals nd)" "j < bt_n nd \<Longrightarrow> leaf_val (clr_vals nd) j = btree_val_nil"
    "leaf_levels (clr_vals nd) 0 (bt_n nd) = []"
proof -
  show v: "leaf_val (clr_vals nd) j = btree_val_nil" if "j < bt_n nd" for j
    using that leaf_okD(3,4) [OF assms] by (simp add: clr_vals_def fold_update_nth)
  show "leaf_ok (clr_vals nd)"
    using assms unfolding leaf_ok_def by (simp add: clr_vals_def fold_update_nth)
  show "leaf_levels (clr_vals nd) 0 (bt_n nd) = []"
    using v by (simp add: leaf_levels_Nil vis_def)
qed

lemma clr_leaves_spec:
  "leaf_chain h (Some t) (t # ts) \<Longrightarrow> \<exists>h'. clr_leaves h t = Some h' \<and>
     (\<forall>a. deref h' a = (if a \<in> set (t # ts) then map_option clr_vals (deref h a) else deref h a))"
proof (induction ts arbitrary: h t)
  case Nil
  then obtain nd where nd: "deref h t = Some nd" "bt_next nd = None" by auto
  then show ?case
    using deref_Some_lt [OF nd(1)] by (subst clr_leaves.simps) (auto simp: heap_simps)
next
  case (Cons t' ts)
  then obtain nd where nd: "deref h t = Some nd" "leaf_ok nd" "bt_next nd = Some t'"
    "leaf_chain h (Some t') (t' # ts)" by auto
  let ?h = "store h t (clr_vals nd)"
  have "leaf_chain ?h (Some t') (t' # ts)"
    using leaf_chain_store [OF nd(1) clr_vals_leaf(1) [OF nd(2)] _ nd(4)] by simp
  from Cons.IH [OF this] obtain h' where h': "clr_leaves ?h t' = Some h'"
    "\<And>a. deref h' a = (if a \<in> set (t' # ts) then map_option clr_vals (deref ?h a) else deref ?h a)"
    by blast
  have "t \<notin> set (t' # ts)" using leaf_chain_distinct [OF Cons.prems] by simp
  then show ?case
    using h' nd(1,3) deref_Some_lt [OF nd(1)] by (subst clr_leaves.simps) (auto simp: heap_simps)
qed

lemma leaf_chain_clr:
  assumes "\<And>a. a \<in> set ts \<Longrightarrow> deref h' a = map_option clr_vals (deref h a)"
  shows "leaf_chain h p ts \<Longrightarrow> leaf_chain h' p ts \<and> chain_levels h' ts = []"
  using assms
proof (induction ts arbitrary: p)
  case (Cons t ts)
  then obtain nd where "deref h t = Some nd" "leaf_ok nd" "leaf_chain h (bt_next nd) ts" "p = Some t"
    by auto
  then show ?case using Cons.IH [of "bt_next nd"] Cons.prems(2) clr_vals_leaf [of nd]
    by (simp add: leaf_levels_at_def)
qed simp

lemma btree_clr_leaves:
  assumes "leaves h t ts"
  shows "\<exists>h'. btree_clr h t = Some h' \<and> leaves h' t ts \<and> chain_levels h' ts = []"
proof -
  obtain l ts' where ts: "ts = l # ts'" using leaves_not_Nil [OF assms] by (cases ts) auto
  have l: "first_leaf h t = Some l" "leaf_chain h (Some l) (l # ts')"
    using assms ts leaves_Cons leaves_chain [of h t "[]"] by auto
  obtain h' where h': "clr_leaves h l = Some h'"
    "\<And>a. deref h' a = (if a \<in> set (l # ts') then map_option clr_vals (deref h a) else deref h a)"
    using clr_leaves_spec [OF l(2)] by blast
  have "same_twigs h h'"
    unfolding same_twigs_def
  proof (intro allI impI)
    fix a nd
    assume a: "deref h a = Some nd"
    show "\<exists>nd'. deref h' a = Some nd' \<and> bt_innerp nd' = bt_innerp nd \<and>
        (bt_innerp nd \<longrightarrow> bt_val nd' = bt_val nd)"
    proof (cases "a \<in> set (l # ts')")
      case True
      then obtain us vs where "l # ts' = us @ a # vs" by (meson split_list)
      then have "\<not> bt_innerp nd"
        using leaf_chain_append [of h "Some l" us a vs] l(2) a leaf_okD(1) by auto
      then show ?thesis using True a h'(2) by simp
    qed (use a h'(2) in simp)
  qed
  then have "first_leaf h' t = Some l" using first_leaf_sim l(1) by blast
  moreover have "leaf_chain h' (Some l) ts \<and> chain_levels h' ts = []"
    using leaf_chain_clr [of ts h' h "Some l"] h'(2) l(2) ts by simp
  ultimately show ?thesis using l(1) h'(1) by (simp add: btree_clr_def leaves_first)
qed

lemma btree_clr_holds: "holds h t xs \<Longrightarrow> \<exists>h'. btree_clr h t = Some h' \<and> holds h' t []"
  using btree_clr_leaves unfolding holds_def by fastforce

text \<open>\<open>btree_top\<close> does not look at the marks; it agrees with the iterator where they are intact.\<close>

lemma top_leaf_spec:
  fixes nd :: btree_s
  defines "i \<equiv> scan_while (\<lambda>i. btree_val_nil_p (leaf_val nd i)) 0 (bt_n nd)"
  assumes "marks_ok nd"
  shows "leaf_levels nd 0 (bt_n nd) =
    (if i < bt_n nd then (bt_key nd ! i, leaf_val nd i) # leaf_levels nd (Suc i) (bt_n nd) else [])"
proof -
  have eq: "vis nd j = live nd j" if "j < bt_n nd" for j
    using that assms(2) by (auto simp: marks_ok_def vis_def)
  have "i = scan_while (\<lambda>j. \<not> vis nd j) 0 (bt_n nd)"
    unfolding i_def using eq by (intro scan_while_cong) simp
  then show ?thesis
    using scan_vis_none [of nd 0] scan_vis_some [of i nd 0] leaf_levels_split [of 0 i "bt_n nd" nd]
      leaf_levels_step [of i "bt_n nd" nd] by auto
qed

definition first_level :: "heap \<Rightarrow> (d64 \<times> btree_val) list \<Rightarrow> (d64 \<times> val_ptr) option \<Rightarrow> bool" where
  "first_level h xs r \<longleftrightarrow>
     (case xs of [] \<Rightarrow> r = None | x # _ \<Rightarrow> \<exists>p. r = Some (fst x, p) \<and> load_val h p = Some (snd x))"

lemma top_leaves_spec:
  assumes "leaf_chain h (Some t) (t # ts)"
    and "\<forall>c \<in> set (t # ts). \<forall>nd. deref h c = Some nd \<longrightarrow> marks_ok nd"
  shows "\<exists>r. top_leaves h t = Some r \<and> first_level h (chain_levels h (t # ts)) r"
  using assms
proof (induction ts arbitrary: t)
  case Nil
  then obtain nd where nd: "deref h t = Some nd" "bt_next nd = None" "marks_ok nd" by auto
  show ?case
    using top_leaf_spec [OF nd(3)] nd
    by (simp add: leaf_levels_at_def top_leaves.simps [of h t] Let_def load_val_def first_level_def)
next
  case (Cons t' ts)
  then obtain nd where nd: "deref h t = Some nd" "bt_next nd = Some t'" "marks_ok nd"
    "leaf_chain h (Some t') (t' # ts)" by auto
  let ?i = "scan_while (\<lambda>i. btree_val_nil_p (leaf_val nd i)) 0 (bt_n nd)"
  show ?case
  proof (cases "?i < bt_n nd")
    case True
    then show ?thesis
      using top_leaf_spec [OF nd(3)] nd(1)
      by (simp add: leaf_levels_at_def [of h t] top_leaves.simps [of h t] Let_def load_val_def
          first_level_def)
  next
    case False
    then show ?thesis
      using top_leaf_spec [OF nd(3)] Cons.IH [OF nd(4)] Cons.prems(2) nd(1,2)
      by (simp add: leaf_levels_at_def [of h t] top_leaves.simps [of h t] Let_def)
  qed
qed

lemma btree_top_levels:
  assumes "leaves h t ts" "\<forall>c \<in> set ts. \<forall>nd. deref h c = Some nd \<longrightarrow> marks_ok nd"
  shows "\<exists>r. btree_top h t = Some r \<and> first_level h (chain_levels h ts) r"
proof -
  obtain l ts' where "ts = l # ts'" using leaves_not_Nil [OF assms(1)] by (cases ts) auto
  then show ?thesis
    using top_leaves_spec [of h l ts'] leaves_chain [of h t "[]" l ts'] leaves_Cons [of h t l ts']
      assms
    by (simp add: btree_top_def del: chain_levels_simps leaf_chain_Cons)
qed

subsection \<open>What the books rely on\<close>

text \<open>
  The interface between the books and the tree: an iterator over the levels of a side that can be
  read and overwritten in place. The loops of \<open>books.c\<close> are of three shapes; each is proved once,
  for any function that satisfies the loop's equation.
\<close>

fun walk :: "('s \<Rightarrow> bool) \<Rightarrow> ('k \<Rightarrow> bool) \<Rightarrow> ('k \<Rightarrow> 'v \<Rightarrow> 's \<Rightarrow> 's) \<Rightarrow> ('k \<times> 'v) list \<Rightarrow> 's \<Rightarrow> nat \<times> 's" where
  "walk P C f [] s = (0, s)"
| "walk P C f ((k, v) # xs) s =
     (if P s \<and> C k then (case walk P C f xs (f k v s) of (n, s') \<Rightarrow> (Suc n, s')) else (0, s))"

definition rewrite :: "('v \<Rightarrow> bool) \<Rightarrow> ('k \<Rightarrow> 'v \<Rightarrow> 'v) \<Rightarrow> ('k \<times> 'v) list \<Rightarrow> ('k \<times> 'v) list" where
  "rewrite nil f xs = filter (\<lambda>(k, v). \<not> nil v) (map (\<lambda>(k, v). (k, f k v)) xs)"

locale level_iter =
  fixes step :: "'h \<Rightarrow> 'i \<Rightarrow> ('h \<times> 'i \<times> bool) option"
    and key :: "'i \<Rightarrow> 'k"
    and load :: "'h \<Rightarrow> 'i \<Rightarrow> 'v option"
    and put :: "'h \<Rightarrow> 'i \<Rightarrow> 'v \<Rightarrow> 'h option"
    and nil :: "'v \<Rightarrow> bool"
    and inv :: "'h \<Rightarrow> 't \<Rightarrow> 'i \<Rightarrow> ('k \<times> 'v) list \<Rightarrow> ('k \<times> 'v) list \<Rightarrow> bool"
    and cur :: "'h \<Rightarrow> 't \<Rightarrow> 'i \<Rightarrow> ('k \<times> 'v) list \<Rightarrow> 'k \<times> 'v \<Rightarrow> ('k \<times> 'v) list \<Rightarrow> bool"
    and side :: "'h \<Rightarrow> 't \<Rightarrow> ('k \<times> 'v) list \<Rightarrow> bool"
  assumes step_Nil: "inv h t it pre [] \<Longrightarrow> \<exists>h' it'. step h it = Some (h', it', False) \<and> side h' t pre"
    and step_Cons: "inv h t it pre (x # xs) \<Longrightarrow>
        \<exists>h' it'. step h it = Some (h', it', True) \<and> cur h' t it' pre x xs"
    and cur_inv: "cur h t it pre x xs \<Longrightarrow> inv h t it (pre @ [x]) xs"
    and inv_side: "inv h t it pre xs \<Longrightarrow> side h t (pre @ xs)"
    and cur_load: "cur h t it pre x xs \<Longrightarrow> load h it = Some (snd x) \<and> key it = fst x"
    and cur_write: "cur h t it pre x xs \<Longrightarrow>
        \<exists>h'. put h it v = Some h' \<and> inv h' t it (pre @ (if nil v then [] else [(fst x, v)])) xs"
begin

text \<open>\<open>for (; P(s) && next(&i) && C(i.k);) s = f(i.k, *i.v, s);\<close>\<close>

lemma read_loop:
  assumes F: "\<And>h it s. F h it s = (if P s then do {
        (h, it, b) \<leftarrow> step h it;
        if b \<and> C (key it) then do { v \<leftarrow> load h it; F h it (f (key it) v s) } else Some (h, it, s)
      } else Some (h, it, s))"
  shows "inv h t it pre xs \<Longrightarrow>
    \<exists>h' it'. F h it s = Some (h', it', snd (walk P C f xs s)) \<and> side h' t (pre @ xs)"
proof (induction xs arbitrary: h it pre s)
  case Nil
  then show ?case using step_Nil [OF Nil] inv_side [OF Nil] by (subst F) auto
next
  case (Cons x xs)
  obtain h' it' where st: "step h it = Some (h', it', True)" "cur h' t it' pre x xs"
    using step_Cons [OF Cons.prems] by blast
  note ld = cur_load [OF st(2)]
  show ?case
  proof (cases "P s \<and> C (fst x)")
    case True
    obtain k v where x: "x = (k, v)" by fastforce
    show ?thesis
      using Cons.IH [OF cur_inv [OF st(2)], of "f k v s"] True st(1) ld x
      by (subst F) (auto split: prod.split)
  next
    case False
    then show ?thesis
      using inv_side [OF Cons.prems] inv_side [OF cur_inv [OF st(2)]] st(1) ld
      by (subst F) (cases x, auto)
  qed
qed

text \<open>The same loop without a condition on the level, and where it leaves the iterator.\<close>

definition stands :: "'h \<Rightarrow> 't \<Rightarrow> 'i \<Rightarrow> ('k \<times> 'v) list \<Rightarrow> ('k \<times> 'v) list \<Rightarrow> bool" where
  "stands h t it pre xs \<longleftrightarrow>
     inv h t it pre xs \<and> (\<forall>x pre'. pre = pre' @ [x] \<longrightarrow> cur h t it pre' x xs)"

lemma stands_init: "inv h t it [] xs \<Longrightarrow> stands h t it [] xs"
  by (simp add: stands_def)

lemma stands_cur: "cur h t it pre x xs \<Longrightarrow> stands h t it (pre @ [x]) xs"
  using cur_inv by (simp add: stands_def)

lemma stands_load: "stands h t it (pre @ [x]) xs \<Longrightarrow> load h it = Some (snd x) \<and> key it = fst x"
  unfolding stands_def using cur_load by blast

lemma stands_side: "stands h t it pre xs \<Longrightarrow> side h t (pre @ xs)"
  unfolding stands_def using inv_side by blast

lemma stop_loop:
  assumes F: "\<And>h it s. F h it s = (if P s then do {
        (h, it, b) \<leftarrow> step h it;
        if b then do { v \<leftarrow> load h it; F h it (f (key it) v s) } else Some (h, it, s)
      } else Some (h, it, s))"
    and w: "walk P (\<lambda>_. True) f xs s = (n, s')"
  shows "stands h t it pre xs \<Longrightarrow> \<exists>h' it'. F h it s = Some (h', it', s') \<and>
    side h' t (pre @ xs) \<and> (\<not> P s' \<longrightarrow> stands h' t it' (pre @ take n xs) (drop n xs))"
  using w
proof (induction xs arbitrary: h it pre s n)
  case Nil
  then show ?case
    using step_Nil [of h t it pre] inv_side [of h t it pre "[]"] by (subst F) (auto simp: stands_def)
next
  case (Cons x xs)
  obtain k v where x: "x = (k, v)" by fastforce
  show ?case
  proof (cases "P s")
    case True
    obtain h' it' where st: "step h it = Some (h', it', True)" "cur h' t it' pre x xs"
      using step_Cons [of h t it pre x xs] Cons.prems(1) by (auto simp: stands_def)
    obtain m where m: "walk P (\<lambda>_. True) f xs (f k v s) = (m, s')" "n = Suc m"
      using Cons.prems(2) True x by (auto split: prod.splits)
    show ?thesis
      using Cons.IH [OF stands_cur [OF st(2)] m(1)] True st(1) cur_load [OF st(2)] x m(2)
      by (subst F) auto
  next
    case False
    then show ?thesis using Cons.prems x stands_side [OF Cons.prems(1)] by (subst F) auto
  qed
qed

text \<open>\<open>for (; next(&i) && C(i.k);) *i.v = f(i.k, *i.v);\<close>\<close>

lemma write_loop:
  assumes F: "\<And>h it. F h it = do {
        (h, it, b) \<leftarrow> step h it;
        if b \<and> C (key it) then do { v \<leftarrow> load h it; h \<leftarrow> put h it (f (key it) v); F h it }
        else Some h
      }"
  shows "inv h t it pre xs \<Longrightarrow> \<exists>h'. F h it = Some h' \<and>
    side h' t (pre @ rewrite nil f (takeWhile (C \<circ> fst) xs) @ dropWhile (C \<circ> fst) xs)"
proof (induction xs arbitrary: h it pre)
  case Nil
  then show ?case using step_Nil [OF Nil] by (subst F) (auto simp: rewrite_def)
next
  case (Cons x xs)
  obtain k v where x: "x = (k, v)" by fastforce
  obtain h' it' where st: "step h it = Some (h', it', True)" "cur h' t it' pre x xs"
    using step_Cons [OF Cons.prems] by blast
  note ld = cur_load [OF st(2)]
  show ?case
  proof (cases "C k")
    case True
    obtain h'' where h'': "put h' it' (f k v) = Some h''"
      "inv h'' t it' (pre @ (if nil (f k v) then [] else [(k, f k v)])) xs"
      using cur_write [OF st(2), of "f k v"] unfolding x fst_conv by blast
    show ?thesis
      using Cons.IH [OF h''(2)] h''(1) True st(1) ld x by (subst F) (auto simp: rewrite_def comp_def)
  next
    case False
    then show ?thesis
      using inv_side [OF cur_inv [OF st(2)]] st(1) ld x by (subst F) (auto simp: rewrite_def comp_def)
  qed
qed

end

text \<open>Reading and writing \<open>*i.v\<close>.\<close>

definition iter_load :: "heap \<Rightarrow> btree_iter \<Rightarrow> btree_val option" where
  "iter_load h it = it_v it \<bind> load_val h"

definition iter_write :: "heap \<Rightarrow> btree_iter \<Rightarrow> btree_val \<Rightarrow> heap option" where
  "iter_write h it v = it_v it \<bind> (\<lambda>p. store_val h p v)"

interpretation bi: level_iter btree_iter_next it_k iter_load iter_write btree_val_nil_p iter_inv
    iter_cur holds
proof
  show "\<exists>h'. iter_write h it v = Some h' \<and>
      iter_inv h' t it (pre @ (if btree_val_nil_p v then [] else [(fst x, v)])) xs"
    if "iter_cur h t it pre x xs" for h t it pre x xs v
    using iter_cur_write [OF that, of _ v] iter_cur_load [OF that]
    unfolding iter_write_def by (metis bind.bind_lunit)
  show "iter_load h it = Some (snd x) \<and> it_k it = fst x"
    if "iter_cur h t it pre x xs" for h t it pre x xs
    using iter_cur_load [OF that] by (auto simp: iter_load_def)
qed (rule iter_next_Nil iter_next_Cons iter_cur_inv iter_inv_holds, assumption)+

end
