(* ===== verification/Dfp754_d64.thy ===== *)
theory Dfp754_d64
  imports Decimal
begin

text \<open>
  The decimal helper library \<open>src/src/dfp754_d64.c\<close> and \<open>.h\<close>: taking 64 bit decimals apart and
  putting them together in both encodings (binary integer decimal and densely packed decimal),
  conversion from and to strings through packed BCD, quantisation and scaling. Everything is at
  the width the C code has. Strings are the bytes up to the terminating NUL, which is what
  reading past the end of the list yields; a string pointer is the rest of the string.
\<close>

subsection \<open>Taking a decimal apart\<close>

definition sign_bid64 :: "d64 \<Rightarrow> int" where
  "sign_bid64 x = sint (signed_drop_bit 63 (bits64 x))"

definition mant_bid64 :: "d64 \<Rightarrow> 64 word" where
  "mant_bid64 x =
     (let b = bits64 x in
      if b AND 0x6000000000000000 = 0x6000000000000000
      then push_bit 51 0b100 XOR (b AND 0x7FFFFFFFFFFFF)
      else b AND 0x1FFFFFFFFFFFFF)"

definition quantexpbid64 :: "d64 \<Rightarrow> int" where
  "quantexpbid64 x =
     (let b = bits64 x in
      if b = 0 then 0
      else let tmp = (if b AND 0x6000000000000000 \<noteq> 0x6000000000000000
                      then drop_bit 53 b else drop_bit 51 b)
           in uint (tmp AND 0x3FF) - 398)"

definition sign_dpd64 :: "d64 \<Rightarrow> int" where
  "sign_dpd64 x = sint (signed_drop_bit 63 (bits64 x))"

definition mant_dpd64 :: "d64 \<Rightarrow> 64 word" where
  "mant_dpd64 x =
     (let b = bits64 x; res = b AND 0x3FFFFFFFFFFFF; b = drop_bit 58 b in
      if b AND 0b11000 = 0b11000
      then res XOR push_bit 50 ((b AND 0b00001) OR 0b1000)
      else res XOR push_bit 50 (b AND 0b00111))"

definition quantexpdpd64 :: "d64 \<Rightarrow> int" where
  "quantexpdpd64 x =
     (let b = drop_bit 50 (bits64 x) in
      if b = 0 then 0
      else let tmp = (if b AND 0b1100000000000 \<noteq> 0b1100000000000
                      then drop_bit 3 (b AND 0b1100000000000) OR (b AND 0b11111111)
                      else drop_bit 1 (b AND 0b001100000000) OR (b AND 0b11111111))
           in uint tmp - 398)"

subsection \<open>Declets\<close>

definition pack_declet :: "32 word \<Rightarrow> 32 word" where
  "pack_declet x =
     (let d0 = x AND 0xF;
          (d0, c) = (if d0 \<ge> 8 then (d0 AND 1, 0b001) else (d0, 0));
          x = drop_bit 4 x;
          d1 = x AND 0xF;
          (d1, c) = (if d1 \<ge> 8 then (d1 AND 1, c OR 0b010) else (d1, c));
          x = drop_bit 4 x;
          d2 = x AND 0xF;
          (d2, c) = (if d2 \<ge> 8 then (d2 AND 1, c OR 0b100) else (d2, c));
          res = push_bit 7 d2 OR push_bit 4 d1 OR d0 in
      if c = (0b000 :: 32 word) then res
      else if c = 0b001 then res OR push_bit 1 0b100
      else if c = 0b010 then
        (res AND NOT 0b1110) OR (push_bit 1 0b101 OR push_bit 4 (d0 AND 0b110))
      else if c = 0b011 then res OR (push_bit 4 0b100 OR push_bit 1 0b111)
      else if c = 0b100 then
        (res AND NOT 0b1110) OR (push_bit 7 (d0 AND 0b110) OR push_bit 1 0b110)
      else if c = 0b101 then
        (res AND NOT 0b1100000) OR
        (push_bit 7 (d1 AND 0b110) OR push_bit 4 0b010 OR push_bit 1 0b111)
      else if c = 0b110 then
        (res AND NOT 0b1110) OR (push_bit 7 (d0 AND 0b110) OR push_bit 1 0b111)
      else if c = 0b111 then res OR (push_bit 4 0b110 OR push_bit 1 0b111)
      else 0)"

definition unpack_declet :: "32 word \<Rightarrow> 32 word" where
  "unpack_declet x =
     (let trivial = (x AND 0b1111) OR (x AND 0b1110000) OR push_bit 1 (x AND 0b1110000000);
          sw = drop_bit 1 x AND 0b111;
          sw2 = drop_bit 5 x AND 0b11;
          d2 = push_bit 1 (x AND 0b1110000000);
          d2l = push_bit 8 0b1000 OR push_bit 1 (x AND 0b0010000000);
          d1l = push_bit 4 0b1000 OR (x AND 0b0000010000);
          d0l = push_bit 0 0b1000 OR (x AND 0b0000000001) in
      if x AND 0b1000 = 0 then trivial
      else if sw = 0b100 then trivial
      else if sw = 0b101 then d2 OR d1l OR (drop_bit 4 (x AND 0b1100000) OR (x AND 0b1))
      else if sw = 0b110 then
        d2l OR (x AND 0b1110000) OR (drop_bit 7 (x AND 0b1100000000) OR (x AND 0b1))
      else if sw = 0b111 then
        (if sw2 = 0b10 then d2 OR d1l OR d0l
         else if sw2 = 0b01 then
           d2l OR (drop_bit 3 (x AND 0b1100000000) OR (x AND 0b0000010000)) OR d0l
         else if sw2 = 0b00 then d2l OR d1l OR (drop_bit 7 (x AND 0b1100000000) OR (x AND 0b1))
         else d2l OR d1l OR d0l)
      else 0)"

subsection \<open>Putting a decimal together\<close>

record bcd64 =
  bcd_mant :: "64 word"
  bcd_expo :: int
  bcd_sign :: int

definition assemble_bid :: "64 word \<Rightarrow> 64 word \<Rightarrow> 64 word \<Rightarrow> d64" where
  "assemble_bid m ex s =
     (let u = push_bit 63 s in
      if m AND push_bit 53 1 \<noteq> 0
      then bobs64 (u XOR push_bit 61 0b11 XOR push_bit 51 ex XOR (m AND 0x7FFFFFFFFFFFF))
      else bobs64 (u XOR push_bit 53 ex XOR (m AND 0x1FFFFFFFFFFFFF)))"

text \<open>The nibbles of the mantissa in reverse order, then Horner's rule over the lowest fifteen.\<close>

definition mirror_nibbles :: "64 word \<Rightarrow> 64 word" where
  "mirror_nibbles m0 =
     (let m1 = drop_bit 32 (m0 AND 0xFFFFFFFF00000000) XOR push_bit 32 (m0 AND 0x00000000FFFFFFFF);
          m2 = drop_bit 16 (m1 AND 0xFFFF0000FFFF0000) XOR push_bit 16 (m1 AND 0x0000FFFF0000FFFF);
          m3 = drop_bit 8 (m2 AND 0xFF00FF00FF00FF00) XOR push_bit 8 (m2 AND 0x00FF00FF00FF00FF)
      in drop_bit 4 (m3 AND 0xF0F0F0F0F0F0F0F0) XOR push_bit 4 (m3 AND 0x0F0F0F0F0F0F0F0F))"

fun horner_nibbles :: "nat \<Rightarrow> 64 word \<Rightarrow> 64 word \<Rightarrow> 64 word" where
  "horner_nibbles 0 b m = m"
| "horner_nibbles (Suc i) b m = horner_nibbles i (drop_bit 4 b) (m * 10 + (b AND 0b1111))"

definition bcd64tobid :: "bcd64 \<Rightarrow> d64" where
  "bcd64tobid b =
     assemble_bid (horner_nibbles 15 (drop_bit 4 (mirror_nibbles (bcd_mant b))) 0)
       (word_of_int (bcd_expo b + 398)) (word_of_int (bcd_sign b))"

definition bcd64todpd :: "bcd64 \<Rightarrow> d64" where
  "bcd64todpd b =
     (let m = bcd_mant b; u = push_bit 63 (word_of_int (bcd_sign b));
          rex = (word_of_int (bcd_expo b + 398) :: 32 word);
          u = u XOR ucast (pack_declet (ucast (m AND 0xFFF)));
          m = drop_bit 12 m; u = u XOR push_bit 10 (ucast (pack_declet (ucast (m AND 0xFFF))));
          m = drop_bit 12 m; u = u XOR push_bit 20 (ucast (pack_declet (ucast (m AND 0xFFF))));
          m = drop_bit 12 m; u = u XOR push_bit 30 (ucast (pack_declet (ucast (m AND 0xFFF))));
          m = drop_bit 12 m; u = u XOR push_bit 40 (ucast (pack_declet (ucast (m AND 0xFFF))));
          m = drop_bit 12 m;
          rex = (if m \<ge> 8
                 then push_bit 1 (rex AND 0b1100000000) XOR (rex AND 0b0011111111) XOR 0b1100000000000
                 else push_bit 3 (rex AND 0b1100000000) XOR (rex AND 0b0011111111));
          u = u XOR push_bit 50 (ucast rex);
          u = u XOR push_bit 58 (m AND 0x7)
      in bobs64 u)"

subsection \<open>Reading strings\<close>

definition deref_c :: "string \<Rightarrow> char" where
  "deref_c sp = (case sp of [] \<Rightarrow> CHR 0x00 | c # _ \<Rightarrow> c)"

definition cval :: "char \<Rightarrow> nat" where
  "cval c = of_char c"

definition isdig :: "char \<Rightarrow> bool" where
  "isdig c \<longleftrightarrow> 48 \<le> cval c \<and> cval c \<le> 57"

definition digU :: "char \<Rightarrow> 64 word" where
  "digU c = of_nat (cval c - 48)"

text \<open>
  \<open>round_bcd64\<close>: the sum \<open>(mant & 0b1111U) + roff\<close> is unsigned, the complement \<open>~0b1111U\<close> is a
  32 bit constant that is widened with zeros, and the loop need not stop.
\<close>

partial_function (option) round_bcd64_loop ::
    "64 word \<Rightarrow> int \<Rightarrow> nat \<Rightarrow> (64 word \<times> 64 word \<times> nat) option" where
  "round_bcd64_loop mant roff sh =
     (let x = (mant AND 0b1111) + word_of_int roff in
      if x > 9 then round_bcd64_loop (drop_bit 4 mant) roff (sh + 4) else Some (mant, x, sh))"

declare round_bcd64_loop.simps [code]

definition round_bcd64 :: "64 word \<Rightarrow> int \<Rightarrow> 64 word option" where
  "round_bcd64 mant roff = do {
     (mant, x, sh) \<leftarrow> round_bcd64_loop mant roff 0;
     Some (push_bit sh ((mant AND ucast (NOT 0b1111 :: 32 word)) XOR x))
   }"

text \<open>Up to \<open>nd\<close> digits into the mantissa; the second loop counts them off the exponent.\<close>

fun scan_digits :: "nat \<Rightarrow> string \<Rightarrow> 64 word \<Rightarrow> nat \<times> string \<times> 64 word" where
  "scan_digits nd [] mant = (nd, [], mant)"
| "scan_digits nd (c # sp) mant =
     (if isdig c \<and> nd > 0 then scan_digits (nd - 1) sp (push_bit 4 mant OR digU c)
      else (nd, c # sp, mant))"

fun scan_fraction :: "nat \<Rightarrow> string \<Rightarrow> 64 word \<Rightarrow> int \<Rightarrow> nat \<times> string \<times> 64 word \<times> int" where
  "scan_fraction nd [] mant expo = (nd, [], mant, expo)"
| "scan_fraction nd (c # sp) mant expo =
     (if isdig c \<and> nd > 0 then scan_fraction (nd - 1) sp (push_bit 4 mant OR digU c) (expo - 1)
      else (nd, c # sp, mant, expo))"

fun skip_digits :: "string \<Rightarrow> int \<Rightarrow> string \<times> int" where
  "skip_digits [] expo = ([], expo)"
| "skip_digits (c # sp) expo = (if isdig c then skip_digits sp (expo + 1) else (c # sp, expo))"

definition half_up :: "string \<Rightarrow> int" where
  "half_up sp = (if 53 \<le> cval (deref_c sp) \<and> cval (deref_c sp) \<le> 57 then 1 else 0)"

definition strtobcd64 :: "string \<Rightarrow> (bcd64 \<times> string) option" where
  "strtobcd64 src =
     (let (sign, sp) = (if deref_c src = CHR ''-'' then (1, tl src)
                        else if deref_c src = CHR ''+'' then (0, tl src) else (0, src));
          sp = dropWhile (\<lambda>c. c = CHR ''0'') sp;
          (nd, sp, mant) = scan_digits 15 sp 0;
          roff = half_up sp;
          (sp, expo) = skip_digits sp 0;
          (roff, mant, expo, sp) =
            (if deref_c sp = CHR ''.'' \<and> nd > 0 then
               (let (nd, sp, mant, expo) = scan_fraction nd (tl sp) mant expo in
                (roff + half_up sp, mant, expo, dropWhile isdig sp))
             else if deref_c sp = CHR ''.'' then
               (roff + half_up sp, mant, expo, dropWhile isdig (tl sp))
             else (roff, mant, expo, sp))
      in do {
        mant \<leftarrow> (if roff \<noteq> 0 then round_bcd64 mant (if sign \<noteq> 0 then - 1 else 1) else Some mant);
        Some (\<lparr>bcd_mant = mant, bcd_expo = expo, bcd_sign = sign\<rparr>, sp)
      })"

definition strtobid64 :: "string \<Rightarrow> (d64 \<times> string) option" where
  "strtobid64 src = do { (b, on) \<leftarrow> strtobcd64 src; Some (bcd64tobid b, on) }"

definition strtodpd64 :: "string \<Rightarrow> (d64 \<times> string) option" where
  "strtodpd64 src = do { (b, on) \<leftarrow> strtobcd64 src; Some (bcd64todpd b, on) }"

definition strtod64 :: "string \<Rightarrow> (d64 \<times> string) option" where
  "strtod64 src = strtobid64 src"

subsection \<open>Writing strings\<close>

text \<open>
  \<open>bcd64tostr\<close> fills its buffer backwards and reverses it. The loops carry the room left in the
  buffer; the result is the text written, its length is what the C function returns.
\<close>

definition Cchr :: "64 word \<Rightarrow> char" where
  "Cchr x = char_of (unat x + 48)"

fun bcd_frac :: "nat \<Rightarrow> int \<Rightarrow> 64 word \<Rightarrow> string \<times> nat \<times> int \<times> 64 word" where
  "bcd_frac 0 expo mant = ([], 0, expo, mant)"
| "bcd_frac (Suc room) expo mant =
     (if expo < 0
      then (case bcd_frac room (expo + 1) (drop_bit 4 mant) of
              (ws, r) \<Rightarrow> (Cchr (mant AND 0b1111) # ws, r))
      else ([], Suc room, expo, mant))"

fun bcd_zeros :: "nat \<Rightarrow> int \<Rightarrow> string \<times> nat" where
  "bcd_zeros 0 expo = ([], 0)"
| "bcd_zeros (Suc room) expo =
     (if expo > 0 then (case bcd_zeros room (expo - 1) of (ws, r) \<Rightarrow> (CHR ''0'' # ws, r))
      else ([], Suc room))"

fun bcd_mants :: "nat \<Rightarrow> 64 word \<Rightarrow> string \<times> nat" where
  "bcd_mants 0 mant = ([], 0)"
| "bcd_mants (Suc room) mant =
     (if mant \<noteq> 0
      then (case bcd_mants room (drop_bit 4 mant) of (ws, r) \<Rightarrow> (Cchr (mant AND 0b1111) # ws, r))
      else ([], Suc room))"

definition bcd64tostr :: "nat \<Rightarrow> bcd64 \<Rightarrow> string" where
  "bcd64tostr bsz b =
     (let (w1, room, expo, mant) = bcd_frac bsz (bcd_expo b) (bcd_mant b);
          (w2, room) = (if w1 \<noteq> [] \<and> room > 0 then (''.'', room - 1) else ([], room));
          (w3, room) = bcd_zeros room expo;
          (w4, room) = (if mant \<noteq> 0 then bcd_mants room mant
                        else if room > 0 then (''0'', room - 1) else ([], room));
          w5 = (if bcd_sign b \<noteq> 0 \<and> room > 0 then ''-'' else [])
      in rev (w1 @ w2 @ w3 @ w4 @ w5))"

text \<open>Sixteen decimal digits into sixteen nibbles, the last digit lowest.\<close>

fun bcd_encode :: "nat \<Rightarrow> 64 word \<Rightarrow> 64 word \<Rightarrow> 64 word" where
  "bcd_encode 0 bcdm m = bcdm"
| "bcd_encode (Suc i) bcdm m =
     bcd_encode i (drop_bit 4 bcdm XOR push_bit 60 (m mod 10)) (m div 10)"

definition bid64tostr :: "nat \<Rightarrow> d64 \<Rightarrow> string" where
  "bid64tostr bsz x =
     (let e = quantexpbid64 x; m = mant_bid64 x; s = (if m \<noteq> 0 then sign_bid64 x else 0)
      in bcd64tostr bsz \<lparr>bcd_mant = bcd_encode 16 0 m, bcd_expo = e, bcd_sign = s\<rparr>)"

definition unpack_mant64 :: "64 word \<Rightarrow> 64 word \<Rightarrow> 64 word" where
  "unpack_mant64 tp m =
     (let b = tp XOR ucast (unpack_declet (ucast (drop_bit 40 m AND 0x3FF)));
          b = push_bit 12 b XOR ucast (unpack_declet (ucast (drop_bit 30 m AND 0x3FF)));
          b = push_bit 12 b XOR ucast (unpack_declet (ucast (drop_bit 20 m AND 0x3FF)));
          b = push_bit 12 b XOR ucast (unpack_declet (ucast (drop_bit 10 m AND 0x3FF)))
      in push_bit 12 b XOR ucast (unpack_declet (ucast (drop_bit 0 m AND 0x3FF))))"

definition dpd64tostr :: "nat \<Rightarrow> d64 \<Rightarrow> string" where
  "dpd64tostr bsz x =
     (let e = quantexpdpd64 x; m = mant_dpd64 x in
      if m \<noteq> 0
      then bcd64tostr bsz \<lparr>bcd_mant = unpack_mant64 (push_bit 12 (drop_bit 50 m)) m,
                          bcd_expo = e, bcd_sign = sign_dpd64 x\<rparr>
      else bcd64tostr bsz \<lparr>bcd_mant = m, bcd_expo = e, bcd_sign = 0\<rparr>)"

definition d64tostr :: "nat \<Rightarrow> d64 \<Rightarrow> string" where
  "d64tostr bsz x =
     (if isnand64 x then take (min 3 bsz) ''nan''
      else if isinfd64 x then
        (if x < 0 then take (min 4 bsz) ''-inf'' else take (min 3 bsz) ''inf'')
      else bid64tostr bsz x)"

subsection \<open>Quantisation and scaling\<close>

function quant_trunc :: "64 word \<Rightarrow> int \<Rightarrow> int \<Rightarrow> 64 word \<times> int" where
  "quant_trunc m ex er =
     (if ex < er then quant_trunc (m div 10 + (if m mod 10 \<ge> 5 then 1 else 0)) (ex + 1) er
      else (m, ex))"
  by pat_completeness auto
termination
  by (relation "measure (\<lambda>(m, ex, er). nat (er - ex))") auto

function quant_expand :: "64 word \<Rightarrow> int \<Rightarrow> int \<Rightarrow> 64 word \<times> int" where
  "quant_expand m ex er =
     (if m < 100000000000000 \<and> ex > er then quant_expand (m * 10) (ex - 1) er else (m, ex))"
  by pat_completeness auto
termination
  by (relation "measure (\<lambda>(m, ex, er). nat (ex - er))") auto

declare quant_trunc.simps [simp del] quant_expand.simps [simp del]

definition quantizebid64 :: "d64 \<Rightarrow> d64 \<Rightarrow> d64" where
  "quantizebid64 x r =
     (let er = quantexpbid64 r; ex = quantexpbid64 x; m = mant_bid64 x;
          (m, ex) = quant_trunc m ex er;
          (m, ex) = quant_expand m ex er
      in assemble_bid m (word_of_int (ex + 398)) (word_of_int (sign_bid64 x)))"

definition quantized64 :: "d64 \<Rightarrow> d64 \<Rightarrow> d64" where
  "quantized64 x r = quantizebid64 x r"

function bcd_trunc :: "64 word \<Rightarrow> int \<Rightarrow> int \<Rightarrow> 64 word \<times> int" where
  "bcd_trunc b ex er =
     (if ex < er then bcd_trunc (drop_bit 4 b + (if b AND 0xF \<ge> 5 then 1 else 0)) (ex + 1) er
      else (b, ex))"
  by pat_completeness auto
termination
  by (relation "measure (\<lambda>(b, ex, er). nat (er - ex))") auto

function bcd_expand :: "64 word \<Rightarrow> int \<Rightarrow> int \<Rightarrow> 64 word \<times> int" where
  "bcd_expand b ex er =
     (if b < 0x100000000000000 \<and> ex > er then bcd_expand (push_bit 4 b) (ex - 1) er else (b, ex))"
  by pat_completeness auto
termination
  by (relation "measure (\<lambda>(b, ex, er). nat (ex - er))") auto

declare bcd_trunc.simps [simp del] bcd_expand.simps [simp del]

lemma bcd_carry_less:
  assumes "b AND 0xF \<ge> (10 :: 64 word)"
  shows "unat (drop_bit 4 b + 1) < unat b"
proof -
  have "(10 :: 64 word) \<le> b" using assms word_and_le2 [of b "0xF"] by (rule order_trans)
  then have ge: "10 \<le> unat b" by (simp add: word_le_nat_alt)
  have "unat (drop_bit 4 b) = unat b div 16" by (simp add: drop_bit_eq_div unat_div)
  moreover have "unat (drop_bit 4 b + 1) \<le> unat (drop_bit 4 b) + 1"
    by (simp add: unat_word_ariths)
  ultimately show ?thesis using ge by linarith
qed

function bcd_carry :: "64 word \<Rightarrow> nat \<Rightarrow> 64 word \<times> nat" where
  "bcd_carry b i = (if b AND 0xF \<ge> 10 then bcd_carry (drop_bit 4 b + 1) (i + 1) else (b, i))"
  by pat_completeness auto
termination
  by (relation "measure (\<lambda>(b, i). unat b)") (auto dest: bcd_carry_less)

declare bcd_carry.simps [simp del]

definition quantizedpd64 :: "d64 \<Rightarrow> d64 \<Rightarrow> d64" where
  "quantizedpd64 x r =
     (let er = quantexpdpd64 r; ex = quantexpdpd64 x; m = mant_dpd64 x;
          b = unpack_mant64 (drop_bit 8 (m AND 0x3C000000000000)) m;
          (b, ex) = bcd_trunc b ex er;
          (b, i) = bcd_carry b 0;
          b = push_bit (4 * i) b;
          (b, ex) = bcd_expand b ex er
      in bcd64todpd \<lparr>bcd_mant = b, bcd_expo = ex, bcd_sign = sign_dpd64 x\<rparr>)"

definition scalbnbid64 :: "d64 \<Rightarrow> int \<Rightarrow> d64" where
  "scalbnbid64 x n =
     (let b = bits64 x in
      if b AND 0x6000000000000000 = 0x6000000000000000
      then (let u = drop_bit 51 b AND 0x3FF; u = (u XOR (u + word_of_int n)) AND 0x3FF
            in bobs64 (b XOR push_bit 51 u))
      else (let u = drop_bit 53 b AND 0x3FF; u = (u XOR (u + word_of_int n)) AND 0x3FF
            in bobs64 (b XOR push_bit 53 u)))"

definition scalbndpd64 :: "d64 \<Rightarrow> int \<Rightarrow> d64" where
  "scalbndpd64 x n =
     (let b = bits64 x in
      if b AND 0x6000000000000000 = 0x6000000000000000
      then (let u = (drop_bit 50 b AND 0xFF) XOR (drop_bit 51 b AND 0x300);
                u = u XOR (u + word_of_int n);
                u = (u AND 0xFF) XOR push_bit 1 (u AND 0x300)
            in bobs64 (b XOR push_bit 50 u))
      else (let u = (drop_bit 50 b AND 0xFF) XOR (drop_bit 53 b AND 0x300);
                u = u XOR (u + word_of_int n);
                u = (u AND 0xFF) XOR push_bit 3 (u AND 0x300)
            in bobs64 (b XOR push_bit 50 u)))"

definition scalbnd64 :: "d64 \<Rightarrow> int \<Rightarrow> d64" where
  "scalbnd64 x n = scalbnbid64 x n"

definition decompd64 :: "d64 \<Rightarrow> bcd64" where
  "decompd64 x = \<lparr>bcd_mant = mant_bid64 x, bcd_expo = quantexpbid64 x, bcd_sign = sign_bid64 x\<rparr>"

subsection \<open>Declets: there and back\<close>

lemma bits32_eq_iff:
  "a = (b :: 32 word) \<longleftrightarrow> list_all (\<lambda>n. bit a n = bit b n)
     [0, 1, 2, 3, 4, 5, 6, 7, 8, 9, 10, 11, 12, 13, 14, 15, 16,
      17, 18, 19, 20, 21, 22, 23, 24, 25, 26, 27, 28, 29, 30, 31]"
  (is "_ \<longleftrightarrow> list_all _ ?ns")
proof -
  have "?ns = [0..<32]" by (simp add: upt_rec)
  then show ?thesis by (auto simp only: list_all_iff set_upt atLeastLessThan_iff intro!: bit_word_eqI) simp_all
qed

lemma nibble_take: "(x :: 32 word) AND 0xF = take_bit 4 x"
  by (simp add: take_bit_eq_mask mask_eq_exp_minus_1)

lemma nibble_large: "(x :: 32 word) AND 0xF \<ge> 8 \<longleftrightarrow> bit x 3"
proof -
  have "8 \<le> take_bit 4 (uint x) \<longleftrightarrow> bit (uint x) 3"
    by (simp add: take_bit_eq_mod bit_iff_odd) presburger
  then show ?thesis by (simp add: nibble_take word_le_def unsigned_take_bit_eq bit_uint_iff)
qed

lemma nibble_digit:
  assumes "(x :: 32 word) AND 0xF \<le> 9" "bit x 3"
  shows "\<not> bit x 1 \<and> \<not> bit x 2"
proof -
  let ?y = "take_bit 4 (uint x)"
  have "?y \<le> 9" "0 \<le> ?y" using assms(1) by (simp_all add: nibble_take word_le_def unsigned_take_bit_eq)
  then have "?y = 0 \<or> ?y = 1 \<or> ?y = 2 \<or> ?y = 3 \<or> ?y = 4 \<or> ?y = 5 \<or> ?y = 6 \<or> ?y = 7 \<or> ?y = 8 \<or> ?y = 9" by presburger
  moreover have "bit x k = bit ?y k" if "k < 4" for k using that by (simp add: bit_take_bit_iff bit_uint_iff)
  ultimately show ?thesis using assms(2) by (elim disjE) simp_all
qed

lemma nib_eqs:
  "(w :: 32 word) AND 0b111 = 0b100 \<longleftrightarrow> bit w 2 \<and> \<not> bit w 1 \<and> \<not> bit w 0"
  "w AND 0b111 = 0b101 \<longleftrightarrow> bit w 2 \<and> \<not> bit w 1 \<and> bit w 0"
  "w AND 0b111 = 0b110 \<longleftrightarrow> bit w 2 \<and> bit w 1 \<and> \<not> bit w 0"
  "w AND 0b111 = 0b111 \<longleftrightarrow> bit w 2 \<and> bit w 1 \<and> bit w 0"
  "w AND 0b11 = 0b10 \<longleftrightarrow> bit w 1 \<and> \<not> bit w 0"
  "w AND 0b11 = 0b01 \<longleftrightarrow> \<not> bit w 1 \<and> bit w 0"
  "w AND 0b11 = 0b00 \<longleftrightarrow> \<not> bit w 1 \<and> \<not> bit w 0"
  "w AND 0b1000 = 0 \<longleftrightarrow> \<not> bit w 3"
  unfolding bits32_eq_iff by (auto simp: bit_and_iff)

text \<open>Three decimal digits in three nibbles.\<close>

definition bcd_digits :: "32 word \<Rightarrow> bool" where
  "bcd_digits x \<longleftrightarrow> drop_bit 12 x = 0 \<and> x AND 0xF \<le> 9 \<and> drop_bit 4 x AND 0xF \<le> 9 \<and>
     drop_bit 8 x AND 0xF \<le> 9"

lemma bcd_digits_bits:
  assumes "bcd_digits x"
  shows "12 \<le> n \<Longrightarrow> \<not> bit x n" "bit x 3 \<longrightarrow> \<not> bit x (Suc 0) \<and> \<not> bit x 2"
    "bit x 7 \<longrightarrow> \<not> bit x 5 \<and> \<not> bit x 6" "bit x 11 \<longrightarrow> \<not> bit x 9 \<and> \<not> bit x 10"
proof -
  have "bit (drop_bit 12 x) m = bit x (12 + m)" for m by (simp add: bit_drop_bit_eq)
  then have "\<not> bit x (12 + m)" for m using assms by (simp add: bcd_digits_def)
  then show "12 \<le> n \<Longrightarrow> \<not> bit x n" by (metis le_add_diff_inverse)
  note lo = nibble_digit [of x] nibble_digit [of "drop_bit 4 x"] nibble_digit [of "drop_bit 8 x"]
  show "bit x 3 \<longrightarrow> \<not> bit x (Suc 0) \<and> \<not> bit x 2" "bit x 7 \<longrightarrow> \<not> bit x 5 \<and> \<not> bit x 6"
    "bit x 11 \<longrightarrow> \<not> bit x 9 \<and> \<not> bit x 10"
    using lo assms by (auto simp: bcd_digits_def bit_drop_bit_eq)
qed

lemma unpack_pack_declet:
  assumes "bcd_digits x"
  shows "unpack_declet (pack_declet x) = x"
  by (cases "bit x 3"; cases "bit x 7"; cases "bit x 11")
    (simp_all add: pack_declet_def Let_def nibble_large bit_drop_bit_eq,
     simp_all add: unpack_declet_def Let_def nib_eqs bit_simps bcd_digits_bits [OF assms],
     simp_all only: bits32_eq_iff, simp_all add: bit_simps bcd_digits_bits [OF assms])

subsection \<open>The binary encoding: there and back\<close>

lemma assemble_bid_encodes:
  assumes c: "0 \<le> c" "c < 2 ^ 53" and e: "- 398 \<le> e" "e \<le> 369"
  shows "assemble_bid (word_of_int c) (word_of_int (e + 398)) (if s then - 1 else 0) = d64_of_dec (DFin s c e)"
proof -
  define E where "E = (word_of_int (e + 398) :: 64 word)"
  define S where "S = (if s then 0x8000000000000000 else 0 :: 64 word)"
  have S: "bit S n \<longleftrightarrow> s \<and> n = 63" for n by (cases s) (simp_all only: S_def if_True if_False bit_consts bit_0_eq, auto)
  have top: "push_bit 63 (if s then - 1 else 0 :: 64 word) = S"
    by (rule bit_word_eqI) (cases s, auto simp: S bit_push_bit_iff bit_not_iff bit_mask_iff)
  have small: "\<not> bit (word_of_int c :: 64 word) n" if "53 \<le> n" for n
    using bit_small_int [OF c that] by (simp add: bit_word_of_int_iff)
  have E: "\<not> bit E n" if "10 \<le> n" for n
    using bit_small_int [of "e + 398" 10 n] e that unfolding E_def bit_word_of_int_iff by simp
  have m: "word_of_int c AND 0x1FFFFFFFFFFFFF = (word_of_int c :: 64 word)"
    by (rule bit_word_eqI, unfold bit_and_iff bit_consts) (use small not_less in blast)
  have "(word_of_int c :: 64 word) AND push_bit 53 1 = 0"
    by (rule bit_word_eqI, unfold bit_and_iff bit_push_bit_iff bit_0_eq) (use small in auto)
  then have "assemble_bid (word_of_int c) E (if s then - 1 else 0) = bobs64 (S XOR push_bit 53 E XOR word_of_int c)"
    unfolding assemble_bid_def top m Let_def by simp
  moreover have "S XOR push_bit 53 E XOR (word_of_int c :: 64 word) = S OR (push_bit 53 E OR word_of_int c)"
    by (rule bit_word_eqI, unfold bit_or_iff bit_xor_iff bit_push_bit_iff S) (use small E in \<open>auto simp: not_less\<close>)
  ultimately show ?thesis using c(2) by (simp add: d64_of_dec_def E_def S_def)
qed

lemma decomp_fin:
  assumes c: "0 \<le> c" "c < 2 ^ 53" and e: "- 398 \<le> e" "e \<le> 369"
  shows "mant_bid64 (d64_of_dec (DFin s c e)) = word_of_int c"
   "c \<noteq> 0 \<or> e \<noteq> - 398 \<Longrightarrow> quantexpbid64 (d64_of_dec (DFin s c e)) = e"
   "sign_bid64 (d64_of_dec (DFin s c e)) = (if s then - 1 else 0)"
proof -
  note f = d64_fin_fields [OF assms, of s]
  let ?x = "d64_of_dec (DFin s c e)"
  have "bits64 ?x AND 0x1FFFFFFFFFFFFF = word_of_int c" using f(2) by (metis word_of_int_uint)
  then show "mant_bid64 ?x = word_of_int c" using f(1) by (simp add: mant_bid64_def Let_def)
  show "quantexpbid64 ?x = e" if "c \<noteq> 0 \<or> e \<noteq> - 398"
  proof -
    have "bits64 ?x \<noteq> 0"
    proof
      assume "bits64 ?x = 0"
      then show False using f(2,3) that by simp
    qed
    then show ?thesis using f(1,3) by (simp add: quantexpbid64_def Let_def)
  qed
  show "sign_bid64 ?x = (if s then - 1 else 0)"
  proof -
    have "bit (signed_drop_bit 63 (bits64 ?x)) n = s" if "n < 64" for n
      using f(4) that by (cases "n = 0") (auto simp: bit_signed_drop_bit_iff)
    then have "signed_drop_bit 63 (bits64 ?x) = (if s then - 1 else 0)"
      by (intro bit_word_eqI) auto
    then show ?thesis by (simp add: sign_bid64_def)
  qed
qed

subsection \<open>Properties\<close>

text \<open>
  Assembling a decimal from sign, significand and exponent gives the encoding of that number, and
  taking it apart returns the three parts (the sign as 0 or \<open>-1\<close>), for significands below \<open>2\<^sup>5\<^sup>3\<close> and all
  exponents of the format.
\<close>

lemma bid_round_trip:
  fixes c e :: int and s :: bool
  defines "x \<equiv> assemble_bid (word_of_int c) (word_of_int (e + 398)) (if s then - 1 else 0)"
  assumes "0 < c" "c < 2 ^ 53" "- 398 \<le> e" "e \<le> 369"
  shows "dec_of_d64 x = DFin s c e \<and>
    decompd64 x = \<lparr>bcd_mant = word_of_int c, bcd_expo = e, bcd_sign = (if s then - 1 else 0)\<rparr>"
  using assms(2-5) assemble_bid_encodes [of c e s] dec_of_d64_fin [of c e s] decomp_fin [of c e s]
  unfolding x_def decompd64_def by simp

end
