(* ===== verification/Books.thy ===== *)
theory Books
  imports Btree_Iter Dfp754_d64
begin

text \<open>
  The order books of \<open>src/src/books.c\<close> and \<open>books.h\<close>, 64 bit instance: a book is a pair of trees, one
  per side. Each tree owns its nodes, so a side is the heap of its tree together with the address of
  the root. A result \<open>None\<close> is undefined behaviour of the C code (a side outside the array, a null
  pointer) or a walk that does not end. Allocation is assumed to succeed, as the code does. The
  decimal division is written \<open>div\<close>.
\<close>

subsection \<open>Data\<close>

type_synonym px_t = d64
type_synonym qx_t = d64

text \<open>The enumerations are the integers of the C code, which also carries values outside of them.\<close>

type_synonym book_side_t = nat
type_synonym book_lvl_t = nat

abbreviation (input) BOOK_SIDE_UNK :: book_side_t where "BOOK_SIDE_UNK \<equiv> 0"
abbreviation (input) BOOK_SIDE_ASK :: book_side_t where "BOOK_SIDE_ASK \<equiv> 1"
abbreviation (input) BOOK_SIDE_BID :: book_side_t where "BOOK_SIDE_BID \<equiv> 2"
abbreviation (input) BOOK_SIDE_CLR :: book_side_t where "BOOK_SIDE_CLR \<equiv> 3"
abbreviation (input) BOOK_SIDE_DEL :: book_side_t where "BOOK_SIDE_DEL \<equiv> 4"
abbreviation (input) NBOOK_SIDES :: book_side_t where "NBOOK_SIDES \<equiv> 5"

abbreviation (input) BOOK_LVL_0 :: book_lvl_t where "BOOK_LVL_0 \<equiv> 0"
abbreviation (input) BOOK_LVL_1 :: book_lvl_t where "BOOK_LVL_1 \<equiv> 1"
abbreviation (input) BOOK_LVL_2 :: book_lvl_t where "BOOK_LVL_2 \<equiv> 2"
abbreviation (input) BOOK_LVL_3 :: book_lvl_t where "BOOK_LVL_3 \<equiv> 3"

type_synonym side = "heap \<times> btree_t"

record book_t =
  quos :: "side list"

record book_pdo_t =
  pdo_base :: qx_t
  pdo_term :: qx_t
  pdo_yngt :: tv
  pdo_oldt :: tv

record book_quo_t =
  q_s :: book_side_t
  q_f :: book_lvl_t
  q_p :: px_t
  q_q :: qx_t
  q_t :: tv

definition NOT_A_QUO :: book_quo_t where
  "NOT_A_QUO = \<lparr>q_s = BOOK_SIDE_UNK, q_f = 0, q_p = bobs64 0, q_q = bobs64 0, q_t = 0\<rparr>"

definition NOT_A_QUO_P :: "book_quo_t \<Rightarrow> bool" where
  "NOT_A_QUO_P x \<longleftrightarrow> q_s x = 0"

text \<open>\<open>b.BOOK(s)\<close>; the index is \<open>s - 1U\<close>, which wraps around for side 0.\<close>

definition BOOK :: "book_t \<Rightarrow> book_side_t \<Rightarrow> side option" where
  "BOOK b s = (if s = 0 then None else nth_opt (quos b) (s - 1))"

definition set_side :: "book_t \<Rightarrow> book_side_t \<Rightarrow> heap \<Rightarrow> book_t" where
  "set_side b s h = b\<lparr>quos := (quos b)[s - 1 := (h, snd (quos b ! (s - 1)))]\<rparr>"

definition min_tv :: "tv \<Rightarrow> tv \<Rightarrow> tv" where
  "min_tv t1 t2 = (if t1 \<le> t2 then t1 else t2)"

definition max_tv :: "tv \<Rightarrow> tv \<Rightarrow> tv" where
  "max_tv t1 t2 = (if t1 \<ge> t2 then t1 else t2)"

definition make_book :: book_t where
  "make_book = \<lparr>quos = [make_btree [] False, make_btree [] True]\<rparr>"

definition free_book :: "book_t \<Rightarrow> side list option" where
  "free_book b = do {
     (ha, ta) \<leftarrow> nth_opt (quos b) 0; ha \<leftarrow> free_btree ha ta;
     (hb, tb) \<leftarrow> nth_opt (quos b) 1; hb \<leftarrow> free_btree hb tb;
     Some [(ha, ta), (hb, tb)]
   }"

subsection \<open>The loops over a side\<close>

text \<open>
  \<open>for (; P(s) && btree_iter_next(&i) && C(i.k);) s = f(i.k, *i.v, s);\<close> and
  \<open>for (; btree_iter_next(&i) && C(i.k);) *i.v = f(i.k, *i.v);\<close>
\<close>

partial_function (option) iter_loop :: "('s \<Rightarrow> bool) \<Rightarrow> (px_t \<Rightarrow> bool) \<Rightarrow> (px_t \<Rightarrow> btree_val \<Rightarrow> 's \<Rightarrow> 's) \<Rightarrow>
    heap \<Rightarrow> btree_iter \<Rightarrow> 's \<Rightarrow> (heap \<times> btree_iter \<times> 's) option" where
  "iter_loop P C f h it s =
     (if P s then do {
        (h, it, b) \<leftarrow> btree_iter_next h it;
        if b \<and> C (it_k it) then do { v \<leftarrow> iter_load h it; iter_loop P C f h it (f (it_k it) v s) }
        else Some (h, it, s)
      } else Some (h, it, s))"

partial_function (option) iter_update :: "(px_t \<Rightarrow> bool) \<Rightarrow> (px_t \<Rightarrow> btree_val \<Rightarrow> btree_val) \<Rightarrow>
    heap \<Rightarrow> btree_iter \<Rightarrow> heap option" where
  "iter_update C f h it = do {
     (h, it, b) \<leftarrow> btree_iter_next h it;
     if b \<and> C (it_k it)
     then do { v \<leftarrow> iter_load h it; h \<leftarrow> iter_write h it (f (it_k it) v); iter_update C f h it }
     else Some h
   }"

declare iter_loop.simps [code] iter_update.simps [code]

subsection \<open>Changing a book\<close>

text \<open>The level treatment: find or make the level, overwrite it and hand out what was there.\<close>

definition swap_level :: "book_t \<Rightarrow> book_quo_t \<Rightarrow> (btree_val \<Rightarrow> btree_val) \<Rightarrow> (book_t \<times> book_quo_t) option" where
  "swap_level b q f = do {
     (h, t) \<leftarrow> BOOK b (q_s q);
     (h, tmp) \<leftarrow> btree_put h t (q_p q);
     v \<leftarrow> load_val h tmp;
     h \<leftarrow> store_val h tmp (f v);
     Some (set_side b (q_s q) h, q\<lparr>q_q := val_q v, q_t := val_t v\<rparr>)
   }"

definition clr_side :: "book_t \<Rightarrow> book_side_t \<Rightarrow> book_t option" where
  "clr_side b s = do { (h, t) \<leftarrow> BOOK b s; h \<leftarrow> btree_clr h t; Some (set_side b s h) }"

definition update_side :: "book_t \<Rightarrow> book_side_t \<Rightarrow> (px_t \<Rightarrow> bool) \<Rightarrow> (px_t \<Rightarrow> btree_val \<Rightarrow> btree_val) \<Rightarrow>
    book_t option" where
  "update_side b s C f = do {
     (h, t) \<leftarrow> BOOK b s; h \<leftarrow> iter_update C f h (iter_init t); Some (set_side b s h) }"

definition book_clr :: "book_t \<Rightarrow> book_t option" where
  "book_clr b = do { b \<leftarrow> clr_side b BOOK_SIDE_BID; clr_side b BOOK_SIDE_ASK }"

definition book_add :: "book_t \<Rightarrow> book_quo_t \<Rightarrow> (book_t \<times> book_quo_t) option" where
  "book_add b q =
     (if q_s q = BOOK_SIDE_BID \<or> q_s q = BOOK_SIDE_ASK then
        (if q_f q = BOOK_LVL_3 then
           swap_level b q (\<lambda>v. let s = q_q q + val_q v in \<lparr>val_q = (if s \<ge> 0 then s else 0), val_t = q_t q\<rparr>)
         else if q_f q = BOOK_LVL_2 then swap_level b q (\<lambda>v. \<lparr>val_q = q_q q, val_t = q_t q\<rparr>)
         else if q_f q = BOOK_LVL_1 then
           (if q_q q < 0 then Some (b, NOT_A_QUO)
            else do {
              b \<leftarrow> clr_side b (q_s q);
              if isnand64 (q_p q) then Some (b, q)
              else swap_level b q (\<lambda>v. \<lparr>val_q = q_q q, val_t = q_t q\<rparr>)
            })
         else Some (b, NOT_A_QUO))
      else if q_s q = BOOK_SIDE_CLR then do { b \<leftarrow> book_clr b; Some (b, q) }
      else if q_s q = BOOK_SIDE_DEL then do {
        b \<leftarrow> update_side b BOOK_SIDE_ASK (\<lambda>k. k \<le> q_p q)
               (\<lambda>k v. v\<lparr>val_q := if k < q_p q then 0 else val_q v - q_q q\<rparr>);
        b \<leftarrow> update_side b BOOK_SIDE_BID (\<lambda>k. k \<ge> q_p q)
               (\<lambda>k v. v\<lparr>val_q := if k > q_p q then 0 else val_q v - q_q q\<rparr>);
        Some (b, q)
      }
      else Some (b, NOT_A_QUO))"

definition book_exp :: "book_t \<Rightarrow> tv \<Rightarrow> book_t option" where
  "book_exp b t =
     (if t = 0 then Some b
      else if t = NATV then book_clr b
      else do {
        b \<leftarrow> update_side b BOOK_SIDE_ASK (\<lambda>_. True) (\<lambda>k v. if val_t v \<le> t then btree_val_nil else v);
        update_side b BOOK_SIDE_BID (\<lambda>_. True) (\<lambda>k v. if val_t v \<le> t then btree_val_nil else v)
      })"

subsection \<open>Reading a book\<close>

definition book_top :: "book_t \<Rightarrow> book_side_t \<Rightarrow> (book_t \<times> book_quo_t) option" where
  "book_top b s = do {
     (h, t) \<leftarrow> BOOK b s;
     (h, i, ok) \<leftarrow> btree_iter_next h (iter_init t);
     let b = set_side b s h;
     if \<not> ok then Some (b, NOT_A_QUO)
     else do {
       v \<leftarrow> iter_load h i;
       Some (b, \<lparr>q_s = s, q_f = BOOK_LVL_1, q_p = it_k i, q_q = val_q v, q_t = val_t v\<rparr>)
     }
   }"

text \<open>
  The functions that fill caller-supplied arrays write the entries \<open>0, \<dots>, j - 1\<close> in order and return
  \<open>j\<close>: they are modelled by the list of the entries written, its length being the result. The flag
  \<open>qp\<close> says whether an array for the quantities is given.
\<close>

definition book_tops :: "book_t \<Rightarrow> book_side_t \<Rightarrow> nat \<Rightarrow> bool \<Rightarrow>
    (book_t \<times> (px_t \<times> qx_t option) list) option" where
  "book_tops b s n qp = do {
     (h, t) \<leftarrow> BOOK b s;
     (h, i, ps) \<leftarrow> iter_loop (\<lambda>ps. length ps < n) (\<lambda>_. True)
        (\<lambda>k v ps. ps @ [(k, if qp then Some (val_q v) else None)]) h (iter_init t) [];
     Some (set_side b s h, ps)
   }"

text \<open>\<open>P += i.k * i.v->q; Q += i.v->q\<close>\<close>

definition consol :: "px_t \<Rightarrow> btree_val \<Rightarrow> qx_t \<times> qx_t \<Rightarrow> qx_t \<times> qx_t" where
  "consol k v = (\<lambda>(P, Q). (P + k * val_q v, Q + val_q v))"

definition book_ctop :: "book_t \<Rightarrow> book_side_t \<Rightarrow> qx_t \<Rightarrow> (book_t \<times> book_quo_t) option" where
  "book_ctop b s q = do {
     (h, t) \<leftarrow> BOOK b s;
     (h, i, P, Q) \<leftarrow> iter_loop (\<lambda>(P, Q). Q < q) (\<lambda>_. True) consol h (iter_init t) (0, 0);
     let b = set_side b s h;
     if Q < q then Some (b, NOT_A_QUO)
     else do {
       let P = (if Q > q then P - it_k i * (Q - q) else P);
       v \<leftarrow> iter_load h i;
       Some (b, \<lparr>q_s = s, q_f = BOOK_LVL_1, q_p = quantized64 (P div q) (it_k i),
                q_q = quantized64 q (val_q v), q_t = val_t v\<rparr>)
     }
   }"

text \<open>The loop of \<open>book_ctops\<close> with \<open>m\<close> entries to go, \<open>c\<close> and \<open>C\<close> consolidated so far.\<close>

primrec ctops_loop :: "nat \<Rightarrow> bool \<Rightarrow> heap \<Rightarrow> btree_iter \<Rightarrow> qx_t \<times> qx_t \<Rightarrow> qx_t \<Rightarrow> qx_t \<Rightarrow>
    (px_t \<times> qx_t option) list \<Rightarrow> (heap \<times> (px_t \<times> qx_t option) list) option" where
  "ctops_loop 0 qp h i cC R Q acc = Some (h, acc)"
| "ctops_loop (Suc m) qp h i cC R Q acc = do {
     (h, i, c, C) \<leftarrow> iter_loop (\<lambda>(c, C). C < R) (\<lambda>_. True) consol h i cC;
     if C < R then Some (h, acc)
     else do {
       let p = quantized64 ((c - it_k i * (C - R)) div R) (it_k i);
       q \<leftarrow> (if qp then do { v \<leftarrow> iter_load h i; Some (Some (quantized64 R (val_q v))) } else Some None);
       ctops_loop m qp h i (c, C) (R + Q) Q (acc @ [(p, q)])
     }
   }"

definition book_ctops :: "book_t \<Rightarrow> book_side_t \<Rightarrow> qx_t \<Rightarrow> nat \<Rightarrow> bool \<Rightarrow>
    (book_t \<times> (px_t \<times> qx_t option) list) option" where
  "book_ctops b s Q n qp = do {
     (h, t) \<leftarrow> BOOK b s;
     (h, r) \<leftarrow> ctops_loop n qp h (iter_init t) (0, 0) Q Q [];
     Some (set_side b s h, r)
   }"

definition book_vtop :: "book_t \<Rightarrow> book_side_t \<Rightarrow> qx_t \<Rightarrow> (book_t \<times> book_quo_t) option" where
  "book_vtop b s v = do {
     (h, t) \<leftarrow> BOOK b s;
     (h, i, P, Q) \<leftarrow> iter_loop (\<lambda>(P, Q). P < v) (\<lambda>_. True) consol h (iter_init t) (0, 0);
     let b = set_side b s h;
     if P < v then Some (b, NOT_A_QUO)
     else do {
       let Q = (if P > v then Q - (P - v) div it_k i else Q);
       w \<leftarrow> iter_load h i;
       Some (b, \<lparr>q_s = s, q_f = BOOK_LVL_1, q_p = quantized64 (v div Q) (it_k i),
                q_q = quantized64 Q (val_q w), q_t = val_t w\<rparr>)
     }
   }"

primrec vtops_loop :: "nat \<Rightarrow> bool \<Rightarrow> heap \<Rightarrow> btree_iter \<Rightarrow> qx_t \<times> qx_t \<Rightarrow> qx_t \<Rightarrow> qx_t \<Rightarrow>
    (px_t \<times> qx_t option) list \<Rightarrow> (heap \<times> (px_t \<times> qx_t option) list) option" where
  "vtops_loop 0 qp h i cC r v acc = Some (h, acc)"
| "vtops_loop (Suc m) qp h i cC r v acc = do {
     (h, i, c, C) \<leftarrow> iter_loop (\<lambda>(c, C). c < r) (\<lambda>_. True) consol h i cC;
     if c < r then Some (h, acc)
     else do {
       let Q = C - (c - r) div it_k i;
       let p = quantized64 (r div Q) (it_k i);
       q \<leftarrow> (if qp then do { w \<leftarrow> iter_load h i; Some (Some (quantized64 Q (val_q w))) } else Some None);
       vtops_loop m qp h i (c, C) (r + v) v (acc @ [(p, q)])
     }
   }"

definition book_vtops :: "book_t \<Rightarrow> book_side_t \<Rightarrow> qx_t \<Rightarrow> nat \<Rightarrow> bool \<Rightarrow>
    (book_t \<times> (px_t \<times> qx_t option) list) option" where
  "book_vtops b s v n qp = do {
     (h, t) \<leftarrow> BOOK b s;
     (h, r) \<leftarrow> vtops_loop n qp h (iter_init t) (0, 0) v v [];
     Some (set_side b s h, r)
   }"

definition pdo_limit :: "book_side_t \<Rightarrow> px_t \<Rightarrow> px_t" where
  "pdo_limit s lmt =
     (if \<not> isnand64 lmt then lmt
      else if s = BOOK_SIDE_BID then - INFD64
      else if s = BOOK_SIDE_ASK then INFD64
      else lmt)"

definition pdo_step :: "px_t \<Rightarrow> btree_val \<Rightarrow> book_pdo_t \<times> qx_t \<Rightarrow> book_pdo_t \<times> qx_t" where
  "pdo_step k v = (\<lambda>(r, q).
     (let Q = (if val_q v \<le> q then val_q v else q)
      in (r\<lparr>pdo_term := pdo_term r + k * Q, pdo_base := pdo_base r + Q,
            pdo_yngt := max_tv (pdo_yngt r) (val_t v), pdo_oldt := min_tv (pdo_oldt r) (val_t v)\<rparr>,
          q - Q)))"

definition book_pdo :: "book_t \<Rightarrow> book_side_t \<Rightarrow> qx_t \<Rightarrow> px_t \<Rightarrow> (book_t \<times> book_pdo_t) option" where
  "book_pdo b s q lmt = do {
     let lmt = pdo_limit s lmt;
     (h, t) \<leftarrow> BOOK b s;
     (h, i, r, q) \<leftarrow> iter_loop (\<lambda>(r, q). q > 0)
        (\<lambda>k. s = BOOK_SIDE_BID \<and> k \<ge> lmt \<or> s = BOOK_SIDE_ASK \<and> k \<le> lmt) pdo_step h (iter_init t)
        (\<lparr>pdo_base = 0, pdo_term = 0, pdo_yngt = 0, pdo_oldt = NATV\<rparr>, q);
     Some (set_side b s h, r)
   }"

subsection \<open>The public iterator\<close>

text \<open>
  \<open>book_iter_t\<close> has the layout of \<open>btree_iter_t\<close> with the pointer to the value in the place of \<open>q\<close>; the
  tree's iterator works on it through a cast. A step that fails writes a null pointer there.
\<close>

record book_iter_t =
  bi_b :: "btree_t option"
  bi_i :: nat
  bi_p :: px_t
  bi_q :: qx_t
  bi_t :: tv

definition book_iter :: "btree_t \<Rightarrow> book_iter_t" where
  "book_iter t = \<lparr>bi_b = Some t, bi_i = 0, bi_p = bobs64 0, bi_q = bobs64 0, bi_t = 0\<rparr>"

definition book_iter_next :: "heap \<Rightarrow> book_iter_t \<Rightarrow> (heap \<times> book_iter_t \<times> bool) option" where
  "book_iter_next h iter = do {
     (h, i, ok) \<leftarrow> btree_iter_next h \<lparr>it_t = bi_b iter, it_i = bi_i iter, it_k = bi_p iter, it_v = None\<rparr>;
     let iter = iter\<lparr>bi_b := it_t i, bi_i := it_i i, bi_p := it_k i, bi_q := bobs64 0\<rparr>;
     if ok then do {
       tmp \<leftarrow> iter_load h i;
       Some (h, iter\<lparr>bi_q := val_q tmp, bi_t := val_t tmp\<rparr>, True)
     } else Some (h, iter, False)
   }"

end
