(* ===== verification/Memrchr.thy ===== *)
theory Memrchr
  imports Prelude
begin

text \<open>
  \<open>src/src/memrchr.c\<close>: the last occurrence of a byte in a buffer, searched backwards a machine word at
  a time. The buffer is the list of its bytes, \<open>base\<close> is its address (for the alignment), a
  result is the index of the byte. Words are those of a 64 bit machine; they are read in little
  endian order, on which the result does not depend.
\<close>

type_synonym byte = "8 word"

text \<open>The word that the bytes \<open>xs\<close> make up, least significant byte first.\<close>

definition le_int :: "byte list \<Rightarrow> int" where
  "le_int xs = foldr (\<lambda>b r. uint b + 256 * r) xs 0"

definition le_word :: "byte list \<Rightarrow> 'a::len word" where
  "le_word xs = word_of_int (le_int xs)"

definition repeated_one :: "64 word" where
  "repeated_one = (let r = 0x01010101 in r OR push_bit 1 (push_bit 31 r))"

definition repeated_c :: "byte \<Rightarrow> 64 word" where
  "repeated_c c =
     (let r = ucast c OR push_bit 8 (ucast c);
          r = r OR push_bit 16 r
      in r OR push_bit 1 (push_bit 31 r))"

definition has_zero :: "64 word \<Rightarrow> bool" where
  "has_zero w \<longleftrightarrow> ((w - repeated_one) AND NOT w) AND push_bit 7 repeated_one \<noteq> 0"

text \<open>
  The three loops, with \<open>n\<close> bytes left to look at: byte by byte down to a word boundary, word by word,
  byte by byte. The first two hand over the number of bytes left unless the first has a result.
\<close>

fun memrchr_align :: "byte list \<Rightarrow> nat \<Rightarrow> byte \<Rightarrow> nat \<Rightarrow> nat + nat" where
  "memrchr_align xs base c 0 = Inr 0"
| "memrchr_align xs base c (Suc n) =
     (if (base + Suc n) mod 8 \<noteq> 0
      then (if xs ! n = c then Inl n else memrchr_align xs base c n)
      else Inr (Suc n))"

function memrchr_words :: "byte list \<Rightarrow> byte \<Rightarrow> nat \<Rightarrow> nat" where
  "memrchr_words xs c n =
     (if n \<ge> 8 then
        (if has_zero (le_word (take 8 (drop (n - 8) xs)) XOR repeated_c c) then n
         else memrchr_words xs c (n - 8))
      else n)"
  by pat_completeness auto
termination
  by (relation "measure (\<lambda>(xs, c, n). n)") auto

declare memrchr_words.simps [simp del]

fun memrchr_bytes :: "byte list \<Rightarrow> byte \<Rightarrow> nat \<Rightarrow> nat option" where
  "memrchr_bytes xs c 0 = None"
| "memrchr_bytes xs c (Suc n) = (if xs ! n = c then Some n else memrchr_bytes xs c n)"

definition memrchr :: "byte list \<Rightarrow> nat \<Rightarrow> byte \<Rightarrow> nat \<Rightarrow> nat option" where
  "memrchr xs base c n =
     (case memrchr_align xs base c n of
        Inl i \<Rightarrow> Some i
      | Inr n \<Rightarrow> memrchr_bytes xs c (memrchr_words xs c n))"

subsection \<open>The test for a zero byte\<close>

lemma le_int_Cons [simp]: "le_int (b # xs) = uint b + 256 * le_int xs"
  by (simp add: le_int_def)

lemma le_int_byte:
  "j < length xs \<Longrightarrow> take_bit 8 (drop_bit (8 * j) (le_int xs)) = uint (xs ! j)"
proof (induction xs arbitrary: j)
  case (Cons b xs)
  have b: "0 \<le> uint b" "uint b < 256" using uint_lt2p [of b] by simp_all
  show ?case
  proof (cases j)
    case 0
    then show ?thesis using b by (simp add: take_bit_eq_mod)
  next
    case (Suc i)
    have "(uint b + 256 * le_int xs) div 2 ^ (8 * Suc i) = le_int xs div 2 ^ (8 * i)"
    proof -
      have "(2::int) ^ (8 * Suc i) = 256 * 2 ^ (8 * i)" by (simp add: power_add)
      then show ?thesis using b by (simp add: zdiv_zmult2_eq)
    qed
    then show ?thesis using Cons Suc by (simp add: drop_bit_eq_div)
  qed
qed simp

text \<open>\<open>ones l\<close> has a one in each of its \<open>l\<close> bytes; a number without zero bytes is at least that.\<close>

primrec ones :: "nat \<Rightarrow> int" where
  "ones 0 = 0"
| "ones (Suc l) = ones l + 256 ^ l"

lemma ones_le:
  fixes x :: int
  assumes "\<And>i. i < l \<Longrightarrow> take_bit 8 (drop_bit (8 * i) x) \<noteq> 0"
  shows "ones l \<le> x mod 256 ^ l"
  using assms
proof (induction l)
  case (Suc l)
  have "x mod 256 ^ Suc l = 256 ^ l * (x div 256 ^ l mod 256) + x mod 256 ^ l"
    using mod_mult2_eq' [of x "256 ^ l" 256] by (simp add: mult.commute)
  moreover have "x div 256 ^ l mod 256 \<noteq> 0"
    using Suc.prems [of l] by (simp add: drop_bit_eq_div take_bit_eq_mod power_mult)
  then have "1 \<le> x div 256 ^ l mod 256"
    using pos_mod_sign [of 256 "x div 256 ^ l"] by linarith
  then have "256 ^ l * 1 \<le> 256 ^ l * (x div 256 ^ l mod 256)" by (rule mult_left_mono) simp
  moreover have "ones l \<le> x mod 256 ^ l" using Suc by simp
  ultimately show ?case unfolding ones.simps by linarith
qed simp

lemma bit_byte_top: "bit (x :: int) (8 * l + 7) \<longleftrightarrow> odd (x div 256 ^ l div 128)"
proof -
  have "(2::int) ^ (8 * l + 7) = 256 ^ l * 128" by (simp add: power_add power_mult)
  then show ?thesis by (simp add: bit_iff_odd zdiv_zmult2_eq)
qed

lemma ones_split:
  assumes "l < 8"
  obtains k where "ones 8 = ones l + 256 ^ l * (1 + 256 * k)"
proof -
  have "l = 0 \<or> l = 1 \<or> l = 2 \<or> l = 3 \<or> l = 4 \<or> l = 5 \<or> l = 6 \<or> l = 7" using assms by linarith
  then have "ones 8 = ones l + 256 ^ l * (1 + 256 * ones (7 - l))"
    by (elim disjE) (simp_all add: eval_nat_numeral)
  then show ?thesis using that by blast
qed

lemma sub_ones_bit:
  assumes "l < 8" "\<And>i. i < l \<Longrightarrow> take_bit 8 (drop_bit (8 * i) x) \<noteq> 0"
    and "take_bit 8 (drop_bit (8 * l) x) = (0 :: int)"
  shows "bit (x - ones 8) (8 * l + 7)" "\<not> bit x (8 * l + 7)"
proof -
  obtain k where k: "ones 8 = ones l + 256 ^ l * (1 + 256 * k)" using ones_split [OF assms(1)] .
  have "x div 256 ^ l mod 256 = 0"
    using assms(3) by (simp add: drop_bit_eq_div take_bit_eq_mod power_mult)
  then obtain y where y: "x div 256 ^ l = 256 * y" by (auto simp: mod_eq_0_iff_dvd)
  have lo: "0 \<le> x mod 256 ^ l - ones l" "x mod 256 ^ l - ones l < 256 ^ l"
  proof -
    have "0 \<le> ones l" by (induction l) simp_all
    moreover have "x mod 256 ^ l < 256 ^ l" by simp
    ultimately show "x mod 256 ^ l - ones l < 256 ^ l" by linarith
  qed (use ones_le [of l x] assms(2) in simp)
  have "x - ones 8 = (x mod 256 ^ l - ones l) + 256 ^ l * (256 * (y - k) - 1)"
    using mult_div_mod_eq [of "256 ^ l" x] unfolding y k by (simp add: algebra_simps)
  then have "(x - ones 8) div 256 ^ l = 256 * (y - k) - 1"
    using lo by simp
  moreover have "(256 * (y - k) - 1) div 128 = 2 * (y - k) - 1" by linarith
  ultimately have "(x - ones 8) div 256 ^ l div 128 = 2 * (y - k) - 1" by metis
  then show "bit (x - ones 8) (8 * l + 7)" unfolding bit_byte_top by simp
  show "\<not> bit x (8 * l + 7)" by (simp add: bit_byte_top y)
qed

lemma repeated_one_ones: "repeated_one = word_of_int (ones 8)"
  by (simp add: repeated_one_def Let_def eval_nat_numeral)

lemma bit_highs: "l < 8 \<Longrightarrow> bit (push_bit 7 repeated_one) (8 * l + 7)"
proof -
  assume "l < 8"
  then have "l = 0 \<or> l = 1 \<or> l = 2 \<or> l = 3 \<or> l = 4 \<or> l = 5 \<or> l = 6 \<or> l = 7" by linarith
  then show ?thesis by (elim disjE) (simp_all add: repeated_one_def)
qed

lemma has_zero_byte:
  assumes "j < 8" "take_bit 8 (drop_bit (8 * j) (uint w)) = 0"
  shows "has_zero w"
proof -
  define l where "l = (LEAST l. take_bit 8 (drop_bit (8 * l) (uint w)) = 0)"
  have l: "l < 8" "take_bit 8 (drop_bit (8 * l) (uint w)) = 0"
    unfolding l_def using assms Least_le [of "\<lambda>l. take_bit 8 (drop_bit (8 * l) (uint w)) = 0" j]
    by (auto intro: LeastI)
  have low: "take_bit 8 (drop_bit (8 * i) (uint w)) \<noteq> 0" if "i < l" for i
    using that unfolding l_def by (rule not_less_Least)
  have "w - repeated_one = word_of_int (uint w - ones 8)"
    by (simp add: repeated_one_ones)
  then have "bit (w - repeated_one) (8 * l + 7)"
    using sub_ones_bit(1) [OF l(1) low l(2)] l(1)
    by (simp only: bit_word_of_int_iff) simp
  moreover have "\<not> bit w (8 * l + 7)"
    using sub_ones_bit(2) [OF l(1) low l(2)] l(1) by (simp add: bit_uint_iff)
  ultimately have "bit (((w - repeated_one) AND NOT w) AND push_bit 7 repeated_one) (8 * l + 7)"
    using bit_highs [OF l(1)] l(1) by (simp add: bit_and_iff bit_not_iff)
  then show ?thesis unfolding has_zero_def by (metis bit_0_eq bot_apply bot_bool_def)
qed

subsection \<open>The search\<close>

text \<open>Each step of the computation of \<open>repeated_c\<close> doubles the number of copies.\<close>

lemma double_copies:
  fixes r :: "64 word" and c :: byte
  assumes "\<And>n. bit r n \<longleftrightarrow> n < m \<and> bit c (n mod 8)" "m = 8 * k" "2 * m \<le> 64"
  shows "bit (r OR push_bit m r) n \<longleftrightarrow> n < 2 * m \<and> bit c (n mod 8)"
proof (cases "m \<le> n")
  case True
  then obtain d where d: "n = m + d" using le_Suc_ex by blast
  then have "n mod 8 = d mod 8" using assms(2) by simp
  then show ?thesis
    using assms(1) [of n] assms(1) [of d] assms(3) d
    by (simp add: bit_or_iff bit_push_bit_iff) linarith
next
  case False
  then show ?thesis using assms(1) [of n] by (simp add: bit_or_iff bit_push_bit_iff)
qed

lemma bit_repeated_c: "bit (repeated_c c) n \<longleftrightarrow> n < 64 \<and> bit c (n mod 8)"
proof -
  have 0: "bit (ucast c :: 64 word) n \<longleftrightarrow> n < 8 \<and> bit c (n mod 8)" for n
    using bit_imp_le_length [of c n] by (auto simp: bit_ucast_iff)
  note 1 = double_copies [where k = 1, OF 0, simplified]
  note 2 = double_copies [where k = 2, OF 1, simplified]
  note 3 = double_copies [where k = 4, OF 2, simplified]
  show ?thesis using 3 [of n] by (simp add: repeated_c_def Let_def)
qed

lemma word_test:
  assumes "length xs = 8" "c \<in> set xs"
  shows "has_zero (le_word xs XOR repeated_c c)"
proof -
  obtain j where j: "j < 8" "xs ! j = c" using assms by (metis in_set_conv_nth)
  have le: "bit (le_word xs :: 64 word) (8 * j + i) \<longleftrightarrow> bit c i" if "i < 8" for i
    using that j assms(1) arg_cong [OF le_int_byte [of j xs], of "\<lambda>x. bit x i"]
    by (simp add: le_word_def bit_word_of_int_iff bit_take_bit_iff bit_drop_bit_eq bit_uint_iff)
  show ?thesis
  proof (rule has_zero_byte [OF j(1)], rule bit_eqI)
    fix i
    show "bit (take_bit 8 (drop_bit (8 * j) (uint (le_word xs XOR repeated_c c)))) i = bit 0 i"
      using j(1) le [of i]
      by (auto simp: bit_take_bit_iff bit_drop_bit_eq bit_uint_iff bit_xor_iff bit_repeated_c)
  qed
qed

text \<open>The reference: the last index below \<open>n\<close> at which the byte occurs.\<close>

lemma memrchr_bytes_last:
  "memrchr_bytes xs c n = Some i \<longleftrightarrow> i < n \<and> xs ! i = c \<and> (\<forall>j < n. i < j \<longrightarrow> xs ! j \<noteq> c)"
proof (induction n)
  case (Suc n)
  then show ?case by (auto simp: less_Suc_eq)
qed simp

lemma memrchr_bytes_skip:
  "m \<le> n \<Longrightarrow> (\<And>j. m \<le> j \<Longrightarrow> j < n \<Longrightarrow> xs ! j \<noteq> c) \<Longrightarrow> memrchr_bytes xs c n = memrchr_bytes xs c m"
proof (induction n)
  case (Suc n)
  then show ?case by (cases "m = Suc n") auto
qed simp

lemma memrchr_words_bytes:
  "n \<le> length xs \<Longrightarrow> memrchr_bytes xs c (memrchr_words xs c n) = memrchr_bytes xs c n"
proof (induction xs c n rule: memrchr_words.induct)
  case (1 xs c n)
  let ?w = "take 8 (drop (n - 8) xs)"
  show ?case
  proof (cases "n \<ge> 8 \<and> \<not> has_zero (le_word ?w XOR repeated_c c)")
    case True
    have len: "length ?w = 8" using True "1.prems" by simp
    have "xs ! j \<noteq> c" if "n - 8 \<le> j" "j < n" for j
    proof -
      have "c \<notin> set ?w" using word_test [OF len] True by blast
      moreover have "?w ! (j - (n - 8)) = xs ! j" "j - (n - 8) < length ?w"
        using that True "1.prems" len by auto
      ultimately show ?thesis by (metis nth_mem)
    qed
    then have "memrchr_bytes xs c n = memrchr_bytes xs c (n - 8)" by (intro memrchr_bytes_skip) auto
    then show ?thesis using "1.IH" "1.prems" True by (subst memrchr_words.simps) auto
  qed (subst memrchr_words.simps, auto)
qed

lemma memrchr_align_bytes:
  "memrchr_bytes xs c n = (case memrchr_align xs base c n of Inl i \<Rightarrow> Some i | Inr m \<Rightarrow> memrchr_bytes xs c m)"
  by (induction n) auto

lemma memrchr_align_le: "memrchr_align xs base c n = Inr m \<Longrightarrow> m \<le> n"
  by (induction n) (auto split: if_splits)

lemma memrchr_is_bytes: "n \<le> length xs \<Longrightarrow> memrchr xs base c n = memrchr_bytes xs c n"
  using memrchr_align_bytes [of xs c n base] memrchr_align_le [of xs base c n]
    memrchr_words_bytes [of _ xs c]
  by (auto simp: memrchr_def split: sum.split)

subsection \<open>Properties\<close>

text \<open>
  C35: The word-at-a-time search is equivalent to the search byte by byte, for any alignment of the buffer: it
  returns the last of the first \<open>n\<close> bytes that equals \<open>c\<close>, and nothing exactly if there is none.
\<close>

theorem memrchr_finds_last:
  assumes "n \<le> length xs"
  shows "(memrchr xs base c n = Some i \<longleftrightarrow> i < n \<and> xs ! i = c \<and> (\<forall>j < n. i < j \<longrightarrow> xs ! j \<noteq> c)) \<and>
    (memrchr xs base c n = None \<longleftrightarrow> (\<forall>j < n. xs ! j \<noteq> c))"
proof -
  have "memrchr_bytes xs c n = None \<longleftrightarrow> (\<forall>j < n. xs ! j \<noteq> c)"
    by (induction n) (auto simp: less_Suc_eq)
  then show ?thesis using memrchr_is_bytes [OF assms] memrchr_bytes_last by simp
qed

theorem memrchr_finds_last_witness: "memrchr (9 # replicate 20 1) 3 9 21 = Some 0"
  using memrchr_finds_last [of 21 "9 # replicate 20 1" 3 9 0] by (simp add: nth_Cons split: nat.splits)

end
