(* ===== verification/Xquo.thy ===== *)
theory Xquo
  imports Books Memrchr
begin

text \<open>
  Reading and writing quotes, \<open>src/src/xquo.c\<close> and \<open>xquo.h\<close>. A line is the string up to its
  terminating NUL; a pointer into it is an index. \<open>strtoul\<close> is the function of the C library, for base
  10 and 64 bit longs. \<open>None\<close> is undefined behaviour (a read in front of the line) or a conversion that
  does not return.
\<close>

subsection \<open>Time stamps\<close>

abbreviation ULONG_MAX :: int where "ULONG_MAX \<equiv> 18446744073709551615"

definition isspace :: "char \<Rightarrow> bool" where
  "isspace c \<longleftrightarrow> c \<in> {CHR '' '', CHR 0x09, CHR 0x0a, CHR 0x0b, CHR 0x0c, CHR 0x0d}"

definition isdigit :: "char \<Rightarrow> bool" where
  "isdigit c \<longleftrightarrow> 48 \<le> (of_char c :: int) \<and> (of_char c :: int) \<le> 57"

definition digit_val :: "char \<Rightarrow> int" where
  "digit_val c = of_char c - 48"

definition digits_val :: "string \<Rightarrow> int" where
  "digits_val ds = foldl (\<lambda>a c. 10 * a + digit_val c) 0 ds"

text \<open>The value and the number of characters consumed; a value out of range is cut off.\<close>

definition strtoul :: "string \<Rightarrow> 64 word \<times> nat" where
  "strtoul s =
     (let sp = takeWhile isspace s; r = drop (length sp) s;
          neg = (case r of c # _ \<Rightarrow> c = CHR ''-'' | [] \<Rightarrow> False);
          sg = (case r of c # _ \<Rightarrow> if c = CHR ''-'' \<or> c = CHR ''+'' then 1 else 0 | [] \<Rightarrow> 0);
          ds = takeWhile isdigit (drop sg r); v = digits_val ds
      in if ds = [] then (0, 0)
         else (if v > ULONG_MAX then - 1 else if neg then - of_int v else of_int v,
               length sp + sg + length ds))"

text \<open>
  The time stamp and where the conversion ended; the end is not stored on the two early returns.
\<close>

definition strtotv :: "string \<Rightarrow> tv \<times> nat option" where
  "strtotv str =
     (let (s, on) = strtoul str
      in if s = 0 then (NATV, Some on)
         else if on < length str \<and> str ! on = CHR ''.'' then
           (let (x, k) = strtoul (drop (on + 1) str)
            in if k > 9 then (NATV, None)
               else if k mod 3 \<noteq> 0 then (NATV, None)
               else (s * NSECS +
                       (if k = 9 then x else if k = 6 then x * MSECS
                        else if k = 3 then x * MSECS * MSECS
                        else x * MSECS * MSECS * MSECS),
                     Some (on + 1 + k)))
         else (s * NSECS, Some on))"

text \<open>The digits of the seconds, least significant first, and the nine digits of the nanoseconds.\<close>

function sec_digits :: "int \<Rightarrow> string" where
  "sec_digits ts = (if ts > 0 then char_of (48 + ts mod 10) # sec_digits (ts div 10) else [])"
  by pat_completeness auto
termination
  by (relation "measure nat") auto

declare sec_digits.simps [simp del]

primrec nano_digits :: "nat \<Rightarrow> int \<Rightarrow> string" where
  "nano_digits 0 tn = []"
| "nano_digits (Suc j) tn = nano_digits j (tn div 10) @ [char_of (48 + tn mod 10)]"

text \<open>The string written into a buffer of \<open>bsz\<close> bytes; the result of the function is its length.\<close>

definition tvtostr :: "nat \<Rightarrow> tv \<Rightarrow> string" where
  "tvtostr bsz t =
     (let ts = uint t div NSECS; tn = uint t mod NSECS
      in if bsz < 19 then []
         else rev (if ts = 0 then [CHR ''0''] else sec_digits ts) @ [CHR ''.''] @ nano_digits 9 tn)"

subsection \<open>Quotes\<close>

record xquo_t =
  xq_q :: book_quo_t
  xq_ins :: "nat option"
  xq_inz :: nat

definition NOT_A_XQUO :: xquo_t where
  "NOT_A_XQUO = \<lparr>xq_q = NOT_A_QUO, xq_ins = None, xq_inz = 0\<rparr>"

definition NOT_A_XQUO_P :: "xquo_t \<Rightarrow> bool" where
  "NOT_A_XQUO_P x \<longleftrightarrow> NOT_A_QUO_P (xq_q x)"

abbreviation TAB :: char where "TAB \<equiv> CHR 0x09"

definition rtab :: "string \<Rightarrow> nat \<Rightarrow> nat option" where
  "rtab line n = memrchr (map of_char line) 0 (of_char TAB) n"

text \<open>The character in front of the price is the level, in ASCII.\<close>

definition flavour :: "char \<Rightarrow> book_lvl_t" where
  "flavour c = (let f = (of_char c :: 8 word) XOR 0x30 in unat (f AND - (if f < 4 then 1 else 0)))"

text \<open>
  The side. The condition reads \<open>s ^ '@' < NBOOK_SIDES || s == 'T'\<close>, in which \<open><\<close> binds tighter than \<open>^\<close>.
\<close>

definition side_of :: "char \<Rightarrow> book_side_t" where
  "side_of c =
     (let s = (of_char c :: 8 word) AND NOT 0x20;
          cond = (s XOR (if (0x40 :: nat) < NBOOK_SIDES then 1 else 0)) \<noteq> 0 \<or> s = of_char (CHR ''T'');
          s = s AND - (if cond then 1 else 0)
      in unat (s AND 0xf))"

text \<open>\<open>for (; lp > line && lp[-1] != '\t'; lp--);\<close>\<close>

fun rewind :: "string \<Rightarrow> nat \<Rightarrow> nat" where
  "rewind line 0 = 0"
| "rewind line (Suc lp) = (if line ! lp \<noteq> TAB then rewind line lp else Suc lp)"

definition instrument :: "string \<Rightarrow> nat \<Rightarrow> nat \<times> nat" where
  "instrument line lp =
     (if lp > 0 then
        (let lp = lp - 1; ins = (case rtab line lp of Some i \<Rightarrow> i + 1 | None \<Rightarrow> 0) in (ins, lp - ins))
      else (0, 0))"

definition read_xquo :: "string \<Rightarrow> nat \<Rightarrow> xquo_t option" where
  "read_xquo line llen =
     (let t = fst (strtotv line)
      in case rtab line llen of
           None \<Rightarrow> Some NOT_A_XQUO
         | Some lp \<Rightarrow> do {
             (qx, _) \<leftarrow> strtod64 (drop (lp + 1) line);
             case rtab line lp of
               None \<Rightarrow> Some NOT_A_XQUO
             | Some lp \<Rightarrow> do {
                 (px, on) \<leftarrow> strtod64 (drop (lp + 1) line);
                 let px = (if length on \<ge> length (drop (lp + 1) line) then NAND64 else px);
                 if lp = 0 then None
                 else do {
                   let lp = lp - 1;
                   let f = flavour (line ! lp);
                   let lp = rewind line lp;
                   let s = side_of (line ! lp);
                   if s = 0 then Some NOT_A_XQUO
                   else (case instrument line lp of (ins, inz) \<Rightarrow>
                     Some \<lparr>xq_q = \<lparr>q_s = s, q_f = f, q_p = px, q_q = qx, q_t = t\<rparr>,
                           xq_ins = Some ins, xq_inz = inz\<rparr>)
                 }
               }
           })"

subsection \<open>Time stamps: there and back\<close>

lemma digit_char:
  assumes "0 \<le> d" "d < 10"
  shows "isdigit (char_of (48 + d))" "digit_val (char_of (48 + d)) = (d :: int)"
  using assms by (simp_all add: isdigit_def digit_val_def take_bit_eq_mod)

lemma digits_val_snoc: "digits_val (ds @ [c]) = 10 * digits_val ds + digit_val c"
  by (simp add: digits_val_def)

lemma sec_digits_val: "0 \<le> ts \<Longrightarrow> digits_val (rev (sec_digits ts)) = ts"
proof (induction ts rule: sec_digits.induct)
  case (1 ts)
  show ?case
  proof (cases "ts > 0")
    case True
    then have "digits_val (rev (sec_digits ts)) = 10 * (ts div 10) + ts mod 10"
      using "1.IH" digit_char [of "ts mod 10"]
      by (subst sec_digits.simps) (simp add: digits_val_snoc)
    then show ?thesis by simp
  qed (use "1.prems" in \<open>simp add: sec_digits.simps digits_val_def\<close>)
qed

lemma sec_digits_digit: "c \<in> set (sec_digits ts) \<Longrightarrow> isdigit c"
proof (induction ts rule: sec_digits.induct)
  case (1 ts)
  then show ?case using digit_char [of "ts mod 10"]
    by (subst (asm) (2) sec_digits.simps) (auto split: if_splits)
qed

lemma sec_digits_Nil: "sec_digits ts = [] \<longleftrightarrow> ts \<le> 0"
  by (subst sec_digits.simps) auto

lemma nano_digits_val: "0 \<le> tn \<Longrightarrow> digits_val (nano_digits j tn) = tn mod 10 ^ j"
proof (induction j arbitrary: tn)
  case (Suc j)
  have "tn mod 10 ^ Suc j = 10 * (tn div 10 mod 10 ^ j) + tn mod 10"
    using zmod_zmult2_eq [of "10 ^ j" tn 10] by (simp add: mult.commute)
  then show ?case using Suc digit_char [of "tn mod 10"] by (simp add: digits_val_snoc)
qed (simp add: digits_val_def)

lemma nano_digits_digit: "0 \<le> tn \<Longrightarrow> c \<in> set (nano_digits j tn) \<Longrightarrow> isdigit c"
proof (induction j arbitrary: tn)
  case (Suc j)
  then show ?case using Suc.IH [of "tn div 10"] digit_char(1) [of "tn mod 10"]
    by (auto simp: pos_imp_zdiv_nonneg_iff)
qed simp

lemma length_nano_digits [simp]: "length (nano_digits j tn) = j"
  by (induction j arbitrary: tn) auto

lemma digit_not_space: "isdigit c \<Longrightarrow> \<not> isspace c \<and> c \<noteq> CHR ''-'' \<and> c \<noteq> CHR ''+''"
  by (auto simp: isdigit_def isspace_def)

lemma strtoul_digits:
  assumes "ds \<noteq> []" "\<forall>c \<in> set ds. isdigit c" "\<forall>c r'. r = c # r' \<longrightarrow> \<not> isdigit c"
    and "digits_val ds \<le> ULONG_MAX"
  shows "strtoul (ds @ r) = (of_int (digits_val ds), length ds)"
proof -
  obtain d ds' where ds: "ds = d # ds'" using assms(1) by (cases ds) auto
  have "takeWhile isdigit (ds @ r) = ds" using assms(2,3) by (cases r) (auto simp: takeWhile_append)
  moreover have "\<not> isspace d" "d \<noteq> CHR ''-''" "d \<noteq> CHR ''+''" using digit_not_space assms(2) ds by auto
  ultimately show ?thesis using assms(1,4) ds by (simp add: strtoul_def Let_def)
qed

lemma tvtostr_strtotv:
  assumes "NSECS \<le> t" "19 \<le> bsz" and r: "\<forall>c r'. r = c # r' \<longrightarrow> \<not> isdigit c"
  shows "strtotv (tvtostr bsz t @ r) = (t, Some (length (tvtostr bsz t)))"
proof -
  define ts tn where "ts = uint t div NSECS" and "tn = uint t mod NSECS"
  have t: "uint t = ts * NSECS + tn" "0 \<le> tn" "tn < NSECS" "0 < ts" "ts \<le> ULONG_MAX"
    using assms(1) uint_lt2p [of t] by (auto simp: ts_def tn_def word_le_def)
  let ?s = "rev (sec_digits ts)" and ?n = "nano_digits 9 tn"
  have str: "tvtostr bsz t = ?s @ CHR ''.'' # ?n"
    using assms(2) t(4) by (simp add: tvtostr_def ts_def tn_def)
  have s: "strtoul (?s @ CHR ''.'' # ?n @ r) = (of_int ts, length ?s)"
    using strtoul_digits [of ?s "CHR ''.'' # ?n @ r"] sec_digits_val [of ts] sec_digits_digit t(4,5)
      sec_digits_Nil [of ts] by (auto simp: isdigit_def)
  have "?n \<noteq> []" using length_nano_digits [of 9 tn] by (metis length_0_conv zero_neq_numeral)
  then have n: "strtoul (?n @ r) = (of_int tn, 9)"
    using strtoul_digits [OF _ _ r, of ?n] nano_digits_val [of tn 9] nano_digits_digit t(2,3) by auto
  have "(of_int ts :: 64 word) \<noteq> 0"
    using t(4,5) by (simp add: word_of_int_eq_0_iff zdvd_not_zless)
  moreover have "of_int ts * NSECS + of_int tn = t"
    using arg_cong [OF t(1), of "word_of_int :: int \<Rightarrow> 64 word"] by simp
  ultimately show ?thesis unfolding str by (simp add: strtotv_def s n nth_append)
qed

text \<open>The number of characters written, and that 19 bytes are not enough for the times of today.\<close>

lemma length_sec_digits: "0 \<le> ts \<Longrightarrow> ts < 10 ^ n \<longleftrightarrow> length (sec_digits ts) \<le> n"
proof (induction ts arbitrary: n rule: sec_digits.induct)
  case (1 ts)
  show ?case
  proof (cases "ts > 0")
    case True
    then have len: "length (sec_digits ts) = Suc (length (sec_digits (ts div 10)))"
      by (subst sec_digits.simps) simp
    show ?thesis
    proof (cases n)
      case 0
      then show ?thesis using True len by simp
    next
      case (Suc m)
      have "ts < 10 ^ Suc m \<longleftrightarrow> ts div 10 < 10 ^ m" unfolding power_Suc by linarith
      then show ?thesis using "1.IH" [OF True, of m] True len Suc by simp
    qed
  qed (use "1.prems" in \<open>simp add: sec_digits.simps\<close>)
qed

lemma length_tvtostr:
  assumes "19 \<le> bsz"
  shows "length (tvtostr bsz t) = 10 + max 1 (length (sec_digits (uint t div NSECS)))"
  using assms sec_digits_Nil [of "uint t div NSECS"]
  by (auto simp: tvtostr_def Let_def max_def not_le le_Suc_eq pos_imp_zdiv_pos_iff)

lemma tvtostr_fits:
  assumes "19 \<le> bsz"
  shows "length (tvtostr bsz t) \<le> 21"
proof -
  have "0 \<le> uint t div NSECS" "uint t div NSECS < 10 ^ 11" using uint_lt2p [of t]
    by (simp_all add: pos_imp_zdiv_nonneg_iff)
  then show ?thesis using length_tvtostr [OF assms, of t] length_sec_digits [of _ 11] by simp
qed

lemma tvtostr_overruns:
  assumes "1000000000000000000 \<le> t"
  shows "19 < length (tvtostr 19 t)"
proof -
  have "\<not> uint t div NSECS < 10 ^ 9" "0 \<le> uint t div NSECS"
    using assms by (simp_all add: word_le_def pos_imp_zdiv_nonneg_iff)
  then show ?thesis
    using length_tvtostr [of 19 t] length_sec_digits [of "uint t div NSECS" 9] by linarith
qed

subsection \<open>Quotes: side and level\<close>

lemma unat_of_char: "unat (of_char c :: 8 word) = of_char c"
proof -
  have "(of_char c :: 8 word) = of_nat (of_char c)" by (simp add: of_nat_of_char)
  moreover have "(of_char c :: nat) < 256" by simp
  ultimately show ?thesis by (simp add: unat_of_nat)
qed

lemma side_of_mod: "side_of c = of_char c mod 16"
proof -
  let ?w = "of_char c :: 8 word"
  have "(s AND - (if s \<noteq> 0 \<or> P then 1 else 0)) = s" for s :: "8 word" and P by simp
  then have "side_of c = unat ((?w AND NOT 0x20) AND 0xf)" by (simp add: side_of_def Let_def)
  also have "(?w AND NOT 0x20) AND 0xf = take_bit 4 ?w"
    by (simp add: and.assoc take_bit_eq_mask mask_eq_exp_minus_1)
  also have "unat (take_bit 4 ?w) = unat ?w mod 16"
    by (simp only: unsigned_take_bit_eq) (simp add: take_bit_eq_mod)
  finally show ?thesis by (simp add: unat_of_char)
qed

lemma of_char_word: "of_char c = (of_char d :: 8 word) \<longleftrightarrow> c = d"
  by (metis unat_of_char of_char_eq_iff)

lemma flavour_cases:
  "flavour c = (if c = CHR ''1'' then BOOK_LVL_1 else if c = CHR ''2'' then BOOK_LVL_2
     else if c = CHR ''3'' then BOOK_LVL_3 else BOOK_LVL_0)"
proof -
  let ?f = "(of_char c :: 8 word) XOR 0x30"
  have inv: "?f = x \<longleftrightarrow> of_char c = x XOR 0x30" for x :: "8 word"
    by (auto simp: xor.assoc)
  have eqs: "?f = 1 \<longleftrightarrow> c = CHR ''1''" "?f = 2 \<longleftrightarrow> c = CHR ''2''" "?f = 3 \<longleftrightarrow> c = CHR ''3''"
    using of_char_word [of c "CHR ''1''"] of_char_word [of c "CHR ''2''"] of_char_word [of c "CHR ''3''"]
    by (simp_all add: inv)
  show ?thesis
  proof (cases "?f < 4")
    case True
    then have "unat ?f < 4" by (simp add: word_less_nat_alt)
    then have "unat ?f = 0 \<or> unat ?f = 1 \<or> unat ?f = 2 \<or> unat ?f = 3" by linarith
    moreover have "(2 :: 8 word) = of_nat 2" "(3 :: 8 word) = of_nat 3" by simp_all
    ultimately have "?f = 0 \<or> ?f = 1 \<or> ?f = 2 \<or> ?f = 3"
      by (elim disjE) (simp_all add: word_unat_eq_iff unat_of_nat)
    then show ?thesis using True eqs by (auto simp: flavour_def Let_def)
  next
    case False
    then have "?f \<noteq> 1" "?f \<noteq> 2" "?f \<noteq> 3" by auto
    then show ?thesis using False eqs by (simp add: flavour_def Let_def)
  qed
qed

subsection \<open>Quotes: the fields of a line\<close>

lemma rtab_Some:
  assumes "n \<le> length line"
  shows "rtab line n = Some i \<longleftrightarrow> i < n \<and> line ! i = TAB \<and> (\<forall>j < n. i < j \<longrightarrow> line ! j \<noteq> TAB)"
proof -
  have "map of_char line ! j = (of_char TAB :: 8 word) \<longleftrightarrow> line ! j = TAB" if "j < n" for j
    using that assms of_char_word [of "line ! j" TAB] by simp
  then show ?thesis
    using assms memrchr_bytes_last [of "map of_char line" "of_char TAB" n i]
    by (auto simp: rtab_def memrchr_is_bytes)
qed

lemma rtab_field:
  assumes "TAB \<notin> set b"
  shows "rtab (a @ TAB # b @ c) (length a + 1 + length b) = Some (length a)"
proof -
  have "(a @ TAB # b @ c) ! j \<noteq> TAB" if "length a < j" "j < length a + 1 + length b" for j
  proof -
    have "(a @ TAB # b @ c) ! j = b ! (j - length a - 1)"
      using that by (auto simp: nth_append nth_Cons')
    moreover have "b ! (j - length a - 1) \<in> set b" using that by (intro nth_mem) auto
    ultimately show ?thesis using assms by metis
  qed
  then show ?thesis by (subst rtab_Some) (auto simp: nth_append)
qed

lemma rewind_field:
  assumes "TAB \<notin> set b"
  shows "m \<le> length b \<Longrightarrow> rewind (a @ TAB # b @ c) (length a + 1 + m) = length a + 1"
proof (induction m)
  case 0
  then show ?case by (simp add: nth_append)
next
  case (Suc m)
  have "(a @ TAB # b @ c) ! (length a + 1 + m) = b ! m" using Suc.prems by (simp add: nth_append)
  moreover have "b ! m \<noteq> TAB" using Suc.prems assms by (metis Suc_le_lessD nth_mem)
  ultimately show ?case using Suc by simp
qed

text \<open>A line of five fields: time, instrument, side and level, price, quantity.\<close>

definition quote_line :: "string \<Rightarrow> string \<Rightarrow> char \<Rightarrow> char \<Rightarrow> string \<Rightarrow> string \<Rightarrow> string" where
  "quote_line tm ins s f px qx = tm @ [TAB] @ ins @ [TAB] @ [s, f] @ [TAB] @ px @ [TAB] @ qx"

lemma read_xquo_fields:
  fixes tm ins px qx :: string and s f :: char
  defines "line \<equiv> quote_line tm ins s f px qx"
  assumes tabs: "TAB \<notin> set ins \<union> {s, f} \<union> set px \<union> set qx"
    and q: "strtod64 qx = Some (q, r1)" and p: "strtod64 (px @ TAB # qx) = Some (p, r2)"
  shows "read_xquo line (length line) =
    Some (if of_char s mod 16 = (0 :: nat) then NOT_A_XQUO
          else \<lparr>xq_q = \<lparr>q_s = of_char s mod 16, q_f = flavour f,
                        q_p = (if length r2 < length (px @ TAB # qx) then p else NAND64),
                        q_q = q, q_t = fst (strtotv line)\<rparr>,
                xq_ins = Some (length tm + 1), xq_inz = length ins\<rparr>)"
proof -
  let ?a = "tm @ TAB # ins" and ?b = "tm @ TAB # ins @ TAB # [s, f]"
  let ?c = "tm @ TAB # ins @ TAB # [s, f] @ TAB # px"
  have l: "line = ?c @ TAB # qx @ []" "line = ?b @ TAB # px @ TAB # qx" "line = ?a @ TAB # [s, f] @ TAB # px @ TAB # qx"
    "line = tm @ TAB # ins @ TAB # [s, f] @ TAB # px @ TAB # qx"
    by (simp_all add: line_def quote_line_def)
  have 1: "rtab line (length line) = Some (length ?c)"
    using rtab_field [of qx ?c "[]"] tabs l(1) by (simp add: line_def quote_line_def add.assoc)
  have 2: "rtab line (length ?c) = Some (length ?b)"
    using rtab_field [of px ?b "TAB # qx"] tabs l(2) by (simp add: add.assoc)
  have 3: "rewind line (length ?b - 1) = length ?a + 1"
    using rewind_field [of "[s, f]" 1 ?a "TAB # px @ TAB # qx"] tabs l(3) by (simp add: add.assoc)
  have 4: "instrument line (length ?a + 1) = (length tm + 1, length ins)"
    using rtab_field [of ins tm "TAB # [s, f] @ TAB # px @ TAB # qx"] tabs l(4)
    by (simp add: instrument_def)
  have chars: "line ! (length ?b - 1) = f" "line ! (length ?a + 1) = s"
    "length ?b \<noteq> 0"
    by (simp_all add: line_def quote_line_def nth_append)
  have drop_field: "drop (length a + 1) (a @ TAB # b) = b" for a b :: string by simp
  have drops: "drop (length ?c + 1) line = qx" "drop (length ?b + 1) line = px @ TAB # qx"
    unfolding l(1) using drop_field [of ?c qx] drop_field [of ?b "px @ TAB # qx"] by simp_all
  show ?thesis
    unfolding read_xquo_def Let_def 1 option.case drops(1) q bind.bind_lunit prod.case 2 drops(2) p
      chars(1) 3 chars(2) 4 side_of_mod
    using chars(3) by (simp add: not_le)
qed

subsection \<open>Properties\<close>

text \<open>
  C34: A printed time stamp has at most 21 characters; the check of the buffer size is for 19, and with a
  buffer of just that size every time stamp from \<open>10\<^sup>9\<close> seconds on (September 2001) is written past its end.
\<close>

theorem tvtostr_bounds:
  assumes "19 \<le> bsz"
  shows "length (tvtostr bsz t) \<le> 21 \<and> (1000000000000000000 \<le> t \<longrightarrow> 19 < length (tvtostr 19 t))"
  using tvtostr_fits [OF assms] tvtostr_overruns by blast

theorem tvtostr_bounds_witness:
  "length (tvtostr 32 1500000000123456789) \<le> 21 \<and> 19 < length (tvtostr 19 1500000000123456789)"
  using tvtostr_bounds [of 32 1500000000123456789] by simp

text \<open>
  The letter of the side is taken modulo 16, because of the precedence of the operators in the test
  that should restrict it: contrary to the comment, \<open>S\<close> is the side of a clearing quote, \<open>Q\<close> is an ask, and
  letters such as \<open>E\<close> give numbers that are no side at all.
\<close>

lemma side_letter_mod_16:
  "side_of c = of_char c mod 16 \<and> side_of (CHR ''S'') = BOOK_SIDE_CLR \<and> side_of (CHR ''Q'') = BOOK_SIDE_ASK \<and>
   side_of (CHR ''E'') = NBOOK_SIDES"
  by (simp add: side_of_mod)

text \<open>
  C30: Reading a quote: a line of five fields separated by tabs, time, instrument, the two characters of side and level,
  price and quantity, gives a quote with the time, price and quantity that the conversions of these fields return (the
  price is not a number if its conversion consumes nothing), and the instrument is where the second field is.
  The side is the code of its letter modulo 16, whatever the letter, and the line is refused with
  \<open>NOT_A_XQUO\<close> exactly if that is zero. So \<open>A\<close> to \<open>D\<close> and \<open>T\<close> are read as the comment in the code says, but other letters
  are not \<open>SIDE_UNK\<close>, as it also says: \<open>S\<close>, \<open>Q\<close> and \<open>E\<close> give the sides 3, 1 and 5.
\<close>

theorem read_xquo_reads:
  assumes "TAB \<notin> set ins \<union> {s, f} \<union> set px \<union> set qx"
    and "strtod64 qx = Some (q, r1)" "strtod64 (px @ TAB # qx) = Some (p, r2)"
  shows "read_xquo (quote_line tm ins s f px qx) (length (quote_line tm ins s f px qx)) =
    Some (if of_char s mod 16 = (0 :: nat) then NOT_A_XQUO
          else \<lparr>xq_q = \<lparr>q_s = of_char s mod 16, q_f = flavour f,
                        q_p = (if length r2 < length (px @ TAB # qx) then p else NAND64),
                        q_q = q, q_t = fst (strtotv (quote_line tm ins s f px qx))\<rparr>,
                xq_ins = Some (length tm + 1), xq_inz = length ins\<rparr>)"
  by (rule read_xquo_fields [OF assms])

theorem read_xquo_reads_witness:
  "read_xquo (quote_line ''1.000000000'' ''EURUSD'' (CHR ''B'') (CHR ''2'') ''1.25'' ''10'')
     (length (quote_line ''1.000000000'' ''EURUSD'' (CHR ''B'') (CHR ''2'') ''1.25'' ''10'')) =
    Some \<lparr>xq_q = \<lparr>q_s = BOOK_SIDE_BID, q_f = BOOK_LVL_2, q_p = dd 125 (- 2), q_q = dd 10 0,
                  q_t = fst (strtotv (quote_line ''1.000000000'' ''EURUSD'' (CHR ''B'') (CHR ''2'') ''1.25'' ''10''))\<rparr>,
          xq_ins = Some 12, xq_inz = 6\<rparr>"
proof -
  have q: "strtod64 ''10'' = Some (dd 10 0, [])" by code_simp
  have p: "strtod64 (''1.25'' @ TAB # ''10'') = Some (dd 125 (- 2), TAB # ''10'')" by code_simp
  show ?thesis
    using read_xquo_reads [OF _ q p, of "''EURUSD''" "CHR ''B''" "CHR ''2''" "''1.000000000''"]
    by (simp add: flavour_cases)
qed

end
