(* ===== verification/Hash.thy ===== *)
theory Hash
  imports Memrchr
begin

text \<open>
  \<open>src/src/hash.c\<close>: the 32 bit xxHash of a buffer, with seed 0, by which the tools look up
  instruments. The byte order of the machine is a parameter: a 32 bit read yields the bytes in that
  order, and the code swaps them on a big endian machine. The branch on the alignment of the
  buffer only selects between two ways to read the same word.
\<close>

datatype XXH_endianess = XXH_bigEndian | XXH_littleEndian
datatype XXH_alignment = XXH_aligned | XXH_unaligned

type_synonym hx_t = "32 word"

abbreviation PRIME32_1 :: "32 word" where "PRIME32_1 \<equiv> 2654435761"
abbreviation PRIME32_2 :: "32 word" where "PRIME32_2 \<equiv> 2246822519"
abbreviation PRIME32_3 :: "32 word" where "PRIME32_3 \<equiv> 3266489917"
abbreviation PRIME32_4 :: "32 word" where "PRIME32_4 \<equiv> 668265263"
abbreviation PRIME32_5 :: "32 word" where "PRIME32_5 \<equiv> 374761393"

definition XXH_rotl32 :: "32 word \<Rightarrow> nat \<Rightarrow> 32 word" where
  "XXH_rotl32 x r = push_bit r x OR drop_bit (32 - r) x"

definition XXH_swap32 :: "32 word \<Rightarrow> 32 word" where
  "XXH_swap32 x =
     (push_bit 24 x AND 0xff000000) OR (push_bit 8 x AND 0x00ff0000) OR
     (drop_bit 8 x AND 0x0000ff00) OR (drop_bit 24 x AND 0x000000ff)"

text \<open>A read of four bytes on a machine of the given byte order.\<close>

definition XXH_read32 :: "XXH_endianess \<Rightarrow> byte list \<Rightarrow> nat \<Rightarrow> 32 word" where
  "XXH_read32 cpu bs p =
     (case cpu of
        XXH_littleEndian \<Rightarrow> le_word (take 4 (drop p bs))
      | XXH_bigEndian \<Rightarrow> le_word (rev (take 4 (drop p bs))))"

definition XXH_readLE32_align :: "XXH_endianess \<Rightarrow> byte list \<Rightarrow> nat \<Rightarrow> XXH_endianess \<Rightarrow> XXH_alignment \<Rightarrow> 32 word" where
  "XXH_readLE32_align cpu bs p endian align =
     (case align of
        XXH_unaligned \<Rightarrow>
          if endian = XXH_littleEndian then XXH_read32 cpu bs p else XXH_swap32 (XXH_read32 cpu bs p)
      | XXH_aligned \<Rightarrow>
          if endian = XXH_littleEndian then XXH_read32 cpu bs p else XXH_swap32 (XXH_read32 cpu bs p))"

definition XXH_round :: "32 word \<Rightarrow> 32 word \<Rightarrow> 32 word" where
  "XXH_round v x = XXH_rotl32 (v + x * PRIME32_2) 13 * PRIME32_1"

text \<open>The \<open>do \<dots> while (p <= limit)\<close> loop over stripes of 16 bytes; \<open>rd\<close> reads a word.\<close>

function stripes :: "(nat \<Rightarrow> 32 word) \<Rightarrow> nat \<Rightarrow> nat \<Rightarrow> 32 word \<times> 32 word \<times> 32 word \<times> 32 word \<Rightarrow>
    nat \<times> (32 word \<times> 32 word \<times> 32 word \<times> 32 word)" where
  "stripes rd limit p (v1, v2, v3, v4) =
     (let v1 = XXH_round v1 (rd p); v2 = XXH_round v2 (rd (p + 4));
          v3 = XXH_round v3 (rd (p + 8)); v4 = XXH_round v4 (rd (p + 12)); p = p + 16
      in if p \<le> limit then stripes rd limit p (v1, v2, v3, v4) else (p, v1, v2, v3, v4))"
  by pat_completeness auto
termination
  by (relation "measure (\<lambda>(rd, limit, p, v). Suc limit - p)") auto

declare stripes.simps [simp del]

function tail_words :: "(nat \<Rightarrow> 32 word) \<Rightarrow> nat \<Rightarrow> nat \<Rightarrow> 32 word \<Rightarrow> nat \<times> 32 word" where
  "tail_words rd bEnd p h32 =
     (if p + 4 \<le> bEnd then tail_words rd bEnd (p + 4) (XXH_rotl32 (h32 + rd p * PRIME32_3) 17 * PRIME32_4)
      else (p, h32))"
  by pat_completeness auto
termination
  by (relation "measure (\<lambda>(rd, bEnd, p, h). bEnd - p)") auto

declare tail_words.simps [simp del]

function tail_bytes :: "byte list \<Rightarrow> nat \<Rightarrow> nat \<Rightarrow> 32 word \<Rightarrow> 32 word" where
  "tail_bytes bs bEnd p h32 =
     (if p < bEnd then tail_bytes bs bEnd (p + 1) (XXH_rotl32 (h32 + ucast (bs ! p) * PRIME32_5) 11 * PRIME32_1)
      else h32)"
  by pat_completeness auto
termination
  by (relation "measure (\<lambda>(bs, bEnd, p, h). bEnd - p)") auto

declare tail_bytes.simps [simp del]

definition avalanche :: "32 word \<Rightarrow> 32 word" where
  "avalanche h32 =
     (let h32 = h32 XOR drop_bit 15 h32; h32 = h32 * PRIME32_2;
          h32 = h32 XOR drop_bit 13 h32; h32 = h32 * PRIME32_3
      in h32 XOR drop_bit 16 h32)"

definition XXH32_endian_align :: "XXH_endianess \<Rightarrow> byte list \<Rightarrow> nat \<Rightarrow> XXH_endianess \<Rightarrow> XXH_alignment \<Rightarrow> 32 word" where
  "XXH32_endian_align cpu bs len endian align =
     (let rd = (\<lambda>p. XXH_readLE32_align cpu bs p endian align);
          (p, h32) =
            (if len \<ge> 16 then
               (case stripes rd (len - 16) 0 (PRIME32_1 + PRIME32_2, PRIME32_2, 0, - PRIME32_1) of
                  (p, v1, v2, v3, v4) \<Rightarrow>
                    (p, XXH_rotl32 v1 1 + XXH_rotl32 v2 7 + XXH_rotl32 v3 12 + XXH_rotl32 v4 18))
             else (0, PRIME32_5));
          h32 = h32 + of_nat len;
          (p, h32) = tail_words rd len p h32
      in avalanche (tail_bytes bs len p h32))"

definition hash_at :: "XXH_endianess \<Rightarrow> byte list \<Rightarrow> nat \<Rightarrow> nat \<Rightarrow> hx_t" where
  "hash_at cpu bs base len =
     (if base mod 4 = 0 then
        (if cpu = XXH_littleEndian then XXH32_endian_align cpu bs len XXH_littleEndian XXH_aligned
         else XXH32_endian_align cpu bs len XXH_bigEndian XXH_aligned)
      else if cpu = XXH_littleEndian then XXH32_endian_align cpu bs len XXH_littleEndian XXH_unaligned
      else XXH32_endian_align cpu bs len XXH_bigEndian XXH_unaligned)"

text \<open>The hash of a string, on a little endian machine.\<close>

definition hash :: "string \<Rightarrow> hx_t" where
  "hash s = hash_at XXH_littleEndian (map of_char s) 0 (length s)"

subsection \<open>Independence of the machine\<close>

lemma bit_le_word:
  "bit (le_word xs :: 'a::len word) n \<longleftrightarrow>
   n < LENGTH('a) \<and> n < 8 * length xs \<and> bit (xs ! (n div 8)) (n mod 8)"
proof (cases "n < 8 * length xs")
  case True
  then have "bit (take_bit 8 (drop_bit (8 * (n div 8)) (le_int xs))) (n mod 8) =
      bit (uint (xs ! (n div 8))) (n mod 8)" by (subst le_int_byte) auto
  then show ?thesis
    using True by (simp add: le_word_def bit_word_of_int_iff bit_take_bit_iff bit_drop_bit_eq bit_uint_iff)
next
  case False
  have "0 \<le> le_int xs \<and> le_int xs < 256 ^ length xs"
  proof (induction xs)
    case (Cons b xs)
    then show ?case using uint_lt2p [of b] by simp
  qed (simp add: le_int_def)
  then have "take_bit (8 * length xs) (le_int xs) = le_int xs"
    by (simp add: take_bit_eq_mod power_mult)
  then have "\<not> bit (le_int xs) n" using False by (metis bit_take_bit_iff)
  then show ?thesis using False by (simp add: le_word_def bit_word_of_int_iff)
qed

lemma swap32_masks: "(0xff000000 :: 32 word) = push_bit 24 (mask 8)" "(0x00ff0000 :: 32 word) = push_bit 16 (mask 8)"
  "(0x0000ff00 :: 32 word) = push_bit 8 (mask 8)" "(0x000000ff :: 32 word) = mask 8"
  by (simp_all add: mask_eq_exp_minus_1)

lemma swap32_rev:
  assumes "length xs = 4"
  shows "XXH_swap32 (le_word (rev xs)) = le_word xs"
proof (rule bit_word_eqI)
  fix n
  assume "n < LENGTH(32)"
  then have n: "n < 32" by simp
  have rev: "bit (le_word (rev xs) :: 32 word) m \<longleftrightarrow> m < 32 \<and> bit (xs ! (3 - m div 8)) (m mod 8)" for m
    using assms by (auto simp: bit_le_word rev_nth)
  define q r where "q = n div 8" and "r = n mod 8"
  then have qr: "n = 8 * q + r" "r < 8" "q < 4" using n by auto
  have dm: "(8 * m + r) div 8 = m" "(8 * m + r) mod 8 = r" for m using qr(2) by auto
  have q: "q = 0 \<or> q = 1 \<or> q = 2 \<or> q = 3" using qr(3) by linarith
  have "bit (XXH_swap32 (le_word (rev xs))) n \<longleftrightarrow> bit (xs ! q) r"
    using q qr(2) dm [of 0] dm [of 1] dm [of 2] dm [of 3] unfolding qr(1)
    by (elim disjE) (simp_all add: XXH_swap32_def swap32_masks bit_simps rev)
  then show "bit (XXH_swap32 (le_word (rev xs))) n = bit (le_word xs :: 32 word) n"
    using n assms by (simp add: bit_le_word q_def r_def)
qed

lemma read_machine:
  assumes "p + 4 \<le> length bs"
  shows "XXH_readLE32_align cpu bs p cpu al = le_word (take 4 (drop p bs))"
  using assms swap32_rev [of "take 4 (drop p bs)"]
  by (cases cpu; cases al) (simp_all add: XXH_readLE32_align_def XXH_read32_def)

text \<open>The loops read the buffer only where they have checked that there are bytes left.\<close>

lemma stripes_cong:
  "p \<le> limit \<Longrightarrow> (\<And>i. i + 4 \<le> limit + 16 \<Longrightarrow> rd i = rd' i) \<Longrightarrow>
   stripes rd limit p v = stripes rd' limit p v"
proof (induction rd limit p v rule: stripes.induct)
  case (1 rd limit p v1 v2 v3 v4)
  have "rd p = rd' p" "rd (p + 4) = rd' (p + 4)" "rd (p + 8) = rd' (p + 8)" "rd (p + 12) = rd' (p + 12)"
    using "1.prems" by simp_all
  then show ?case
    using "1.IH" [OF refl refl refl refl refl] "1.prems" by (subst (1 2) stripes.simps) (simp add: Let_def)
qed

lemma tail_words_cong:
  "(\<And>i. i + 4 \<le> bEnd \<Longrightarrow> rd i = rd' i) \<Longrightarrow> tail_words rd bEnd p h = tail_words rd' bEnd p h"
proof (induction rd bEnd p h rule: tail_words.induct)
  case (1 rd bEnd p h)
  then show ?case by (subst (1 2) tail_words.simps) simp
qed

lemma tail_bytes_take: "tail_bytes (take len bs) len p h = tail_bytes bs len p h"
proof (induction bs len p h rule: tail_bytes.induct)
  case (1 bs len p h)
  then show ?case by (subst (1 2) tail_bytes.simps) simp
qed

text \<open>The hash as it is specified: on the words read in little endian order.\<close>

definition xxh32 :: "byte list \<Rightarrow> hx_t" where
  "xxh32 bs =
     (let rd = (\<lambda>p. le_word (take 4 (drop p bs))); len = length bs;
          (p, h32) =
            (if len \<ge> 16 then
               (case stripes rd (len - 16) 0 (PRIME32_1 + PRIME32_2, PRIME32_2, 0, - PRIME32_1) of
                  (p, v1, v2, v3, v4) \<Rightarrow>
                    (p, XXH_rotl32 v1 1 + XXH_rotl32 v2 7 + XXH_rotl32 v3 12 + XXH_rotl32 v4 18))
             else (0, PRIME32_5));
          (p, h32) = tail_words rd len p (h32 + of_nat len)
      in avalanche (tail_bytes bs len p h32))"

lemma XXH32_machine:
  assumes "len \<le> length bs"
  shows "XXH32_endian_align cpu bs len cpu al = xxh32 (take len bs)"
proof -
  let ?rd = "\<lambda>p. XXH_readLE32_align cpu bs p cpu al"
  let ?rd' = "\<lambda>p. le_word (take 4 (drop p (take len bs))) :: 32 word"
  have rd: "?rd i = ?rd' i" if "i + 4 \<le> len" for i
    using that assms read_machine [of i bs cpu al] by (simp add: take_drop min_def)
  have st: "stripes ?rd (len - 16) 0 v = stripes ?rd' (len - 16) 0 v" if "len \<ge> 16" for v
    using that by (intro stripes_cong rd) auto
  have tw: "tail_words ?rd len p h = tail_words ?rd' len p h" for p h
    by (intro tail_words_cong rd)
  show ?thesis
    using assms st by (simp add: XXH32_endian_align_def xxh32_def tw tail_bytes_take Let_def min_def)
qed

lemma hash_at_xxh32: "len \<le> length bs \<Longrightarrow> hash_at cpu bs base len = xxh32 (take len bs)"
  using XXH32_machine [of len bs] by (cases cpu) (simp_all add: hash_at_def)

subsection \<open>Properties\<close>

text \<open>
  C36: The hash of a buffer depends on neither the byte order of the machine nor the alignment of the
  buffer: it is the reference function of the bytes, read as little endian words.
\<close>

theorem hash_machine_independent:
  assumes "len \<le> length bs"
  shows "hash_at cpu bs base len = xxh32 (take len bs)"
  by (rule hash_at_xxh32 [OF assms])

theorem hash_machine_independent_witness:
  "hash_at XXH_bigEndian [0x61, 0x62, 0x63] 1 3 = 0x32D153FF"
proof -
  have "xxh32 [0x61, 0x62, 0x63] = 0x32D153FF" by code_simp
  then show ?thesis using hash_machine_independent [of 3 "[0x61, 0x62, 0x63]" XXH_bigEndian 1] by simp
qed

end
