(* ===== verification/Book2book.thy ===== *)
theory Book2book
  imports Xquo Hash
begin

text \<open>
  The converter \<open>src/src/book2book.c\<close>: it reads quotes line by line, keeps one book per instrument and
  prints every change in the format asked for. The command line is parsed by code that the build
  generates; its result, the record \<open>yuck_t\<close>, is an input of the model. The standard output is the
  string printed so far. \<open>None\<close> is undefined behaviour: a write behind the end of a line buffer, a side
  outside the book, the use of an uninitialised index.
\<close>

subsection \<open>Line buffers\<close>

text \<open>\<open>char buf[256U]\<close> with \<open>len\<close> characters in it; \<open>pxtostr\<close> and \<open>qxtostr\<close> are told how much room is left.\<close>

abbreviation BUFSZ :: nat where "BUFSZ \<equiv> 256"

definition putc :: "string \<Rightarrow> char \<Rightarrow> string option" where
  "putc buf c = (if length buf < BUFSZ then Some (buf @ [c]) else None)"

fun putcs :: "string \<Rightarrow> string \<Rightarrow> string option" where
  "putcs buf [] = Some buf"
| "putcs buf (c # cs) = do { buf \<leftarrow> putc buf c; putcs buf cs }"

definition putdec :: "string \<Rightarrow> d64 \<Rightarrow> string" where
  "putdec buf x = buf @ d64tostr (BUFSZ - length buf) x"

text \<open>\<open>if (c) { len += pxtostr(\<dots>); }\<close> followed by the separator.\<close>

definition putfield :: "bool \<Rightarrow> d64 \<Rightarrow> char \<Rightarrow> string \<Rightarrow> string option" where
  "putfield c x sep buf = putc (if c then putdec buf x else buf) sep"

abbreviation NL :: char where "NL \<equiv> CHR 0x0a"

text \<open>The truth value of a decimal.\<close>

definition truthy :: "d64 \<Rightarrow> bool" where
  "truthy x \<longleftrightarrow> \<not> deq x 0"

definition zu :: "nat \<Rightarrow> string" where
  "zu n = (if n = 0 then ''0'' else rev (sec_digits (int n)))"

subsection \<open>Books with the state of the printer\<close>

text \<open>
  The union in \<open>xbook_t\<close> holds either four prices and quantities or four arrays of \<open>ntop\<close> of them;
  which one is fixed for a run by the choice of the printer.
\<close>

record xbook_t =
  xb_book :: book_t
  xb_bid :: px_t
  xb_ask :: px_t
  xb_bsz :: qx_t
  xb_asz :: qx_t
  xb_bids :: "px_t list"
  xb_asks :: "px_t list"
  xb_bszs :: "qx_t list"
  xb_aszs :: "qx_t list"

abbreviation zero_bits :: d64 where "zero_bits \<equiv> bobs64 0"

definition make_xbook :: "nat \<Rightarrow> xbook_t" where
  "make_xbook ntop =
     (let z = (if ntop > 1 then replicate ntop zero_bits else [])
      in \<lparr>xb_book = make_book, xb_bid = zero_bits, xb_ask = zero_bits, xb_bsz = zero_bits,
          xb_asz = zero_bits, xb_bids = z, xb_asks = z, xb_bszs = z, xb_aszs = z\<rparr>)"

definition free_xbook :: "xbook_t \<Rightarrow> side list option" where
  "free_xbook xb = free_book (xb_book xb)"

subsection \<open>Printers\<close>

text \<open>The fields bid, ask, bid size, ask size, each left out if there is no such quote.\<close>

definition quad_fields :: "string \<Rightarrow> bool \<Rightarrow> bool \<Rightarrow> px_t \<Rightarrow> px_t \<Rightarrow> qx_t \<Rightarrow> qx_t \<Rightarrow> string option" where
  "quad_fields buf hb ha bp ap bq aq = do {
     buf \<leftarrow> putc buf TAB;
     buf \<leftarrow> putfield hb bp TAB buf;
     buf \<leftarrow> putfield ha ap TAB buf;
     buf \<leftarrow> putfield hb bq TAB buf;
     putfield ha aq NL buf
   }"

definition quad_line :: "string \<Rightarrow> bool \<Rightarrow> bool \<Rightarrow> px_t \<Rightarrow> px_t \<Rightarrow> qx_t \<Rightarrow> qx_t \<Rightarrow> string option" where
  "quad_line tag hb ha bp ap bq aq = do {
     buf \<leftarrow> putcs [] tag;
     quad_fields buf hb ha bp ap bq aq
   }"

definition prq1 :: "string \<Rightarrow> xbook_t \<Rightarrow> (xbook_t \<times> string) option" where
  "prq1 prfx xb = do {
     (bk, b) \<leftarrow> book_top (xb_book xb) BOOK_SIDE_BID;
     (bk, a) \<leftarrow> book_top bk BOOK_SIDE_ASK;
     let xb = xb\<lparr>xb_book := bk\<rparr>;
     if deq (q_p b) (xb_bid xb) \<and> deq (q_q b) (xb_bsz xb) \<and>
        deq (q_p a) (xb_ask xb) \<and> deq (q_q a) (xb_asz xb)
     then Some (xb, [])
     else do {
       let xb = xb\<lparr>xb_bid := q_p b, xb_ask := q_p a, xb_bsz := q_q b, xb_asz := q_q a\<rparr>;
       buf \<leftarrow> quad_line ''c1'' (truthy (q_q b)) (truthy (q_q a)) (q_p b) (q_p a) (q_q b) (q_q a);
       Some (xb, prfx @ buf)
     }
   }"

definition quote_buf :: "book_side_t \<Rightarrow> char \<Rightarrow> px_t \<Rightarrow> qx_t \<Rightarrow> string option" where
  "quote_buf s l p q = do {
     buf \<leftarrow> putcs [] [char_of (unat ((of_nat s :: 8 word) XOR 0x40)), l];
     buf \<leftarrow> putc buf TAB;
     buf \<leftarrow> putfield True p TAB buf;
     putfield True q NL buf
   }"

definition prq2 :: "string \<Rightarrow> xbook_t \<Rightarrow> book_quo_t \<Rightarrow> (xbook_t \<times> string) option" where
  "prq2 prfx xb q = do { buf \<leftarrow> quote_buf (q_s q) (CHR ''2'') (q_p q) (q_q q); Some (xb, prfx @ buf) }"

definition prq3 :: "string \<Rightarrow> xbook_t \<Rightarrow> book_quo_t \<Rightarrow> book_quo_t \<Rightarrow> (xbook_t \<times> string) option" where
  "prq3 prfx xb q old = do {
     buf \<leftarrow> quote_buf (q_s q) (CHR ''3'') (q_p q) (q_q q - q_q old);
     Some (xb, prfx @ buf)
   }"

text \<open>The entries that were filled in, behind them the zero bytes of the \<open>memset\<close>.\<close>

definition padded :: "nat \<Rightarrow> (px_t \<times> qx_t option) list \<Rightarrow> px_t list \<times> qx_t list" where
  "padded ntop xs =
     (map fst xs @ replicate (ntop - length xs) zero_bits,
      map (\<lambda>x. case snd x of Some q \<Rightarrow> q | None \<Rightarrow> zero_bits) xs @ replicate (ntop - length xs) zero_bits)"

text \<open>The lines \<open>c1\<close>, \<open>c2\<close>, \<open>\<dots>\<close> from number \<open>i\<close> on, with \<open>m\<close> of them to go.\<close>

primrec level_lines :: "nat \<Rightarrow> string \<Rightarrow> nat \<Rightarrow> nat \<Rightarrow> nat \<Rightarrow> px_t list \<Rightarrow> px_t list \<Rightarrow> qx_t list \<Rightarrow> qx_t list \<Rightarrow>
    string option" where
  "level_lines 0 prfx i bn an b a B A = Some []"
| "level_lines (Suc m) prfx i bn an b a B A = do {
     buf \<leftarrow> quad_line (CHR ''c'' # zu (i + 1)) (i < bn) (i < an) (b ! i) (a ! i) (B ! i) (A ! i);
     rest \<leftarrow> level_lines m prfx (i + 1) bn an b a B A;
     Some (prfx @ buf @ rest)
   }"

definition line_count :: "nat \<Rightarrow> nat \<Rightarrow> nat \<Rightarrow> nat" where
  "line_count ntop bn an = (if ntop < bn \<and> ntop < an then ntop else if bn < an then an else bn)"

definition prqn :: "nat \<Rightarrow> string \<Rightarrow> xbook_t \<Rightarrow> (xbook_t \<times> string) option" where
  "prqn ntop prfx xb = do {
     (bk, bs) \<leftarrow> book_tops (xb_book xb) BOOK_SIDE_BID ntop True;
     (bk, as) \<leftarrow> book_tops bk BOOK_SIDE_ASK ntop True;
     let xb = xb\<lparr>xb_book := bk\<rparr>;
     let (b, B) = padded ntop bs;
     let (a, A) = padded ntop as;
     if B = xb_bszs xb \<and> A = xb_aszs xb \<and> b = xb_bids xb \<and> a = xb_asks xb then Some (xb, [])
     else do {
       ls \<leftarrow> level_lines (line_count ntop (length bs) (length as)) prfx 0 (length bs) (length as) b a B A;
       Some (xb\<lparr>xb_bids := b, xb_asks := a, xb_bszs := B, xb_aszs := A\<rparr>, ls)
     }
   }"

definition prqc :: "qx_t \<Rightarrow> string \<Rightarrow> xbook_t \<Rightarrow> (xbook_t \<times> string) option" where
  "prqc cqty prfx xb = do {
     (bk, bc) \<leftarrow> book_ctop (xb_book xb) BOOK_SIDE_BID cqty;
     (bk, ac) \<leftarrow> book_ctop bk BOOK_SIDE_ASK cqty;
     let xb = xb\<lparr>xb_book := bk\<rparr>;
     if deq (q_p bc) (xb_bid xb) \<and> deq (q_p ac) (xb_ask xb) then Some (xb, [])
     else do {
       let xb = xb\<lparr>xb_bid := q_p bc, xb_ask := q_p ac\<rparr>;
       buf \<leftarrow> quad_line ''c1'' (truthy (q_q bc)) (truthy (q_q ac)) (q_p bc) (q_p ac) (q_q bc) (q_q ac);
       Some (xb, prfx @ buf)
     }
   }"

definition prqcn :: "nat \<Rightarrow> qx_t \<Rightarrow> string \<Rightarrow> xbook_t \<Rightarrow> (xbook_t \<times> string) option" where
  "prqcn ntop cqty prfx xb = do {
     (bk, bs) \<leftarrow> book_ctops (xb_book xb) BOOK_SIDE_BID cqty ntop True;
     (bk, as) \<leftarrow> book_ctops bk BOOK_SIDE_ASK cqty ntop True;
     let xb = xb\<lparr>xb_book := bk\<rparr>;
     let (b, B) = padded ntop bs;
     let (a, A) = padded ntop as;
     if b = xb_bids xb \<and> a = xb_asks xb then Some (xb, [])
     else do {
       ls \<leftarrow> level_lines (line_count ntop (length bs) (length as)) prfx 0 (length bs) (length as) b a B A;
       Some (xb\<lparr>xb_bids := b, xb_asks := a\<rparr>, ls)
     }
   }"

definition prqv :: "qx_t \<Rightarrow> string \<Rightarrow> xbook_t \<Rightarrow> (xbook_t \<times> string) option" where
  "prqv cqty prfx xb = do {
     (bk, bc) \<leftarrow> book_vtop (xb_book xb) BOOK_SIDE_BID cqty;
     (bk, ac) \<leftarrow> book_vtop bk BOOK_SIDE_ASK cqty;
     let xb = xb\<lparr>xb_book := bk\<rparr>;
     if deq (q_p bc) (xb_bid xb) \<and> deq (q_p ac) (xb_ask xb) then Some (xb, [])
     else do {
       let xb = xb\<lparr>xb_bid := q_p bc, xb_ask := q_p ac\<rparr>;
       buf \<leftarrow> quad_line ''c1'' (truthy (q_q bc)) (truthy (q_q ac)) (q_p bc) (q_p ac) (q_q bc) (q_q ac);
       Some (xb, prfx @ buf)
     }
   }"

definition prqvn :: "nat \<Rightarrow> qx_t \<Rightarrow> string \<Rightarrow> xbook_t \<Rightarrow> (xbook_t \<times> string) option" where
  "prqvn ntop cqty prfx xb = do {
     (bk, bs) \<leftarrow> book_vtops (xb_book xb) BOOK_SIDE_BID cqty ntop True;
     (bk, as) \<leftarrow> book_vtops bk BOOK_SIDE_ASK cqty ntop True;
     let xb = xb\<lparr>xb_book := bk\<rparr>;
     let (b, B) = padded ntop bs;
     let (a, A) = padded ntop as;
     if b = xb_bids xb \<and> a = xb_asks xb then Some (xb, [])
     else do {
       ls \<leftarrow> level_lines (line_count ntop (length bs) (length as)) prfx 0 (length bs) (length as) b a B A;
       Some (xb\<lparr>xb_bids := b, xb_asks := a\<rparr>, ls)
     }
   }"

subsection \<open>The command line\<close>

record yuck_t =
  dash1_flag :: bool
  dash2_flag :: bool
  dash3_flag :: bool
  dashN_arg :: "string option"
  dashC_arg :: "string option"
  instr_args :: "string list"

datatype printer = PRQ1 | PRQ2 | PRQ3 | PRQN | PRQC | PRQCN | PRQV | PRQVN

record config =
  cf_prq :: printer
  cf_ntop :: nat
  cf_cqty :: qx_t

datatype failure = CannotReadLevels | CannotReadQuantity

definition prq :: "config \<Rightarrow> string \<Rightarrow> xbook_t \<Rightarrow> book_quo_t \<Rightarrow> book_quo_t \<Rightarrow> (xbook_t \<times> string) option" where
  "prq cf prfx xb q old =
     (case cf_prq cf of
        PRQ1 \<Rightarrow> prq1 prfx xb
      | PRQ2 \<Rightarrow> prq2 prfx xb q
      | PRQ3 \<Rightarrow> prq3 prfx xb q old
      | PRQN \<Rightarrow> prqn (cf_ntop cf) prfx xb
      | PRQC \<Rightarrow> prqc (cf_cqty cf) prfx xb
      | PRQCN \<Rightarrow> prqcn (cf_ntop cf) (cf_cqty cf) prfx xb
      | PRQV \<Rightarrow> prqv (cf_cqty cf) prfx xb
      | PRQVN \<Rightarrow> prqvn (cf_ntop cf) (cf_cqty cf) prfx xb)"

text \<open>The options, in the order in which they override each other.\<close>

definition options :: "yuck_t \<Rightarrow> (failure + config) option" where
  "options argi =
     (let p = (if dash1_flag argi then PRQ1 else PRQ2);
          p = (if dash3_flag argi then PRQ3 else p);
          p = (if dash2_flag argi then PRQ2 else p);
          ntop = (case dashN_arg argi of None \<Rightarrow> 0 | Some s \<Rightarrow> unat (fst (strtoul s)));
          p = (case dashN_arg argi of None \<Rightarrow> p | Some _ \<Rightarrow> if ntop > 1 then PRQN else PRQ1)
      in if dashN_arg argi \<noteq> None \<and> ntop = 0 then Some (Inl CannotReadLevels)
         else (case dashC_arg argi of
                 None \<Rightarrow> Some (Inr \<lparr>cf_prq = p, cf_ntop = ntop, cf_cqty = zero_bits\<rparr>)
               | Some s \<Rightarrow> do {
                   let v = (deref_c s = CHR ''/'');
                   let p = (if \<not> v then (if ntop > 1 then PRQCN else PRQC)
                            else (if ntop > 1 then PRQVN else PRQV));
                   (cqty, _) \<leftarrow> strtod64 (if v then tl s else s);
                   if cqty \<le> 0 then Some (Inl CannotReadQuantity)
                   else Some (Inr \<lparr>cf_prq = p, cf_ntop = ntop, cf_cqty = cqty\<rparr>)
                 }))"

subsection \<open>The books by instrument\<close>

text \<open>
  The arrays \<open>conx\<close> and \<open>book\<close> as the lists of their initialised entries: \<open>nbook\<close> of them, and the entry
  of the catch-all behind them if there is one.
\<close>

record shelf =
  sh_conx :: "hx_t list"
  sh_book :: "xbook_t list"
  sh_nbook :: nat
  sh_zbook :: nat
  sh_nctch :: nat

abbreviation HX_CATCHALL :: hx_t where "HX_CATCHALL \<equiv> - 1"

definition catchall :: "string \<Rightarrow> bool" where
  "catchall s \<longleftrightarrow> s = '''' \<or> s = ''*''"

definition shelf_init :: "nat \<Rightarrow> string list \<Rightarrow> shelf" where
  "shelf_init ntop instr =
     (if instr \<noteq> [] then
        (let cs = filter (\<lambda>s. \<not> catchall s) instr; j = length cs;
             hs = map hash cs; bs = replicate j (make_xbook ntop)
         in if j < length instr
            then \<lparr>sh_conx = hs @ [HX_CATCHALL], sh_book = bs @ [make_xbook ntop], sh_nbook = j,
                  sh_zbook = 0, sh_nctch = 1\<rparr>
            else \<lparr>sh_conx = hs, sh_book = bs, sh_nbook = j, sh_zbook = 0, sh_nctch = 0\<rparr>)
      else \<lparr>sh_conx = [], sh_book = [], sh_nbook = 0, sh_zbook = 8, sh_nctch = 0\<rparr>)"

datatype lookup = Found nat | NotForUs

text \<open>
  Which book a quote goes to. The index is left uninitialised when the search loop is not entered,
  that is when there are neither books nor room for new ones.
\<close>

definition find_book :: "nat \<Rightarrow> shelf \<Rightarrow> string \<Rightarrow> (shelf \<times> lookup) option" where
  "find_book ntop sh ins =
     (let hx = hash ins; searched = (sh_nbook sh \<noteq> 0 \<or> sh_zbook sh \<noteq> 0);
          k = scan_while (\<lambda>k. sh_conx sh ! k \<noteq> hx) 0 (sh_nbook sh)
      in if searched \<and> k < sh_nbook sh then Some (sh, Found k)
         else if sh_nctch sh \<noteq> 0 then (if searched then Some (sh, Found k) else None)
         else if sh_zbook sh = 0 then Some (sh, NotForUs)
         else Some (sh\<lparr>sh_zbook := (if sh_nbook sh \<ge> sh_zbook sh then sh_zbook sh * 2 else sh_zbook sh),
                      sh_conx := sh_conx sh @ [hx], sh_book := sh_book sh @ [make_xbook ntop],
                      sh_nbook := sh_nbook sh + 1\<rparr>, Found k))"

subsection \<open>One quote\<close>

text \<open>
  Unwinding a side level by level: as long as the iterator finds a level that \<open>C\<close> accepts, delete it
  with a quote of quantity zero and print the change.
\<close>

partial_function (option) unwind :: "config \<Rightarrow> string \<Rightarrow> book_side_t \<Rightarrow> (px_t \<Rightarrow> bool) \<Rightarrow> xbook_t \<Rightarrow>
    book_iter_t \<Rightarrow> string \<Rightarrow> (xbook_t \<times> string) option" where
  "unwind cf prfx s C xb i out = do {
     (h, t) \<leftarrow> BOOK (xb_book xb) s;
     (h, i, ok) \<leftarrow> book_iter_next h i;
     let xb = xb\<lparr>xb_book := set_side (xb_book xb) s h\<rparr>;
     if ok \<and> C (bi_p i) then do {
       let r = \<lparr>q_s = s, q_f = BOOK_LVL_2, q_p = bi_p i, q_q = 0, q_t = 0\<rparr>;
       (bk, old) \<leftarrow> book_add (xb_book xb) r;
       (xb, txt) \<leftarrow> prq cf prfx (xb\<lparr>xb_book := bk\<rparr>) r old;
       unwind cf prfx s C xb i (out @ txt)
     } else Some (xb, out)
   }"

declare unwind.simps [code]

definition unwind_side :: "config \<Rightarrow> string \<Rightarrow> book_side_t \<Rightarrow> (px_t \<Rightarrow> bool) \<Rightarrow> xbook_t \<Rightarrow> (xbook_t \<times> string) option" where
  "unwind_side cf prfx s C xb = do {
     (h, t) \<leftarrow> BOOK (xb_book xb) s;
     unwind cf prfx s C xb (book_iter t) []
   }"

definition on_quote :: "config \<Rightarrow> string \<Rightarrow> xbook_t \<Rightarrow> book_quo_t \<Rightarrow> (xbook_t \<times> string) option" where
  "on_quote cf prfx xb q =
     (let interim = (cf_prq cf = PRQ2 \<or> cf_prq cf = PRQ3);
          add = (\<lambda>xb out. do {
            (bk, old) \<leftarrow> book_add (xb_book xb) q;
            (xb, txt) \<leftarrow> prq cf prfx (xb\<lparr>xb_book := bk\<rparr>) q old;
            Some (xb, out @ txt)
          })
      in if q_f q = BOOK_LVL_1 \<and> interim then do {
           (xb, out) \<leftarrow> unwind_side cf prfx (q_s q)
              (\<lambda>p. q_s q = BOOK_SIDE_BID \<and> p > q_p q \<or> q_s q = BOOK_SIDE_ASK \<and> p < q_p q) xb;
           add xb out
         }
         else if q_s q = BOOK_SIDE_CLR \<and> interim then do {
           (xb, out1) \<leftarrow> unwind_side cf prfx BOOK_SIDE_BID (\<lambda>_. True) xb;
           (xb, out2) \<leftarrow> unwind_side cf prfx BOOK_SIDE_ASK (\<lambda>_. True) xb;
           Some (xb, out1 @ out2)
         }
         else add xb [])"

subsection \<open>The main loop\<close>

definition on_line :: "config \<Rightarrow> shelf \<Rightarrow> string \<Rightarrow> (shelf \<times> string) option" where
  "on_line cf sh line = do {
     q \<leftarrow> read_xquo line (length line);
     if NOT_A_XQUO_P q then Some (sh, [])
     else do {
       ins \<leftarrow> xq_ins q;
       let prfx = take (ins + xq_inz q + (if xq_inz q \<noteq> 0 then 1 else 0)) line;
       (sh, r) \<leftarrow> find_book (cf_ntop cf) sh (take (xq_inz q) (drop ins line));
       case r of
         NotForUs \<Rightarrow> Some (sh, [])
       | Found k \<Rightarrow> do {
           xb \<leftarrow> nth_opt (sh_book sh) k;
           (xb, out) \<leftarrow> on_quote cf prfx xb (xq_q q);
           Some (sh\<lparr>sh_book := (sh_book sh)[k := xb]\<rparr>, out)
         }
     }
   }"

fun on_lines :: "config \<Rightarrow> shelf \<Rightarrow> string list \<Rightarrow> (shelf \<times> string) option" where
  "on_lines cf sh [] = Some (sh, [])"
| "on_lines cf sh (l # ls) = do {
     (sh, out) \<leftarrow> on_line cf sh l;
     (sh, rest) \<leftarrow> on_lines cf sh ls;
     Some (sh, out @ rest)
   }"

fun free_books :: "xbook_t list \<Rightarrow> unit option" where
  "free_books [] = Some ()"
| "free_books (xb # xbs) = do { _ \<leftarrow> free_xbook xb; free_books xbs }"

definition book2book :: "yuck_t \<Rightarrow> string list \<Rightarrow> (failure + string) option" where
  "book2book argi input = do {
     r \<leftarrow> options argi;
     case r of
       Inl e \<Rightarrow> Some (Inl e)
     | Inr cf \<Rightarrow> do {
         (sh, out) \<leftarrow> on_lines cf (shelf_init (cf_ntop cf) (instr_args argi)) input;
         _ \<leftarrow> free_books (take (sh_nbook sh + sh_nctch sh) (sh_book sh));
         Some (Inr out)
       }
   }"

subsection \<open>Quotes find their book\<close>

text \<open>
  The invariant of the arrays: as many books as hashes, one more than \<open>nbook\<close> if there is a catch-all, and
  no instrument twice once books are made on demand.
\<close>

definition shelf_ok :: "shelf \<Rightarrow> bool" where
  "shelf_ok sh \<longleftrightarrow>
     length (sh_conx sh) = sh_nbook sh + sh_nctch sh \<and> length (sh_book sh) = sh_nbook sh + sh_nctch sh \<and>
     (sh_zbook sh \<noteq> 0 \<longrightarrow> sh_nctch sh = 0 \<and> sh_nbook sh \<le> sh_zbook sh \<and> distinct (sh_conx sh))"

lemma shelf_init_ok: "shelf_ok (shelf_init ntop instr)"
  by (auto simp: shelf_ok_def shelf_init_def Let_def)

lemma scan_hash:
  fixes sh :: shelf and hx :: hx_t
  defines "k \<equiv> scan_while (\<lambda>k. sh_conx sh ! k \<noteq> hx) 0 (sh_nbook sh)"
  shows "k \<le> sh_nbook sh" "k < sh_nbook sh \<Longrightarrow> sh_conx sh ! k = hx"
    "\<not> k < sh_nbook sh \<Longrightarrow> j < sh_nbook sh \<Longrightarrow> sh_conx sh ! j \<noteq> hx"
  using scan_while_le [of 0 "sh_nbook sh" "\<lambda>k. sh_conx sh ! k \<noteq> hx"]
    scan_while_stop [of "\<lambda>k. sh_conx sh ! k \<noteq> hx" 0 "sh_nbook sh"]
    scan_while_all [of 0 j "\<lambda>k. sh_conx sh ! k \<noteq> hx" "sh_nbook sh"]
  unfolding k_def by auto

lemma find_book_spec:
  assumes ok: "shelf_ok sh" and some: "sh_nbook sh \<noteq> 0 \<or> sh_nctch sh = 0"
  shows "\<exists>sh' r. find_book ntop sh ins = Some (sh', r) \<and> shelf_ok sh' \<and>
    (\<forall>i < length (sh_book sh). sh_book sh' ! i = sh_book sh ! i) \<and>
    (case r of
       Found k \<Rightarrow> k < length (sh_book sh') \<and>
         (sh_conx sh' ! k = hash ins \<or>
          k = sh_nbook sh' \<and> sh_nctch sh' \<noteq> 0 \<and> (\<forall>j < sh_nbook sh. sh_conx sh ! j \<noteq> hash ins))
     | NotForUs \<Rightarrow> sh' = sh \<and> sh_zbook sh = 0 \<and> (\<forall>j < sh_nbook sh. sh_conx sh ! j \<noteq> hash ins))"
proof -
  let ?k = "scan_while (\<lambda>k. sh_conx sh ! k \<noteq> hash ins) 0 (sh_nbook sh)"
  note k = scan_hash [where sh = sh and hx = "hash ins"]
  have len: "length (sh_conx sh) = sh_nbook sh + sh_nctch sh" "length (sh_book sh) = sh_nbook sh + sh_nctch sh"
    using ok by (simp_all add: shelf_ok_def)
  consider (found) "?k < sh_nbook sh"
    | (catch) "\<not> ?k < sh_nbook sh" "sh_nctch sh \<noteq> 0"
    | (other) "\<not> ?k < sh_nbook sh" "sh_nctch sh = 0" "sh_zbook sh = 0"
    | (new) "\<not> ?k < sh_nbook sh" "sh_nctch sh = 0" "sh_zbook sh \<noteq> 0" by blast
  then show ?thesis
  proof cases
    case found
    then show ?thesis using ok k(2) len by (simp add: find_book_def Let_def)
  next
    case catch
    then have "?k = sh_nbook sh" using k(1) by simp
    then show ?thesis using catch ok some k(3) len by (simp add: find_book_def Let_def)
  next
    case other
    then show ?thesis using ok k(3) by (auto simp: find_book_def Let_def)
  next
    case new
    then have "?k = sh_nbook sh" using k(1) by simp
    moreover have "hash ins \<notin> set (sh_conx sh)"
      using k(3) [OF new(1)] len new(2) by (auto simp: in_set_conv_nth)
    ultimately show ?thesis
      using new ok len by (simp add: find_book_def Let_def shelf_ok_def nth_append)
  qed
qed

text \<open>
  C37: On a table in order that has at least one instrument or no catch-all, every quote is routed to the right book: the
  search ends with an index within the array of books; the book there is the one with the hash of the instrument, or the
  catch-all if there is none; a quote is dropped only if instruments were given and it matches none; a new instrument gets
  a new book, and the table stays in order. With nothing but catch-alls the index is uninitialised, see
  \<open>find_book_only_catchalls\<close>.
\<close>

theorem find_book_routes:
  assumes ok: "shelf_ok sh" and some: "sh_nbook sh \<noteq> 0 \<or> sh_nctch sh = 0"
  shows "\<exists>sh' r. find_book ntop sh ins = Some (sh', r) \<and> shelf_ok sh' \<and>
    (\<forall>i < length (sh_book sh). sh_book sh' ! i = sh_book sh ! i) \<and>
    (case r of
       Found k \<Rightarrow> k < length (sh_book sh') \<and>
         (sh_conx sh' ! k = hash ins \<or>
          k = sh_nbook sh' \<and> sh_nctch sh' \<noteq> 0 \<and> (\<forall>j < sh_nbook sh. sh_conx sh ! j \<noteq> hash ins))
     | NotForUs \<Rightarrow> sh' = sh \<and> sh_zbook sh = 0 \<and> (\<forall>j < sh_nbook sh. sh_conx sh ! j \<noteq> hash ins))"
  by (rule find_book_spec [OF assms])

theorem find_book_routes_witness:
  "\<exists>sh' r. find_book 0 (shelf_init 0 []) ''EURUSD'' = Some (sh', r) \<and> shelf_ok sh'"
  using find_book_routes [OF shelf_init_ok, of 0 "[]" 0 "''EURUSD''"] by (auto simp: shelf_init_def)

text \<open>
  The proviso is needed: with nothing but catch-alls on the command line the search loop is not entered and
  every quote is put into a book with an uninitialised index.
\<close>

lemma find_book_only_catchalls:
  "find_book ntop (shelf_init ntop [''*'']) ins = None"
  by (simp add: find_book_def shelf_init_def catchall_def)

end
