(* ===== verification/Booksnap.thy ===== *)
theory Booksnap
  imports Book2book
begin

text \<open>
  The snapshot tool \<open>src/src/booksnap.c\<close>: it reads quotes like \<open>book2book\<close>, but prints the state of all books
  whenever the time of the quotes passes a tick of a metronome, which beats in regular intervals or
  at the stamps of a file. The parsed command line, the lines of the stamps file and what freshly
  allocated memory holds (\<open>junk\<close>) are inputs of the model. As in \<open>Book2book\<close>, the output is a string and
  \<open>None\<close> is undefined behaviour or a loop that does not end.
\<close>

subsection \<open>Intervals\<close>

text \<open>
  The multiplier that a suffix stands for, \<open>NATV\<close> for an invalid one. Behind \<open>u\<close> and \<open>n\<close> one more character is
  skipped unseen, and for a bare \<open>u\<close> or \<open>n\<close> the next read is behind the end of the string.
\<close>

definition at_end :: "tv \<Rightarrow> string \<Rightarrow> tv" where
  "at_end r str = (if str \<noteq> [] then NATV else r)"

definition sufstrtotv :: "string \<Rightarrow> tv option" where
  "sufstrtotv str =
     (case str of
        [] \<Rightarrow> Some 0
      | c # str \<Rightarrow>
          if c = CHR ''s'' \<or> c = CHR ''S'' then Some (at_end NSECS str)
          else if c = CHR ''m'' \<or> c = CHR ''M'' then
            (case str of
               [] \<Rightarrow> Some (60 * NSECS)
             | d # str \<Rightarrow> if d = CHR ''s'' \<or> d = CHR ''S'' then Some (at_end USECS str) else Some NATV)
          else if c = CHR ''h'' \<or> c = CHR ''H'' then Some (at_end (60 * 60 * MSECS) str)
          else if c = CHR ''u'' \<or> c = CHR ''U'' then
            (case str of [] \<Rightarrow> None | _ # str \<Rightarrow> Some (at_end MSECS str))
          else if c = CHR ''n'' \<or> c = CHR ''N'' then
            (case str of [] \<Rightarrow> None | _ # str \<Rightarrow> Some (at_end 1 str))
          else Some NATV)"

subsection \<open>The metronome\<close>

record tempo =
  te_intv :: tv
  te_offs :: tv
  te_inva :: tv
  te_stamps :: bool

text \<open>The tick, the static variable of \<open>_next_intv\<close> and the lines left of the stamps file.\<close>

record clock =
  ck_metr :: tv
  ck_oldm :: tv
  ck_sfil :: "string list"

definition next_intv :: "tempo \<Rightarrow> clock \<Rightarrow> tv \<Rightarrow> (tv \<times> clock) option" where
  "next_intv te ck newm =
     (let late = ck_metr ck + te_inva te;
          (ck, newm) =
            (if te_inva te \<noteq> 0 \<and> ck_metr ck \<noteq> 0 \<and> late > ck_oldm ck \<and> late < newm
             then (ck\<lparr>ck_oldm := newm\<rparr>, late) else (ck, newm));
          newm = newm - 1 - te_offs te
      in if te_intv te = 0 then None
         else Some ((newm div te_intv te + 1) * te_intv te + te_offs te, ck))"

definition next_stmp :: "clock \<Rightarrow> tv \<Rightarrow> tv \<times> clock" where
  "next_stmp ck newm =
     (case ck_sfil ck of
        [] \<Rightarrow> (NATV, ck)
      | line # ls \<Rightarrow>
          (let newm = fst (strtotv line)
           in (if newm \<noteq> NATV then newm else NATV, ck\<lparr>ck_sfil := ls\<rparr>)))"

definition next_tick :: "tempo \<Rightarrow> clock \<Rightarrow> tv \<Rightarrow> clock option" where
  "next_tick te ck newm = do {
     (m, ck) \<leftarrow> (if te_stamps te then Some (next_stmp ck newm) else next_intv te ck newm);
     Some (ck\<lparr>ck_metr := m\<rparr>)
   }"

text \<open>\<open>while ((metr = next(t)) < t);\<close>\<close>

partial_function (option) advance :: "tempo \<Rightarrow> tv \<Rightarrow> clock \<Rightarrow> clock option" where
  "advance te t ck = do {
     ck \<leftarrow> next_tick te ck t;
     if ck_metr ck < t then advance te t ck else Some ck
   }"

subsection \<open>Snapshots of one book\<close>

text \<open>The time and the instrument, which is copied without a look at the room in the buffer.\<close>

definition stamp_buf :: "tv \<Rightarrow> string option \<Rightarrow> string \<Rightarrow> string option" where
  "stamp_buf metr cont tag = do {
     let buf = tvtostr BUFSZ metr;
     buf \<leftarrow> (case cont of None \<Rightarrow> Some buf | Some c \<Rightarrow> putcs buf (TAB # c));
     putcs buf (TAB # tag)
   }"

definition level_buf :: "string \<Rightarrow> px_t \<Rightarrow> qx_t \<Rightarrow> string option" where
  "level_buf buf p q = do { buf \<leftarrow> putfield True p TAB buf; putfield True q NL buf }"

text \<open>\<open>buf[prfz - 3U] = 'A'\<close>\<close>

definition go_to_asks :: "string \<Rightarrow> string" where
  "go_to_asks buf = buf[length buf - 3 := CHR ''A'']"

definition snap1 :: "tv \<Rightarrow> string option \<Rightarrow> book_t \<Rightarrow> (book_t \<times> string) option" where
  "snap1 metr cont bk = do {
     (bk, b) \<leftarrow> book_top bk BOOK_SIDE_BID;
     (bk, a) \<leftarrow> book_top bk BOOK_SIDE_ASK;
     buf \<leftarrow> stamp_buf metr cont (''c1'' @ [TAB]);
     buf \<leftarrow> putfield (truthy (q_q b)) (q_p b) TAB buf;
     buf \<leftarrow> putfield (truthy (q_q a)) (q_p a) TAB buf;
     buf \<leftarrow> putfield True (q_q b) TAB buf;
     buf \<leftarrow> putfield True (q_q a) NL buf;
     Some (bk, buf)
   }"

definition snap12 :: "tv \<Rightarrow> string option \<Rightarrow> book_t \<Rightarrow> (book_t \<times> string) option" where
  "snap12 metr cont bk = do {
     prfx \<leftarrow> stamp_buf metr cont (''B1'' @ [TAB]);
     (bk, q) \<leftarrow> book_top bk BOOK_SIDE_BID;
     out1 \<leftarrow> (if q_q q > 0 then level_buf prfx (q_p q) (q_q q) else Some []);
     let prfx = go_to_asks prfx;
     (bk, q) \<leftarrow> book_top bk BOOK_SIDE_ASK;
     out2 \<leftarrow> (if q_q q > 0 then level_buf prfx (q_p q) (q_q q) else Some []);
     Some (bk, out1 @ out2)
   }"

partial_function (option) snap_levels :: "string \<Rightarrow> heap \<Rightarrow> book_iter_t \<Rightarrow> string \<Rightarrow> (heap \<times> string) option" where
  "snap_levels prfx h i out = do {
     (h, i, ok) \<leftarrow> book_iter_next h i;
     if ok then do {
       buf \<leftarrow> level_buf prfx (bi_p i) (bi_q i);
       snap_levels prfx h i (out @ buf)
     } else Some (h, out)
   }"

definition snap2 :: "tv \<Rightarrow> string option \<Rightarrow> book_t \<Rightarrow> (book_t \<times> string) option" where
  "snap2 metr cont bk = do {
     prfx \<leftarrow> stamp_buf metr cont (''B2'' @ [TAB]);
     (h, t) \<leftarrow> BOOK bk BOOK_SIDE_BID;
     (h, out1) \<leftarrow> snap_levels prfx h (book_iter t) [];
     let bk = set_side bk BOOK_SIDE_BID h;
     let prfx = go_to_asks prfx;
     (h, t) \<leftarrow> BOOK bk BOOK_SIDE_ASK;
     (h, out2) \<leftarrow> snap_levels prfx h (book_iter t) [];
     Some (set_side bk BOOK_SIDE_ASK h, out1 @ out2)
   }"

text \<open>The lines of \<open>snapn\<close>, \<open>snapcn\<close> and \<open>snapvn\<close>: \<open>m\<close> to go, from number \<open>i\<close> on.\<close>

primrec snap_lines :: "nat \<Rightarrow> string \<Rightarrow> nat \<Rightarrow> (px_t \<times> qx_t option) list \<Rightarrow> (px_t \<times> qx_t option) list \<Rightarrow>
    string option" where
  "snap_lines 0 prfx i bs as = Some []"
| "snap_lines (Suc m) prfx i bs as = do {
     let (b, B) = (if i < length bs then bs ! i else (key_fill, None));
     let (a, A) = (if i < length as then as ! i else (key_fill, None));
     buf \<leftarrow> putcs prfx (zu (i + 1));
     buf \<leftarrow> quad_fields buf (i < length bs) (i < length as) b a
        (case B of Some q \<Rightarrow> q | None \<Rightarrow> key_fill) (case A of Some q \<Rightarrow> q | None \<Rightarrow> key_fill);
     rest \<leftarrow> snap_lines m prfx (i + 1) bs as;
     Some (buf @ rest)
   }"

definition snap_quads :: "nat \<Rightarrow> tv \<Rightarrow> string option \<Rightarrow> (px_t \<times> qx_t option) list \<Rightarrow> (px_t \<times> qx_t option) list \<Rightarrow>
    string option" where
  "snap_quads ntop metr cont bs as = do {
     prfx \<leftarrow> stamp_buf metr cont ''c'';
     snap_lines (line_count ntop (length bs) (length as)) prfx 0 bs as
   }"

definition snapn :: "nat \<Rightarrow> tv \<Rightarrow> string option \<Rightarrow> book_t \<Rightarrow> (book_t \<times> string) option" where
  "snapn ntop metr cont bk = do {
     (bk, bs) \<leftarrow> book_tops bk BOOK_SIDE_BID ntop True;
     (bk, as) \<leftarrow> book_tops bk BOOK_SIDE_ASK ntop True;
     out \<leftarrow> snap_quads ntop metr cont bs as;
     Some (bk, out)
   }"

definition snap_quote :: "tv \<Rightarrow> string option \<Rightarrow> book_quo_t \<Rightarrow> book_quo_t \<Rightarrow> string option" where
  "snap_quote metr cont b a = do {
     buf \<leftarrow> stamp_buf metr cont ''c1'';
     quad_fields buf (truthy (q_q b)) (truthy (q_q a)) (q_p b) (q_p a) (q_q b) (q_q a)
   }"

definition snapc :: "qx_t \<Rightarrow> tv \<Rightarrow> string option \<Rightarrow> book_t \<Rightarrow> (book_t \<times> string) option" where
  "snapc cqty metr cont bk = do {
     (bk, b) \<leftarrow> book_ctop bk BOOK_SIDE_BID cqty;
     (bk, a) \<leftarrow> book_ctop bk BOOK_SIDE_ASK cqty;
     out \<leftarrow> snap_quote metr cont b a;
     Some (bk, out)
   }"

definition snapcn :: "nat \<Rightarrow> qx_t \<Rightarrow> tv \<Rightarrow> string option \<Rightarrow> book_t \<Rightarrow> (book_t \<times> string) option" where
  "snapcn ntop cqty metr cont bk = do {
     (bk, bs) \<leftarrow> book_ctops bk BOOK_SIDE_BID cqty ntop True;
     (bk, as) \<leftarrow> book_ctops bk BOOK_SIDE_ASK cqty ntop True;
     out \<leftarrow> snap_quads ntop metr cont bs as;
     Some (bk, out)
   }"

definition snapv :: "qx_t \<Rightarrow> tv \<Rightarrow> string option \<Rightarrow> book_t \<Rightarrow> (book_t \<times> string) option" where
  "snapv cqty metr cont bk = do {
     (bk, b) \<leftarrow> book_vtop bk BOOK_SIDE_BID cqty;
     (bk, a) \<leftarrow> book_vtop bk BOOK_SIDE_ASK cqty;
     out \<leftarrow> snap_quote metr cont b a;
     Some (bk, out)
   }"

definition snapvn :: "nat \<Rightarrow> qx_t \<Rightarrow> tv \<Rightarrow> string option \<Rightarrow> book_t \<Rightarrow> (book_t \<times> string) option" where
  "snapvn ntop cqty metr cont bk = do {
     (bk, bs) \<leftarrow> book_vtops bk BOOK_SIDE_BID cqty ntop True;
     (bk, as) \<leftarrow> book_vtops bk BOOK_SIDE_ASK cqty ntop True;
     out \<leftarrow> snap_quads ntop metr cont bs as;
     Some (bk, out)
   }"

subsection \<open>Changes since the last snapshot\<close>

text \<open>
  The copy of a book that \<open>snap3\<close> compares with: the number of levels per side and the arrays, as long
  as they are allocated. Entries from \<open>bn\<close> on are left over or were never written.
\<close>

record aux3 =
  ax_bn :: nat
  ax_an :: nat
  ax_b :: "px_t list"
  ax_B :: "qx_t list"
  ax_a :: "px_t list"
  ax_A :: "qx_t list"

definition no_aux :: aux3 where
  "no_aux = \<lparr>ax_bn = 0, ax_an = 0, ax_b = [], ax_B = [], ax_a = [], ax_A = []\<rparr>"

definition init_snap3 :: "nat \<Rightarrow> aux3 list" where
  "init_snap3 nbook = replicate (unat ((of_nat nbook :: 64 word) OR 7) + 1) no_aux"

text \<open>\<open>realloc\<close> to twice the size, or 32 entries.\<close>

definition grow :: "d64 \<Rightarrow> nat \<Rightarrow> d64 list \<Rightarrow> d64 list" where
  "grow junk bi xs =
     (if bi \<ge> length xs
      then xs @ replicate (if length xs = 0 then 32 else length xs) junk else xs)"

partial_function (option) save_levels :: "d64 \<Rightarrow> heap \<Rightarrow> book_iter_t \<Rightarrow> nat \<Rightarrow> px_t list \<Rightarrow> qx_t list \<Rightarrow>
    (heap \<times> nat \<times> px_t list \<times> qx_t list) option" where
  "save_levels junk h i bi ps qs = do {
     (h, i, ok) \<leftarrow> book_iter_next h i;
     if ok then
       save_levels junk h i (bi + 1) ((grow junk bi ps)[bi := bi_p i]) ((grow junk bi qs)[bi := bi_q i])
     else Some (h, bi, ps, qs)
   }"

definition snap3_book :: "d64 \<Rightarrow> book_t \<Rightarrow> aux3 \<Rightarrow> (book_t \<times> aux3) option" where
  "snap3_book junk bk ax = do {
     (h, t) \<leftarrow> BOOK bk BOOK_SIDE_BID;
     (h, n, ps, qs) \<leftarrow> save_levels junk h (book_iter t) 0 (ax_b ax) (ax_B ax);
     let bk = set_side bk BOOK_SIDE_BID h;
     let ax = ax\<lparr>ax_bn := n, ax_b := ps, ax_B := qs\<rparr>;
     (h, t) \<leftarrow> BOOK bk BOOK_SIDE_ASK;
     (h, n, ps, qs) \<leftarrow> save_levels junk h (book_iter t) 0 (ax_a ax) (ax_A ax);
     Some (set_side bk BOOK_SIDE_ASK h, ax\<lparr>ax_an := n, ax_a := ps, ax_A := qs\<rparr>)
   }"

text \<open>The order in which a side is walked: \<open>p\<close> comes before \<open>o\<close>.\<close>

definition ahead :: "book_side_t \<Rightarrow> px_t \<Rightarrow> px_t \<Rightarrow> bool" where
  "ahead s p o' \<longleftrightarrow> (if s = BOOK_SIDE_BID then p > o' else p < o')"

definition level_with :: "book_side_t \<Rightarrow> px_t \<Rightarrow> px_t \<Rightarrow> bool" where
  "level_with s p o' \<longleftrightarrow> (if s = BOOK_SIDE_BID then p \<le> o' else p \<ge> o')"

text \<open>
  The lines for one level \<open>p\<close>, \<open>q\<close> of the book: first the saved levels in front of it, which are gone, then
  its own. The test whether another saved level is in front reads the entry behind the last one, too.
\<close>

partial_function (option) diff_level :: "book_side_t \<Rightarrow> string \<Rightarrow> nat \<Rightarrow> px_t list \<Rightarrow> qx_t list \<Rightarrow> px_t \<Rightarrow> qx_t \<Rightarrow>
    nat \<Rightarrow> string \<Rightarrow> (nat \<times> string) option" where
  "diff_level s prfx bn pp qp p q bi out = do {
     r \<leftarrow> (if bi \<ge> bn then Some (Some (p, q))
           else do {
             o' \<leftarrow> nth_opt pp bi;
             oq \<leftarrow> nth_opt qp bi;
             Some (if deq p o' then Some (p, q - oq)
                   else if ahead s p o' then Some (p, q)
                   else if ahead s o' p then Some (o', - oq)
                   else None)
           });
     case r of
       None \<Rightarrow> Some (bi, out)
     | Some (x, y) \<Rightarrow> do {
         buf \<leftarrow> level_buf prfx x y;
         let out = out @ buf;
         if bi < bn then do {
           o' \<leftarrow> nth_opt pp bi;
           if level_with s p o' then do {
             let bi = bi + 1;
             o' \<leftarrow> nth_opt pp bi;
             if ahead s o' p then diff_level s prfx bn pp qp p q bi out else Some (bi, out)
           } else Some (bi, out)
         } else Some (bi, out)
       }
   }"

partial_function (option) diff_side :: "book_side_t \<Rightarrow> string \<Rightarrow> nat \<Rightarrow> px_t list \<Rightarrow> qx_t list \<Rightarrow> heap \<Rightarrow>
    book_iter_t \<Rightarrow> nat \<Rightarrow> string \<Rightarrow> (heap \<times> string) option" where
  "diff_side s prfx bn pp qp h i bi out = do {
     (h, i, ok) \<leftarrow> book_iter_next h i;
     if ok then do {
       (bi, out) \<leftarrow> diff_level s prfx bn pp qp (bi_p i) (bi_q i) bi out;
       diff_side s prfx bn pp qp h i bi out
     } else Some (h, out)
   }"

text \<open>\<open>while ((zbk *= 2U) < ibk);\<close>, and all that was saved is lost: the array is allocated anew.\<close>

partial_function (option) resize_aux :: "nat \<Rightarrow> nat \<Rightarrow> nat option" where
  "resize_aux zbk ibk = (let zbk = zbk * 2 in if zbk < ibk then resize_aux zbk ibk else Some zbk)"

definition snap3 :: "d64 \<Rightarrow> nat \<Rightarrow> tv \<Rightarrow> string option \<Rightarrow> book_t \<Rightarrow> aux3 list \<Rightarrow>
    (book_t \<times> aux3 list \<times> string) option" where
  "snap3 junk ibk metr cont bk axs = do {
     axs \<leftarrow> (if ibk \<ge> length axs
             then do { zbk \<leftarrow> resize_aux (length axs) ibk; Some (replicate zbk no_aux) }
             else Some axs);
     ax \<leftarrow> nth_opt axs ibk;
     prfx \<leftarrow> stamp_buf metr cont (''B2'' @ [TAB]);
     (h, t) \<leftarrow> BOOK bk BOOK_SIDE_BID;
     (h, out1) \<leftarrow> diff_side BOOK_SIDE_BID prfx (ax_bn ax) (ax_b ax) (ax_B ax) h (book_iter t) 0 [];
     let bk = set_side bk BOOK_SIDE_BID h;
     let prfx = go_to_asks prfx;
     (h, t) \<leftarrow> BOOK bk BOOK_SIDE_ASK;
     (h, out2) \<leftarrow> diff_side BOOK_SIDE_ASK prfx (ax_an ax) (ax_a ax) (ax_A ax) h (book_iter t) 0 [];
     let bk = set_side bk BOOK_SIDE_ASK h;
     (bk, ax) \<leftarrow> snap3_book junk bk ax;
     Some (bk, axs[ibk := ax], out1 @ out2)
   }"

subsection \<open>The command line\<close>

record snap_args =
  interval_arg :: "string option"
  offset_arg :: "string option"
  invalidate_arg :: "string option"
  stamps_arg :: "string option"
  sdash1_flag :: bool
  sdash2_flag :: bool
  sdash3_flag :: bool
  sdashN_arg :: "string option"
  sdashC_arg :: "string option"
  sinstr_args :: "string list"

datatype snapper = SNAP1 | SNAP12 | SNAP2 | SNAP3 | SNAPN | SNAPC | SNAPCN | SNAPV | SNAPVN

datatype snap_failure = IntervalArg | IntervalSuffix | OffsetSuffix | StampsFile | InvalidateSuffix
  | LevelsArg | QuantityArg

record snap_config =
  sc_tempo :: tempo
  sc_snap :: snapper
  sc_ntop :: nat
  sc_cqty :: qx_t

text \<open>\<open>strtol\<close> for base 10: like \<open>strtoul\<close>, cut off at the limits of the signed type.\<close>

definition strtol :: "string \<Rightarrow> int \<times> nat" where
  "strtol s =
     (let sp = takeWhile isspace s; r = drop (length sp) s;
          neg = (case r of c # _ \<Rightarrow> c = CHR ''-'' | [] \<Rightarrow> False);
          sg = (case r of c # _ \<Rightarrow> if c = CHR ''-'' \<or> c = CHR ''+'' then 1 else 0 | [] \<Rightarrow> 0);
          ds = takeWhile isdigit (drop sg r); v = digits_val ds
      in if ds = [] then (0, 0)
         else (if neg then max (- (2 ^ 63)) (- v) else min (2 ^ 63 - 1) v, length sp + sg + length ds))"

definition or_default :: "tv \<Rightarrow> tv \<Rightarrow> tv" where
  "or_default x d = (if x \<noteq> 0 then x else d)"

definition opt_interval :: "string option \<Rightarrow> (snap_failure + tv) option" where
  "opt_interval arg =
     (case arg of
        None \<Rightarrow> Some (Inr NSECS)
      | Some s \<Rightarrow>
          (let (intv, on) = strtoul s
           in if intv = 0 then Some (Inl IntervalArg)
              else do {
                mult \<leftarrow> sufstrtotv (drop on s);
                Some (if mult = NATV then Inl IntervalSuffix else Inr (intv * or_default mult NSECS))
              }))"

definition opt_offset :: "string option \<Rightarrow> bool \<Rightarrow> tv \<Rightarrow> (snap_failure + tv) option" where
  "opt_offset arg stamps intv =
     (case arg of
        None \<Rightarrow> Some (Inr 0)
      | Some s \<Rightarrow>
          (let (x, on) = strtol s
           in do {
                mult \<leftarrow> sufstrtotv (drop on s);
                if x \<noteq> 0 \<and> mult = NATV then Some (Inl OffsetSuffix)
                else do {
                  let u = word_of_int x * or_default mult NSECS;
                  let x = sint u;
                  if stamps then Some (Inr u)
                  else if x = 0 then Some (Inr 0)
                  else if intv = 0 then None
                  else if x > 0 then Some (Inr (u mod intv))
                  else if x = - (2 ^ 63) then None
                  else Some (Inr (intv - (- u) mod intv))
                }
              }))"

definition opt_invalidate :: "string option \<Rightarrow> tv \<Rightarrow> (snap_failure + tv) option" where
  "opt_invalidate arg intv =
     (case arg of
        None \<Rightarrow> Some (Inr 0)
      | Some s \<Rightarrow>
          (let (inva, on) = strtoul s
           in do {
                x \<leftarrow> sufstrtotv (drop on s);
                Some (if x = NATV then Inl InvalidateSuffix else Inr (inva * or_default x intv))
              }))"

definition opt_snapper :: "snap_args \<Rightarrow> tempo \<Rightarrow> (snap_failure + snap_config) option" where
  "opt_snapper argi te =
     (let p = (if sdash1_flag argi then SNAP1 else SNAP2);
          p = (if sdash3_flag argi then SNAP3 else p);
          p = (if sdash1_flag argi \<and> sdash2_flag argi then SNAP12
               else if sdash2_flag argi then SNAP2 else p);
          ntop = (case sdashN_arg argi of None \<Rightarrow> 0 | Some s \<Rightarrow> unat (fst (strtoul s)));
          p = (case sdashN_arg argi of None \<Rightarrow> p | Some _ \<Rightarrow> if ntop > 1 then SNAPN else SNAP1)
      in if sdashN_arg argi \<noteq> None \<and> ntop = 0 then Some (Inl LevelsArg)
         else (case sdashC_arg argi of
                 None \<Rightarrow> Some (Inr \<lparr>sc_tempo = te, sc_snap = p, sc_ntop = ntop, sc_cqty = zero_bits\<rparr>)
               | Some s \<Rightarrow> do {
                   let v = (deref_c s = CHR ''/'');
                   let p = (if \<not> v then (if ntop > 1 then SNAPCN else SNAPC)
                            else (if ntop > 1 then SNAPVN else SNAPV));
                   (cqty, _) \<leftarrow> strtod64 (if v then tl s else s);
                   if cqty \<le> 0 then Some (Inl QuantityArg)
                   else Some (Inr \<lparr>sc_tempo = te, sc_snap = p, sc_ntop = ntop, sc_cqty = cqty\<rparr>)
                 }))"

text \<open>The options in the order the code looks at them; \<open>file\<close> are the lines of the stamps file, if it opens.\<close>

definition snap_options :: "snap_args \<Rightarrow> string list option \<Rightarrow> (snap_failure + snap_config) option" where
  "snap_options argi file = do {
     let stamps = (stamps_arg argi \<noteq> None);
     r \<leftarrow> opt_interval (interval_arg argi);
     case r of Inl e \<Rightarrow> Some (Inl e) | Inr intv \<Rightarrow> do {
       r \<leftarrow> opt_offset (offset_arg argi) stamps intv;
       case r of Inl e \<Rightarrow> Some (Inl e) | Inr offs \<Rightarrow>
         if stamps \<and> file = None then Some (Inl StampsFile)
         else do {
           let intv = (if stamps then 1 else intv);
           r \<leftarrow> opt_invalidate (invalidate_arg argi) intv;
           case r of Inl e \<Rightarrow> Some (Inl e) | Inr inva \<Rightarrow>
             opt_snapper argi \<lparr>te_intv = intv, te_offs = offs, te_inva = inva, te_stamps = stamps\<rparr>
         }
     }
   }"

subsection \<open>The main loop\<close>

record snaps =
  sn_cont :: "string option list"
  sn_conx :: "hx_t list"
  sn_book :: "book_t list"
  sn_nbook :: nat
  sn_zbook :: nat
  sn_nctch :: nat
  sn_aux :: "aux3 list"
  sn_clock :: clock

definition snaps_init :: "snap_config \<Rightarrow> string list \<Rightarrow> string list \<Rightarrow> snaps" where
  "snaps_init cf instr file =
     (let cs = filter (\<lambda>s. \<not> catchall s) instr; j = length cs; caught = (j < length instr);
          nctch = (if caught then 1 else 0)
      in \<lparr>sn_cont = map Some cs @ (if caught then [if j \<noteq> 0 then Some ''ALL'' else None] else []),
          sn_conx = map hash cs @ (if caught then [HX_CATCHALL] else []),
          sn_book = replicate (j + nctch) make_book, sn_nbook = j,
          sn_zbook = (if instr \<noteq> [] then 0 else 8), sn_nctch = nctch,
          sn_aux = (if sc_snap cf = SNAP3 then init_snap3 (j + nctch) else []),
          sn_clock = \<lparr>ck_metr = 0, ck_oldm = 0, ck_sfil = file\<rparr>\<rparr>)"

definition snap_find :: "snaps \<Rightarrow> string \<Rightarrow> (snaps \<times> lookup) option" where
  "snap_find st ins =
     (let hx = hash ins; searched = (sn_nbook st \<noteq> 0 \<or> sn_zbook st \<noteq> 0);
          k = scan_while (\<lambda>k. sn_conx st ! k \<noteq> hx) 0 (sn_nbook st)
      in if searched \<and> k < sn_nbook st then Some (st, Found k)
         else if sn_nctch st \<noteq> 0 then (if searched then Some (st, Found k) else None)
         else if sn_zbook st = 0 then Some (st, NotForUs)
         else Some (st\<lparr>sn_zbook := (if sn_nbook st \<ge> sn_zbook st then sn_zbook st * 2 else sn_zbook st),
                      sn_cont := sn_cont st @ [Some ins], sn_conx := sn_conx st @ [hx],
                      sn_book := sn_book st @ [make_book], sn_nbook := sn_nbook st + 1\<rparr>, Found k))"

definition snap_book :: "d64 \<Rightarrow> snap_config \<Rightarrow> nat \<Rightarrow> tv \<Rightarrow> string option \<Rightarrow> book_t \<Rightarrow> aux3 list \<Rightarrow>
    (book_t \<times> aux3 list \<times> string) option" where
  "snap_book junk cf ibk metr cont bk axs =
     (if sc_snap cf = SNAP3 then snap3 junk ibk metr cont bk axs
      else do {
        (bk, out) \<leftarrow>
          (case sc_snap cf of
             SNAP1 \<Rightarrow> snap1 metr cont bk
           | SNAP12 \<Rightarrow> snap12 metr cont bk
           | SNAPN \<Rightarrow> snapn (sc_ntop cf) metr cont bk
           | SNAPC \<Rightarrow> snapc (sc_cqty cf) metr cont bk
           | SNAPCN \<Rightarrow> snapcn (sc_ntop cf) (sc_cqty cf) metr cont bk
           | SNAPV \<Rightarrow> snapv (sc_cqty cf) metr cont bk
           | SNAPVN \<Rightarrow> snapvn (sc_ntop cf) (sc_cqty cf) metr cont bk
           | _ \<Rightarrow> snap2 metr cont bk);
        Some (bk, axs, out)
      })"

text \<open>A snapshot of all books, the first \<open>m\<close> of them to go.\<close>

primrec shoot_books :: "nat \<Rightarrow> d64 \<Rightarrow> snap_config \<Rightarrow> nat \<Rightarrow> snaps \<Rightarrow> string \<Rightarrow> (snaps \<times> string) option" where
  "shoot_books 0 junk cf ibk st out = Some (st, out)"
| "shoot_books (Suc m) junk cf ibk st out = do {
     let metr = ck_metr (sn_clock st);
     bk \<leftarrow> nth_opt (sn_book st) ibk;
     cont \<leftarrow> nth_opt (sn_cont st) ibk;
     bk \<leftarrow> book_exp bk (if te_inva (sc_tempo cf) \<noteq> 0 then metr else 0);
     (bk, axs, txt) \<leftarrow> snap_book junk cf ibk metr cont bk (sn_aux st);
     shoot_books m junk cf (ibk + 1) (st\<lparr>sn_book := (sn_book st)[ibk := bk], sn_aux := axs\<rparr>) (out @ txt)
   }"

definition shoot :: "d64 \<Rightarrow> snap_config \<Rightarrow> snaps \<Rightarrow> string \<Rightarrow> (snaps \<times> string) option" where
  "shoot junk cf st out = shoot_books (sn_nbook st + sn_nctch st) junk cf 0 st out"

text \<open>\<open>do { \<dots> } while ((metr = next(t)) < t);\<close>\<close>

partial_function (option) shoot_until :: "d64 \<Rightarrow> snap_config \<Rightarrow> tv \<Rightarrow> snaps \<Rightarrow> string \<Rightarrow> (snaps \<times> string) option" where
  "shoot_until junk cf t st out = do {
     (st, out) \<leftarrow> shoot junk cf st out;
     ck \<leftarrow> next_tick (sc_tempo cf) (sn_clock st) t;
     let st = st\<lparr>sn_clock := ck\<rparr>;
     if ck_metr ck < t then shoot_until junk cf t st out else Some (st, out)
   }"

definition snap_line :: "d64 \<Rightarrow> snap_config \<Rightarrow> snaps \<Rightarrow> string \<Rightarrow> (snaps \<times> string) option" where
  "snap_line junk cf st line = do {
     q \<leftarrow> read_xquo line (length line);
     let t = q_t (xq_q q);
     if NOT_A_XQUO_P q then Some (st, [])
     else if t = NATV then Some (st, [])
     else do {
       ck \<leftarrow> (if ck_metr (sn_clock st) = 0 then advance (sc_tempo cf) t (sn_clock st)
              else Some (sn_clock st));
       let st = st\<lparr>sn_clock := ck\<rparr>;
       ins \<leftarrow> xq_ins q;
       (st, r) \<leftarrow> snap_find st (take (xq_inz q) (drop ins line));
       case r of
         NotForUs \<Rightarrow> Some (st, [])
       | Found k \<Rightarrow> do {
           (st, out) \<leftarrow> (if t \<le> ck_metr (sn_clock st) then Some (st, []) else shoot_until junk cf t st []);
           bk \<leftarrow> nth_opt (sn_book st) k;
           (bk, _) \<leftarrow> book_add bk ((xq_q q)\<lparr>q_t := t + te_inva (sc_tempo cf)\<rparr>);
           Some (st\<lparr>sn_book := (sn_book st)[k := bk]\<rparr>, out)
         }
     }
   }"

fun snap_input :: "d64 \<Rightarrow> snap_config \<Rightarrow> snaps \<Rightarrow> string list \<Rightarrow> (snaps \<times> string) option" where
  "snap_input junk cf st [] = Some (st, [])"
| "snap_input junk cf st (l # ls) = do {
     (st, out) \<leftarrow> snap_line junk cf st l;
     (st, rest) \<leftarrow> snap_input junk cf st ls;
     Some (st, out @ rest)
   }"

fun free_all :: "book_t list \<Rightarrow> unit option" where
  "free_all [] = Some ()"
| "free_all (bk # bks) = do { _ \<leftarrow> free_book bk; free_all bks }"

definition booksnap :: "d64 \<Rightarrow> snap_args \<Rightarrow> string list option \<Rightarrow> string list \<Rightarrow> (snap_failure + string) option" where
  "booksnap junk argi file input = do {
     r \<leftarrow> snap_options argi file;
     case r of
       Inl e \<Rightarrow> Some (Inl e)
     | Inr cf \<Rightarrow> do {
         (st, out) \<leftarrow> snap_input junk cf
            (snaps_init cf (sinstr_args argi) (case file of Some ls \<Rightarrow> ls | None \<Rightarrow> [])) input;
         (st, out) \<leftarrow> (if ck_metr (sn_clock st) < NATV then shoot junk cf st out else Some (st, out));
         _ \<leftarrow> free_all (take (sn_nbook st + sn_nctch st) (sn_book st));
         Some (Inr out)
       }
   }"

declare advance.simps [code] snap_levels.simps [code] save_levels.simps [code] diff_level.simps [code]
declare diff_side.simps [code] resize_aux.simps [code] shoot_until.simps [code]

subsection \<open>The metronome beats in time\<close>

lemma next_intv_nat:
  fixes te :: tempo and t :: tv
  defines "I \<equiv> unat (te_intv te)" and "F \<equiv> unat (te_offs te)"
  assumes "te_inva te = 0" "te_intv te \<noteq> 0" "te_offs te < t" "unat t + I < 2 ^ 64"
  shows "\<exists>m. next_intv te ck t = Some (m, ck) \<and> unat m = ((unat t - 1 - F) div I + 1) * I + F"
proof -
  let ?n = "t - 1 - te_offs te"
  define M where "M = ((unat t - 1 - F) div I + 1) * I + F"
  have I: "0 < I" using assms(4) by (simp add: I_def unat_gt_0)
  have F: "F < unat t" using assms(5) by (simp add: F_def word_less_nat_alt)
  have t1: "unat (t - 1) = unat t - 1"
    using F unat_sub [of 1 t] by (simp add: word_le_nat_alt)
  then have n: "unat ?n = unat t - 1 - F"
    using F unat_sub [of "te_offs te" "t - 1"] by (simp add: word_le_nat_alt F_def)
  have "(unat t - 1 - F) div I * I \<le> unat t - 1 - F" by simp
  then have M: "M < 2 ^ 64" using F assms(6) unfolding M_def add_mult_distrib by linarith
  have "unat (of_nat M :: tv) = M" using M by (simp add: unat_of_nat)
  moreover have "of_nat M = (?n div te_intv te + 1) * te_intv te + te_offs te"
  proof -
    have "M = (unat ?n div I + 1) * I + F" by (simp only: M_def n)
    then show ?thesis by (simp add: I_def F_def word_arith_nat_div distrib_right)
  qed
  ultimately have "unat ((?n div te_intv te + 1) * te_intv te + te_offs te) = M" by simp
  then show ?thesis using assms(3,4) by (simp add: next_intv_def Let_def M_def)
qed

text \<open>
  C38: Between snapshots the metronome moves to the right beat. With regular intervals and no invalidation, for a
  quote at time \<open>t\<close> the search for the next tick ends, at a time that is not before \<open>t\<close> and less than one
  interval behind it, and that is a multiple of the interval away from the offset (unless the time overflows).
\<close>

theorem advance_to_next_beat:
  assumes "\<not> te_stamps te" "te_inva te = 0" "te_intv te \<noteq> 0" "te_offs te < t"
    and "unat t + unat (te_intv te) < 2 ^ 64"
  shows "\<exists>ck'. advance te t ck = Some ck' \<and> t \<le> ck_metr ck' \<and>
    unat (ck_metr ck') < unat t + unat (te_intv te) \<and>
    (unat (ck_metr ck') - unat (te_offs te)) mod unat (te_intv te) = 0"
proof -
  let ?I = "unat (te_intv te)" and ?F = "unat (te_offs te)"
  let ?d = "(unat t - 1 - ?F) div ?I"
  obtain m where m: "next_intv te ck t = Some (m, ck)" "unat m = (?d + 1) * ?I + ?F"
    using next_intv_nat [OF assms(2-5)] by blast
  have I: "0 < ?I" using assms(3) by (simp add: unat_gt_0)
  have F: "?F < unat t" using assms(4) by (simp add: word_less_nat_alt)
  have "?d * ?I \<le> unat t - 1 - ?F" "unat t - 1 - ?F < (?d + 1) * ?I"
    using I by (simp_all add: dividend_less_div_times)
  then have "unat t \<le> unat m" "unat m < unat t + ?I" using F m(2) unfolding add_mult_distrib by linarith+
  moreover have "advance te t ck = Some (ck\<lparr>ck_metr := m\<rparr>)"
    using m(1) assms(1) calculation(1)
    by (subst advance.simps) (simp add: next_tick_def word_less_nat_alt)
  ultimately show ?thesis using m(2) by (simp add: word_le_nat_alt)
qed

theorem advance_to_next_beat_witness:
  "\<exists>ck'. advance \<lparr>te_intv = 10, te_offs = 3, te_inva = 0, te_stamps = False\<rparr> 47
      \<lparr>ck_metr = 0, ck_oldm = 0, ck_sfil = []\<rparr> = Some ck' \<and>
    47 \<le> ck_metr ck' \<and> unat (ck_metr ck') < 57"
  using advance_to_next_beat [of "\<lparr>te_intv = 10, te_offs = 3, te_inva = 0, te_stamps = False\<rparr>" 47
      "\<lparr>ck_metr = 0, ck_oldm = 0, ck_sfil = []\<rparr>"] by auto

subsection \<open>Stale levels\<close>

text \<open>
  C39: The report of changes depends on memory that was never written. When a level of the book is the last one of
  the saved copy, the code goes on to compare with the entry behind the copy: if what happens to be
  there looks like a level in front, the level is printed a second time, as if it were new.
\<close>

theorem diff_level_reads_stale:
  assumes "Suc bi = bn" "bn < length pp" "length qp = length pp" "deq p (pp ! bi)"
    and "level_buf prfx p (q - qp ! bi) = Some x" "level_buf prfx p q = Some y"
  shows "diff_level s prfx bn pp qp p q bi out =
    Some (bn, out @ x @ (if ahead s (pp ! bn) p then y else []))"
proof -
  have "level_with s p (pp ! bi)" using assms(4) by (auto simp: level_with_def deq_def)
  moreover have "diff_level s prfx bn pp qp p q bn out' = Some (bn, out' @ y)" for out'
    using assms(6) by (simp add: diff_level.simps [of _ _ _ _ _ _ _ bn])
  ultimately show ?thesis
    using assms by (simp add: diff_level.simps [of _ _ _ _ _ _ _ bi] Let_def)
qed

text \<open>A sample at infinite prices and quantities, which print as three letters.\<close>

lemma level_buf_inf: "level_buf [] INFD64 INFD64 = Some (''inf'' @ [TAB] @ ''inf'' @ [NL])"
proof -
  have "dec_of_d64 INFD64 = DInf False" by (simp add: dec_of_d64_def)
  moreover have "dec_of_d64 0 = DFin False 0 0" by (simp add: dec_of_d64_def zero_d64_def)
  ultimately have "d64tostr n INFD64 = take (min 3 n) ''inf''" for n
    by (auto simp: d64tostr_def isnand64_def isinfd64_def less_d64_def)
  then show ?thesis by (simp add: level_buf_def putfield_def putdec_def putc_def)
qed

theorem diff_level_reads_stale_witness:
  "diff_level BOOK_SIDE_ASK [] 1 [INFD64, dd 100 0] [- INFD64, 0] INFD64 INFD64 0 [] =
    Some (1, ''inf'' @ [TAB] @ ''inf'' @ [NL] @ ''inf'' @ [TAB] @ ''inf'' @ [NL])"
proof -
  have inf: "dec_of_d64 INFD64 = DInf False" by (simp add: dec_of_d64_def)
  then have "deq INFD64 INFD64" "ahead BOOK_SIDE_ASK (dd 100 0) INFD64"
    by (simp_all add: isnand64_def ahead_def less_d64_def dec_of_dd)
  moreover have "INFD64 - - INFD64 = INFD64"
    by (simp add: minus_d64_def uminus_d64_def plus_d64_def inf d64_of_dec_def)
  ultimately show ?thesis
    using diff_level_reads_stale [of 0 1 "[INFD64, dd 100 0]" "[- INFD64, 0]" INFD64 "[]" INFD64]
      level_buf_inf by simp
qed

end
