(* ===== verification/Books_Levels.thy ===== *)
theory Books_Levels
  imports Books
begin

text \<open>
  What the operations of a book do to the levels of its sides, as lists of prices with quantity and
  time stamp, best price first. Every operation that walks a side is reduced to a function on
  that list through the iterator interface of the trees.
\<close>

definition book_levels :: "book_t \<Rightarrow> book_side_t \<Rightarrow> (px_t \<times> btree_val) list \<Rightarrow> bool" where
  "book_levels b s xs \<longleftrightarrow> (case BOOK b s of None \<Rightarrow> False | Some (h, t) \<Rightarrow> holds h t xs)"

text \<open>The sides other than \<open>s\<close> are the same.\<close>

definition same_but :: "book_side_t \<Rightarrow> book_t \<Rightarrow> book_t \<Rightarrow> bool" where
  "same_but s b b' \<longleftrightarrow> (\<forall>s'. s' \<noteq> s \<longrightarrow> BOOK b' s' = BOOK b s')"

lemma BOOK_set_side:
  assumes "BOOK b s = Some (h, t)"
  shows "BOOK (set_side b s h') s' = (if s' = s then Some (h', t) else BOOK b s')"
proof -
  have s: "s \<noteq> 0" "s - 1 < length (quos b)" "quos b ! (s - 1) = (h, t)"
    using assms by (simp_all add: BOOK_def nth_opt_def split: if_splits)
  show ?thesis
  proof (cases "s' = s \<or> s' = 0")
    case False
    then have "s' - 1 \<noteq> s - 1" using s(1) by linarith
    with False show ?thesis by (simp add: BOOK_def set_side_def nth_opt_def)
  qed (use s in \<open>auto simp: BOOK_def set_side_def\<close>)
qed

lemma same_but_set_side: "BOOK b s = Some (h, t) \<Longrightarrow> same_but s b (set_side b s h')"
  by (simp add: same_but_def BOOK_set_side)

lemma same_but_levels: "same_but s b b' \<Longrightarrow> s' \<noteq> s \<Longrightarrow> book_levels b' s' xs = book_levels b s' xs"
  by (simp add: same_but_def book_levels_def)

lemma book_levelsE:
  assumes "book_levels b s xs"
  obtains h t where "BOOK b s = Some (h, t)" "holds h t xs"
  using assms by (auto simp: book_levels_def split: option.splits)

lemma book_levels_set_side:
  "BOOK b s = Some (h, t) \<Longrightarrow> holds h' t xs \<Longrightarrow> book_levels (set_side b s h') s xs"
  by (simp add: book_levels_def BOOK_set_side)

lemma make_book_levels: "s = BOOK_SIDE_ASK \<or> s = BOOK_SIDE_BID \<Longrightarrow> book_levels make_book s []"
proof -
  have "holds [Some (new_btree d)] 0 []" for d
  proof -
    have "deref [Some (new_btree d)] 0 = Some (new_btree d)" by (simp add: deref_def)
    moreover have "bt_next (new_btree d) = None" "bt_n (new_btree d) = 0" "\<not> bt_innerp (new_btree d)"
      by (simp_all add: new_btree_def)
    ultimately show ?thesis
      unfolding holds_def leaves_first
      by (intro exI [of _ "[0]"]) (simp add: first_leaf_leaf new_btree_leaf_ok leaf_levels_at_def)
  qed
  then show "s = BOOK_SIDE_ASK \<or> s = BOOK_SIDE_BID \<Longrightarrow> book_levels make_book s []"
    by (auto simp: book_levels_def BOOK_def make_book_def make_btree_def)
qed

subsection \<open>Walks\<close>

lemmas loop_reads = bi.read_loop [of "iter_loop P C f" P C f for P C f, OF iter_loop.simps]
lemmas loop_writes = bi.write_loop [of "iter_update C f" C f for C f, OF iter_update.simps]

lemma loop_stops:
  assumes "walk P (\<lambda>_. True) f xs s = (n, s')" "bi.stands h t it pre xs"
  shows "\<exists>h' it'. iter_loop P (\<lambda>_. True) f h it s = Some (h', it', s') \<and>
    holds h' t (pre @ xs) \<and> (\<not> P s' \<longrightarrow> bi.stands h' t it' (pre @ take n xs) (drop n xs))"
  by (rule bi.stop_loop [OF _ assms]) (subst iter_loop.simps, simp)

lemma iter_starts: "holds h t xs \<Longrightarrow> bi.stands h t (iter_init t) [] xs"
  by (intro bi.stands_init iter_inv_init)

lemma update_side_levels:
  assumes "book_levels b s xs"
  shows "\<exists>b'. update_side b s C f = Some b' \<and> same_but s b b' \<and>
    book_levels b' s (rewrite btree_val_nil_p f (takeWhile (C \<circ> fst) xs) @ dropWhile (C \<circ> fst) xs)"
proof -
  obtain h t where h: "BOOK b s = Some (h, t)" "holds h t xs" using assms by (rule book_levelsE)
  then show ?thesis
    using loop_writes [OF iter_inv_init [OF h(2)], of C f] book_levels_set_side [OF h(1)]
      same_but_set_side [OF h(1)]
    by (auto simp: update_side_def)
qed

lemma clr_side_levels:
  assumes "book_levels b s xs"
  shows "\<exists>b'. clr_side b s = Some b' \<and> same_but s b b' \<and> book_levels b' s []"
proof -
  obtain h t where h: "BOOK b s = Some (h, t)" "holds h t xs" using assms by (rule book_levelsE)
  then show ?thesis
    using btree_clr_holds [OF h(2)] book_levels_set_side [OF h(1)] same_but_set_side [OF h(1)]
    by (auto simp: clr_side_def)
qed

lemma book_clr_levels:
  assumes "book_levels b BOOK_SIDE_ASK xs" "book_levels b BOOK_SIDE_BID ys"
  shows "\<exists>b'. book_clr b = Some b' \<and> book_levels b' BOOK_SIDE_ASK [] \<and> book_levels b' BOOK_SIDE_BID []"
proof -
  obtain b1 where b1: "clr_side b BOOK_SIDE_BID = Some b1" "same_but BOOK_SIDE_BID b b1"
    "book_levels b1 BOOK_SIDE_BID []"
    using clr_side_levels [OF assms(2)] by blast
  then have "book_levels b1 BOOK_SIDE_ASK xs" using assms(1) same_but_levels [OF b1(2)] by simp
  then obtain b2 where "clr_side b1 BOOK_SIDE_ASK = Some b2" "same_but BOOK_SIDE_ASK b1 b2"
    "book_levels b2 BOOK_SIDE_ASK []"
    using clr_side_levels by blast
  then show ?thesis using b1 same_but_levels [of BOOK_SIDE_ASK b1 b2] by (simp add: book_clr_def)
qed

text \<open>Two updates in a row, the ask side first.\<close>

lemma update_both_levels:
  assumes "book_levels b BOOK_SIDE_ASK xs" "book_levels b BOOK_SIDE_BID ys"
  shows "\<exists>b1 b2. update_side b BOOK_SIDE_ASK C f = Some b1 \<and> update_side b1 BOOK_SIDE_BID D g = Some b2 \<and>
    book_levels b2 BOOK_SIDE_ASK
      (rewrite btree_val_nil_p f (takeWhile (C \<circ> fst) xs) @ dropWhile (C \<circ> fst) xs) \<and>
    book_levels b2 BOOK_SIDE_BID
      (rewrite btree_val_nil_p g (takeWhile (D \<circ> fst) ys) @ dropWhile (D \<circ> fst) ys)"
proof -
  obtain b1 where b1: "update_side b BOOK_SIDE_ASK C f = Some b1" "same_but BOOK_SIDE_ASK b b1"
    "book_levels b1 BOOK_SIDE_ASK
      (rewrite btree_val_nil_p f (takeWhile (C \<circ> fst) xs) @ dropWhile (C \<circ> fst) xs)"
    using update_side_levels [OF assms(1)] by blast
  then have "book_levels b1 BOOK_SIDE_BID ys" using assms(2) same_but_levels [OF b1(2)] by simp
  then obtain b2 where b2: "update_side b1 BOOK_SIDE_BID D g = Some b2" "same_but BOOK_SIDE_BID b1 b2"
    "book_levels b2 BOOK_SIDE_BID
      (rewrite btree_val_nil_p g (takeWhile (D \<circ> fst) ys) @ dropWhile (D \<circ> fst) ys)"
    using update_side_levels by blast
  then show ?thesis using b1 same_but_levels [OF b2(2), of BOOK_SIDE_ASK] by auto
qed

lemma walk_scan:
  "walk P (\<lambda>_. True) f xs s =
     (let n = scan_while (\<lambda>n. P (fold (\<lambda>(k, v). f k v) (take n xs) s)) 0 (length xs)
      in (n, fold (\<lambda>(k, v). f k v) (take n xs) s))"
proof (induction xs arbitrary: s)
  case Nil
  then show ?case by (simp add: scan_while.simps)
next
  case (Cons x xs)
  obtain k v where x: "x = (k, v)" by fastforce
  show ?case
  proof (cases "P s")
    case True
    let ?g = "\<lambda>n. P (fold (\<lambda>(k, v). f k v) (take n xs) (f k v s))"
    have "scan_while (\<lambda>n. P (fold (\<lambda>(k, v). f k v) (take n (x # xs)) s)) 0 (length (x # xs)) =
        Suc (scan_while ?g 0 (length xs))"
    proof (rule scan_while_eqI)
      show "P (fold (\<lambda>(k, v). f k v) (take j (x # xs)) s)" if "j < Suc (scan_while ?g 0 (length xs))" for j
        using that True x scan_while_all [of 0 "j - 1" ?g "length xs"] by (cases j) auto
      show "\<not> P (fold (\<lambda>(k, v). f k v) (take (Suc (scan_while ?g 0 (length xs))) (x # xs)) s)"
        if "Suc (scan_while ?g 0 (length xs)) < length (x # xs)"
        using that x scan_while_stop [of ?g 0 "length xs"] by simp
    qed (use scan_while_le [of 0 "length xs" ?g] in auto)
    then show ?thesis using Cons.IH [of "f k v s"] True x by (simp add: Let_def)
  qed (simp add: x scan_while.simps)
qed

lemma holds_live: "holds h t xs \<Longrightarrow> \<forall>x \<in> set xs. \<not> btree_val_nil_p (snd x)"
  by (auto simp: holds_def chain_levels_def leaf_levels_at_def leaf_levels_def vis_def
      split: option.splits)

lemma book_levels_live: "book_levels b s xs \<Longrightarrow> \<forall>x \<in> set xs. \<not> btree_val_nil_p (snd x)"
  using holds_live by (metis book_levelsE)

subsection \<open>The functions that read\<close>

definition top_quote :: "book_side_t \<Rightarrow> (px_t \<times> btree_val) list \<Rightarrow> book_quo_t" where
  "top_quote s xs = (case xs of [] \<Rightarrow> NOT_A_QUO
     | (k, v) # _ \<Rightarrow> \<lparr>q_s = s, q_f = BOOK_LVL_1, q_p = k, q_q = val_q v, q_t = val_t v\<rparr>)"

lemma book_top_quote:
  assumes "book_levels b s xs"
  shows "\<exists>b'. book_top b s = Some (b', top_quote s xs) \<and> book_levels b' s xs \<and> same_but s b b'"
proof -
  obtain h t where h: "BOOK b s = Some (h, t)" "holds h t xs" using assms by (rule book_levelsE)
  note fin = book_levels_set_side [OF h(1)] same_but_set_side [OF h(1)]
  show ?thesis
  proof (cases xs)
    case Nil
    then show ?thesis
      using bi.step_Nil [of h t "iter_init t" "[]"] iter_inv_init [OF h(2)] h(1) fin
      by (auto simp: book_top_def top_quote_def)
  next
    case (Cons x xs')
    then obtain h' it' where st: "btree_iter_next h (iter_init t) = Some (h', it', True)"
      "iter_cur h' t it' [] x xs'"
      using bi.step_Cons iter_inv_init [OF h(2)] by blast
    show ?thesis
      using bi.cur_load [OF st(2)] bi.inv_side [OF bi.cur_inv [OF st(2)]] st(1) h(1) fin Cons
      by (auto simp: book_top_def top_quote_def split: prod.split)
  qed
qed

text \<open>Prices and quantities consolidated over the first levels, and how many levels it takes.\<close>

definition cum :: "(px_t \<times> btree_val) list \<Rightarrow> qx_t \<times> qx_t" where
  "cum xs = fold (\<lambda>(k, v). consol k v) xs (0, 0)"

definition depth :: "(qx_t \<times> qx_t \<Rightarrow> bool) \<Rightarrow> (px_t \<times> btree_val) list \<Rightarrow> nat" where
  "depth P xs = scan_while (\<lambda>n. P (cum (take n xs))) 0 (length xs)"

lemma walk_depth: "walk P (\<lambda>_. True) consol xs (0, 0) = (depth P xs, cum (take (depth P xs) xs))"
  by (simp add: walk_scan Let_def depth_def cum_def)

lemma depth_le: "depth P xs \<le> length xs"
  unfolding depth_def by (rule scan_while_le) simp

lemma depth_pos:
  assumes "P (0, 0)" "\<not> P (cum (take (depth P xs) xs))"
  shows "0 < depth P xs"
  using assms by (cases "depth P xs") (auto simp: cum_def)

lemma last_level: "0 < n \<Longrightarrow> n \<le> length xs \<Longrightarrow> take n xs = take (n - 1) xs @ [xs ! (n - 1)]"
  using take_Suc_conv_app_nth [of "n - 1" xs] by simp

definition ctop_quote :: "book_side_t \<Rightarrow> (px_t \<times> btree_val) list \<Rightarrow> qx_t \<Rightarrow> book_quo_t" where
  "ctop_quote s xs q =
     (let n = depth (\<lambda>(P, Q). Q < q) xs; (P, Q) = cum (take n xs); (k, v) = xs ! (n - 1)
      in if Q < q then NOT_A_QUO
         else \<lparr>q_s = s, q_f = BOOK_LVL_1,
               q_p = quantized64 ((if Q > q then P - k * (Q - q) else P) div q) k,
               q_q = quantized64 q (val_q v), q_t = val_t v\<rparr>)"

definition vtop_quote :: "book_side_t \<Rightarrow> (px_t \<times> btree_val) list \<Rightarrow> qx_t \<Rightarrow> book_quo_t" where
  "vtop_quote s xs v =
     (let n = depth (\<lambda>(P, Q). P < v) xs; (P, Q) = cum (take n xs); (k, w) = xs ! (n - 1);
          Q' = (if P > v then Q - (P - v) div k else Q)
      in if P < v then NOT_A_QUO
         else \<lparr>q_s = s, q_f = BOOK_LVL_1, q_p = quantized64 (v div Q') k,
               q_q = quantized64 Q' (val_q w), q_t = val_t w\<rparr>)"

lemma consol_loop:
  assumes "holds h t xs"
  shows "\<exists>h' it'. iter_loop P (\<lambda>_. True) consol h (iter_init t) (0, 0) =
      Some (h', it', cum (take (depth P xs) xs)) \<and> holds h' t xs \<and>
    (\<not> P (cum (take (depth P xs) xs)) \<and> P (0, 0) \<longrightarrow>
       iter_load h' it' = Some (snd (xs ! (depth P xs - 1))) \<and> it_k it' = fst (xs ! (depth P xs - 1)))"
proof -
  let ?n = "depth P xs"
  obtain h' it' where l: "iter_loop P (\<lambda>_. True) consol h (iter_init t) (0, 0) =
      Some (h', it', cum (take ?n xs))" "holds h' t xs"
    "\<not> P (cum (take ?n xs)) \<longrightarrow> bi.stands h' t it' (take ?n xs) (drop ?n xs)"
    using loop_stops [OF walk_depth iter_starts [OF assms]] unfolding append_Nil by blast
  have "iter_load h' it' = Some (snd (xs ! (?n - 1))) \<and> it_k it' = fst (xs ! (?n - 1))"
    if P: "\<not> P (cum (take ?n xs))" "P (0, 0)"
  proof -
    have "take ?n xs = take (?n - 1) xs @ [xs ! (?n - 1)]"
      using last_level depth_pos P depth_le by blast
    then show ?thesis using l(3) P(1) bi.stands_load by metis
  qed
  then show ?thesis using l by blast
qed

lemma book_ctop_quote:
  assumes "book_levels b s xs" "0 < q"
  shows "\<exists>b'. book_ctop b s q = Some (b', ctop_quote s xs q) \<and> book_levels b' s xs \<and> same_but s b b'"
proof -
  obtain h t where h: "BOOK b s = Some (h, t)" "holds h t xs" using assms(1) by (rule book_levelsE)
  note fin = book_levels_set_side [OF h(1)] same_but_set_side [OF h(1)]
  show ?thesis
    using consol_loop [OF h(2), of "\<lambda>(P, Q). Q < q"] assms(2) h(1) fin
    by (auto simp: book_ctop_def ctop_quote_def Let_def split: prod.splits)
qed

lemma book_vtop_quote:
  assumes "book_levels b s xs" "0 < v"
  shows "\<exists>b'. book_vtop b s v = Some (b', vtop_quote s xs v) \<and> book_levels b' s xs \<and> same_but s b b'"
proof -
  obtain h t where h: "BOOK b s = Some (h, t)" "holds h t xs" using assms(1) by (rule book_levelsE)
  note fin = book_levels_set_side [OF h(1)] same_but_set_side [OF h(1)]
  show ?thesis
    using consol_loop [OF h(2), of "\<lambda>(P, Q). P < v"] assms(2) h(1) fin
    by (auto simp: book_vtop_def vtop_quote_def Let_def split: prod.splits)
qed

text \<open>Asking for no quantity at all reads through a null pointer.\<close>

lemma book_ctop_null:
  assumes "book_levels b s xs" "\<not> 0 < q"
  shows "book_ctop b s q = None"
proof -
  obtain h t where "BOOK b s = Some (h, t)" using assms(1) by (rule book_levelsE)
  then show ?thesis
    using assms(2) by (simp add: book_ctop_def iter_loop.simps iter_load_def iter_init_def Let_def)
qed

lemma snd_walk_Cons [simp]:
  "snd (walk P C f ((k, v) # xs) s) = (if P s \<and> C k then snd (walk P C f xs (f k v s)) else s)"
  by (simp split: prod.split)

lemma walk_collect:
  "snd (walk (\<lambda>ps. length ps < n) (\<lambda>_. True) (\<lambda>k v ps. ps @ [g k v]) xs ps) =
     ps @ map (\<lambda>(k, v). g k v) (take (n - length ps) xs)"
proof (induction xs arbitrary: ps)
  case (Cons x xs)
  have "n - length ps = Suc (n - length (ps @ [g (fst x) (snd x)]))" if "length ps < n"
    using that by simp
  then show ?case using Cons [of "ps @ [g (fst x) (snd x)]"] by (cases x) (simp del: walk.simps(2))
qed simp

lemma book_tops_take:
  assumes "book_levels b s xs"
  shows "\<exists>b'. book_tops b s n qp =
      Some (b', map (\<lambda>(k, v). (k, if qp then Some (val_q v) else None)) (take n xs)) \<and>
    book_levels b' s xs \<and> same_but s b b'"
proof -
  obtain h t where h: "BOOK b s = Some (h, t)" "holds h t xs" using assms by (rule book_levelsE)
  show ?thesis
    using loop_reads [OF iter_inv_init [OF h(2)], of "\<lambda>ps. length ps < n" "\<lambda>_. True"
        "\<lambda>k v ps. ps @ [(k, if qp then Some (val_q v) else None)]" "[]"]
      book_levels_set_side [OF h(1)] same_but_set_side [OF h(1)] h(1)
    by (auto simp: book_tops_def walk_collect)
qed

definition pdo_of :: "(px_t \<times> btree_val) list \<Rightarrow> book_side_t \<Rightarrow> qx_t \<Rightarrow> px_t \<Rightarrow> book_pdo_t" where
  "pdo_of xs s q lmt =
     fst (snd (walk (\<lambda>(r, q). q > 0)
       (\<lambda>k. s = BOOK_SIDE_BID \<and> k \<ge> pdo_limit s lmt \<or> s = BOOK_SIDE_ASK \<and> k \<le> pdo_limit s lmt)
       pdo_step xs (\<lparr>pdo_base = 0, pdo_term = 0, pdo_yngt = 0, pdo_oldt = NATV\<rparr>, q)))"

lemma book_pdo_walk:
  assumes "book_levels b s xs"
  shows "\<exists>b'. book_pdo b s q lmt = Some (b', pdo_of xs s q lmt) \<and> book_levels b' s xs \<and> same_but s b b'"
proof -
  obtain h t where h: "BOOK b s = Some (h, t)" "holds h t xs" using assms(1) by (rule book_levelsE)
  let ?C = "\<lambda>k. s = BOOK_SIDE_BID \<and> k \<ge> pdo_limit s lmt \<or> s = BOOK_SIDE_ASK \<and> k \<le> pdo_limit s lmt"
  let ?s = "(\<lparr>pdo_base = 0, pdo_term = 0, pdo_yngt = 0, pdo_oldt = NATV\<rparr>, q)"
  obtain h' it' where l: "iter_loop (\<lambda>(r, q). q > 0) ?C pdo_step h (iter_init t) ?s =
      Some (h', it', snd (walk (\<lambda>(r, q). q > 0) ?C pdo_step xs ?s))" "holds h' t xs"
    using loop_reads [OF iter_inv_init [OF h(2)], of "\<lambda>(r, q). q > 0" ?C pdo_step ?s]
    unfolding append_Nil by blast
  have "book_pdo b s q lmt = Some (set_side b s h', pdo_of xs s q lmt)"
    using l(1) h(1) by (simp only: book_pdo_def pdo_of_def Let_def bind.bind_lunit prod.case
        case_prod_beta fst_conv snd_conv)
  then show ?thesis using book_levels_set_side [OF h(1) l(2)] same_but_set_side [OF h(1)] by blast
qed

subsection \<open>Consolidated levels\<close>

text \<open>
  The entry for the accumulated quantity \<open>R\<close>, computed from the first levels, and the list of the
  entries for \<open>R\<close>, \<open>R + Q\<close>, \<open>\<dots>\<close> as far as the side goes.
\<close>

definition ctops_entry :: "(px_t \<times> btree_val) list \<Rightarrow> bool \<Rightarrow> qx_t \<Rightarrow> px_t \<times> qx_t option" where
  "ctops_entry xs qp R =
     (let n = depth (\<lambda>(c, C). C < R) xs; (c, C) = cum (take n xs); (k, v) = xs ! (n - 1)
      in (quantized64 ((c - k * (C - R)) div R) k, if qp then Some (quantized64 R (val_q v)) else None))"

primrec ctops_list :: "nat \<Rightarrow> (px_t \<times> btree_val) list \<Rightarrow> bool \<Rightarrow> qx_t \<Rightarrow> qx_t \<Rightarrow> (px_t \<times> qx_t option) list" where
  "ctops_list 0 xs qp R Q = []"
| "ctops_list (Suc m) xs qp R Q =
     (if snd (cum (take (depth (\<lambda>(c, C). C < R) xs) xs)) < R then []
      else ctops_entry xs qp R # ctops_list m xs qp (R + Q) Q)"

definition vtops_entry :: "(px_t \<times> btree_val) list \<Rightarrow> bool \<Rightarrow> qx_t \<Rightarrow> px_t \<times> qx_t option" where
  "vtops_entry xs qp r =
     (let n = depth (\<lambda>(c, C). c < r) xs; (c, C) = cum (take n xs); (k, w) = xs ! (n - 1);
          Q = C - (c - r) div k
      in (quantized64 (r div Q) k, if qp then Some (quantized64 Q (val_q w)) else None))"

primrec vtops_list :: "nat \<Rightarrow> (px_t \<times> btree_val) list \<Rightarrow> bool \<Rightarrow> qx_t \<Rightarrow> qx_t \<Rightarrow> (px_t \<times> qx_t option) list" where
  "vtops_list 0 xs qp r v = []"
| "vtops_list (Suc m) xs qp r v =
     (if fst (cum (take (depth (\<lambda>(c, C). c < r) xs) xs)) < r then []
      else vtops_entry xs qp r # vtops_list m xs qp (r + v) v)"

text \<open>The targets \<open>R\<close>, \<open>R + Q\<close>, \<open>\<dots>\<close> are positive and do not decrease, rounding included.\<close>

primrec ascending :: "nat \<Rightarrow> qx_t \<Rightarrow> qx_t \<Rightarrow> bool" where
  "ascending 0 R Q \<longleftrightarrow> True"
| "ascending (Suc m) R Q \<longleftrightarrow> 0 < R \<and> R \<le> R + Q \<and> ascending m (R + Q) Q"

text \<open>
  One pass suffices: continuing the walk for a larger quantity reaches the level a walk from the
  top would reach. Entry by entry the code's single pass is the list of independent consolidations.
\<close>

lemma depth_mono:
  assumes "\<And>x. P x \<Longrightarrow> P' x"
  shows "depth P xs \<le> depth P' xs"
proof (rule ccontr)
  assume "\<not> depth P xs \<le> depth P' xs"
  then have lt: "depth P' xs < depth P xs" by simp
  then have "P (cum (take (depth P' xs) xs))"
    unfolding depth_def [of P] using scan_while_all [of 0 "depth P' xs" "\<lambda>n. P (cum (take n xs))"]
    by simp
  moreover have "depth P' xs < length xs" using lt depth_le [of P xs] by simp
  then have "\<not> P' (cum (take (depth P' xs) xs))"
    unfolding depth_def by (rule scan_while_stop)
  ultimately show False using assms by blast
qed

lemma walk_continue:
  fixes P' :: "qx_t \<times> qx_t \<Rightarrow> bool"
  assumes "n \<le> depth P' xs"
  shows "walk P' (\<lambda>_. True) consol (drop n xs) (cum (take n xs)) =
    (depth P' xs - n, cum (take (depth P' xs) xs))"
proof -
  have n: "n \<le> length xs" using assms depth_le order_trans by blast
  have cum: "fold (\<lambda>(k, v). consol k v) (take m (drop n xs)) (cum (take n xs)) = cum (take (n + m) xs)" for m
    by (simp add: cum_def take_add)
  have "scan_while (\<lambda>m. P' (cum (take (n + m) xs))) 0 (length (drop n xs)) = depth P' xs - n"
  proof (rule scan_while_eqI)
    show "P' (cum (take (n + j) xs))" if "j < depth P' xs - n" for j
      using that scan_while_all [of 0 "n + j" "\<lambda>n. P' (cum (take n xs))" "length xs"]
      by (simp add: depth_def)
    show "\<not> P' (cum (take (n + (depth P' xs - n)) xs))" if "depth P' xs - n < length (drop n xs)"
      using that assms scan_while_stop [of "\<lambda>n. P' (cum (take n xs))" 0 "length xs"]
      by (simp add: depth_def)
  qed (use depth_le [of P' xs] in auto)
  then show ?thesis using assms by (simp add: walk_scan Let_def cum)
qed

lemma consol_loop_continue:
  assumes "bi.stands h t it (take n xs) (drop n xs)" "n \<le> depth P xs" "P (0, 0)"
  shows "\<exists>h' it'. iter_loop P (\<lambda>_. True) consol h it (cum (take n xs)) =
      Some (h', it', cum (take (depth P xs) xs)) \<and> holds h' t xs \<and>
    (\<not> P (cum (take (depth P xs) xs)) \<longrightarrow>
       bi.stands h' t it' (take (depth P xs) xs) (drop (depth P xs) xs) \<and>
       iter_load h' it' = Some (snd (xs ! (depth P xs - 1))) \<and> it_k it' = fst (xs ! (depth P xs - 1)))"
proof -
  let ?n = "depth P xs"
  have eq: "take n xs @ take (?n - n) (drop n xs) = take ?n xs" "drop (?n - n) (drop n xs) = drop ?n xs"
    using assms(2) by (simp_all flip: take_add)
  obtain h' it' where l: "iter_loop P (\<lambda>_. True) consol h it (cum (take n xs)) =
      Some (h', it', cum (take ?n xs))" "holds h' t xs"
    "\<not> P (cum (take ?n xs)) \<longrightarrow> bi.stands h' t it' (take ?n xs) (drop ?n xs)"
    using loop_stops [OF walk_continue [OF assms(2)] assms(1)] unfolding eq append_take_drop_id by blast
  have "iter_load h' it' = Some (snd (xs ! (?n - 1))) \<and> it_k it' = fst (xs ! (?n - 1))"
    if P: "\<not> P (cum (take ?n xs))"
  proof -
    have "take ?n xs = take (?n - 1) xs @ [xs ! (?n - 1)]"
      using last_level depth_pos [of P xs] P depth_le assms(3) by blast
    then show ?thesis using l(3) P bi.stands_load by metis
  qed
  then show ?thesis using l by blast
qed

lemma ctops_loop_list:
  assumes "bi.stands h t it (take n xs) (drop n xs)" "n \<le> depth (\<lambda>(c, C). C < R) xs" "ascending m R Q"
  shows "\<exists>h'. ctops_loop m qp h it (cum (take n xs)) R Q acc = Some (h', acc @ ctops_list m xs qp R Q) \<and>
    holds h' t xs"
  using assms
proof (induction m arbitrary: h it n R acc)
  case 0
  then show ?case using bi.stands_side [of h t it "take n xs" "drop n xs"] by simp
next
  case (Suc m)
  let ?P = "\<lambda>(c, C). C < R"
  obtain c C where cC: "cum (take (depth ?P xs) xs) = (c, C)" by fastforce
  obtain h' it' where l: "iter_loop ?P (\<lambda>_. True) consol h it (cum (take n xs)) = Some (h', it', c, C)"
    "holds h' t xs" "\<not> C < R \<longrightarrow> bi.stands h' t it' (take (depth ?P xs) xs) (drop (depth ?P xs) xs) \<and>
       iter_load h' it' = Some (snd (xs ! (depth ?P xs - 1))) \<and> it_k it' = fst (xs ! (depth ?P xs - 1))"
    using consol_loop_continue [OF Suc.prems(1,2)] Suc.prems(3) cC by auto
  show ?case
  proof (cases "C < R")
    case False
    have up: "depth ?P xs \<le> depth (\<lambda>(c, C). C < R + Q) xs"
      using Suc.prems(3) d64_less_le_trans by (intro depth_mono) auto
    have "ctops_loop (Suc m) qp h it (cum (take n xs)) R Q acc =
        ctops_loop m qp h' it' (c, C) (R + Q) Q (acc @ [ctops_entry xs qp R])"
      using l False cC by (simp add: ctops_entry_def Let_def case_prod_beta)
    then show ?thesis
      using Suc.IH [OF _ up, of h' it' "acc @ [ctops_entry xs qp R]"] l(3) False Suc.prems(3)
      by (simp add: cC)
  qed (use l cC in simp)
qed

lemma book_ctops_list:
  assumes "book_levels b s xs" "ascending n Q Q"
  shows "\<exists>b'. book_ctops b s Q n qp = Some (b', ctops_list n xs qp Q Q) \<and> book_levels b' s xs \<and>
    same_but s b b'"
proof -
  obtain h t where h: "BOOK b s = Some (h, t)" "holds h t xs" using assms(1) by (rule book_levelsE)
  have "bi.stands h t (iter_init t) (take 0 xs) (drop 0 xs)" using iter_starts [OF h(2)] by simp
  from ctops_loop_list [OF this _ assms(2), of qp "[]"] show ?thesis
    using h(1) book_levels_set_side [OF h(1)] same_but_set_side [OF h(1)]
    by (auto simp: book_ctops_def cum_def)
qed

lemma vtops_loop_list:
  assumes "bi.stands h t it (take n xs) (drop n xs)" "n \<le> depth (\<lambda>(c, C). c < r) xs" "ascending m r v"
  shows "\<exists>h'. vtops_loop m qp h it (cum (take n xs)) r v acc = Some (h', acc @ vtops_list m xs qp r v) \<and>
    holds h' t xs"
  using assms
proof (induction m arbitrary: h it n r acc)
  case 0
  then show ?case using bi.stands_side [of h t it "take n xs" "drop n xs"] by simp
next
  case (Suc m)
  let ?P = "\<lambda>(c, C). c < r"
  obtain c C where cC: "cum (take (depth ?P xs) xs) = (c, C)" by fastforce
  obtain h' it' where l: "iter_loop ?P (\<lambda>_. True) consol h it (cum (take n xs)) = Some (h', it', c, C)"
    "holds h' t xs" "\<not> c < r \<longrightarrow> bi.stands h' t it' (take (depth ?P xs) xs) (drop (depth ?P xs) xs) \<and>
       iter_load h' it' = Some (snd (xs ! (depth ?P xs - 1))) \<and> it_k it' = fst (xs ! (depth ?P xs - 1))"
    using consol_loop_continue [OF Suc.prems(1,2)] Suc.prems(3) cC by auto
  show ?case
  proof (cases "c < r")
    case False
    have up: "depth ?P xs \<le> depth (\<lambda>(c, C). c < r + v) xs"
      using Suc.prems(3) d64_less_le_trans by (intro depth_mono) auto
    have "vtops_loop (Suc m) qp h it (cum (take n xs)) r v acc =
        vtops_loop m qp h' it' (c, C) (r + v) v (acc @ [vtops_entry xs qp r])"
      using l False cC by (simp add: vtops_entry_def Let_def case_prod_beta)
    then show ?thesis
      using Suc.IH [OF _ up, of h' it' "acc @ [vtops_entry xs qp r]"] l(3) False Suc.prems(3)
      by (simp add: cC)
  qed (use l cC in simp)
qed

lemma book_vtops_list:
  assumes "book_levels b s xs" "ascending n v v"
  shows "\<exists>b'. book_vtops b s v n qp = Some (b', vtops_list n xs qp v v) \<and> book_levels b' s xs \<and>
    same_but s b b'"
proof -
  obtain h t where h: "BOOK b s = Some (h, t)" "holds h t xs" using assms(1) by (rule book_levelsE)
  have "bi.stands h t (iter_init t) (take 0 xs) (drop 0 xs)" using iter_starts [OF h(2)] by simp
  from vtops_loop_list [OF this _ assms(2), of qp "[]"] show ?thesis
    using h(1) book_levels_set_side [OF h(1)] same_but_set_side [OF h(1)]
    by (auto simp: book_vtops_def cum_def)
qed

subsection \<open>Deleting, expiring, clearing\<close>

lemma rewrite_expired:
  assumes "\<forall>x \<in> set xs. \<not> btree_val_nil_p (snd x)"
  shows "rewrite btree_val_nil_p (\<lambda>k v. if val_t v \<le> t then btree_val_nil else v) xs =
    filter (\<lambda>(k, v). t < val_t v) xs"
  using assms by (induction xs) (auto simp: rewrite_def not_le split: if_splits)

lemma book_exp_filter:
  assumes a: "book_levels b BOOK_SIDE_ASK xs" and bd: "book_levels b BOOK_SIDE_BID ys"
    and t: "t \<noteq> 0" "t \<noteq> NATV"
  shows "\<exists>b'. book_exp b t = Some b' \<and>
    book_levels b' BOOK_SIDE_ASK (filter (\<lambda>(k, v). t < val_t v) xs) \<and>
    book_levels b' BOOK_SIDE_BID (filter (\<lambda>(k, v). t < val_t v) ys)"
proof -
  have all: "takeWhile ((\<lambda>_. True) \<circ> fst) zs = zs" "dropWhile ((\<lambda>_. True) \<circ> fst) zs = []"
    for zs :: "(px_t \<times> btree_val) list" by (simp_all add: takeWhile_eq_all_conv)
  note r = rewrite_expired [OF book_levels_live [OF a]] rewrite_expired [OF book_levels_live [OF bd]]
  show ?thesis
    using update_both_levels [OF a bd, of "\<lambda>_. True" "\<lambda>k v. if val_t v \<le> t then btree_val_nil else v"
        "\<lambda>_. True" "\<lambda>k v. if val_t v \<le> t then btree_val_nil else v"] t
    unfolding all r append_Nil2 by (auto simp: book_exp_def)
qed

text \<open>What a deletion at price \<open>p\<close> leaves of a level that it reaches: nothing if the price is better.\<close>

definition del_level :: "bool \<Rightarrow> px_t \<Rightarrow> qx_t \<Rightarrow> px_t \<Rightarrow> btree_val \<Rightarrow> btree_val" where
  "del_level descp p q k v = v\<lparr>val_q := if kbefore descp k p then 0 else val_q v - q\<rparr>"

lemma book_add_del:
  assumes a: "book_levels b BOOK_SIDE_ASK xs" and bd: "book_levels b BOOK_SIDE_BID ys"
    and s: "q_s q = BOOK_SIDE_DEL"
  shows "\<exists>b'. book_add b q = Some (b', q) \<and>
    book_levels b' BOOK_SIDE_ASK
      (rewrite btree_val_nil_p (del_level False (q_p q) (q_q q)) (takeWhile (\<lambda>x. fst x \<le> q_p q) xs) @
       dropWhile (\<lambda>x. fst x \<le> q_p q) xs) \<and>
    book_levels b' BOOK_SIDE_BID
      (rewrite btree_val_nil_p (del_level True (q_p q) (q_q q)) (takeWhile (\<lambda>x. q_p q \<le> fst x) ys) @
       dropWhile (\<lambda>x. q_p q \<le> fst x) ys)"
proof -
  have f: "(\<lambda>k v. v\<lparr>val_q := if k < q_p q then 0 else val_q v - q_q q\<rparr>) = del_level False (q_p q) (q_q q)"
    "(\<lambda>k v. v\<lparr>val_q := if q_p q < k then 0 else val_q v - q_q q\<rparr>) = del_level True (q_p q) (q_q q)"
    by (simp_all add: del_level_def kbefore_def fun_eq_iff)
  show ?thesis
    using update_both_levels [OF a bd, of "\<lambda>k. k \<le> q_p q" "del_level False (q_p q) (q_q q)"
        "\<lambda>k. q_p q \<le> k" "del_level True (q_p q) (q_q q)"] s
    by (auto simp: book_add_def f comp_def)
qed

lemma book_add_clr:
  assumes "book_levels b BOOK_SIDE_ASK xs" "book_levels b BOOK_SIDE_BID ys" "q_s q = BOOK_SIDE_CLR"
  shows "\<exists>b'. book_add b q = Some (b', q) \<and> book_levels b' BOOK_SIDE_ASK [] \<and>
    book_levels b' BOOK_SIDE_BID []"
  using book_clr_levels [OF assms(1,2)] assms(3) by (auto simp: book_add_def)

text \<open>A quote that makes no sense is answered with \<open>NOT_A_QUO\<close> and leaves the book alone.\<close>

lemma book_add_refused:
  assumes "q_s q \<notin> {BOOK_SIDE_ASK, BOOK_SIDE_BID, BOOK_SIDE_CLR, BOOK_SIDE_DEL} \<or>
    q_s q \<in> {BOOK_SIDE_ASK, BOOK_SIDE_BID} \<and>
      (q_f q \<notin> {BOOK_LVL_1, BOOK_LVL_2, BOOK_LVL_3} \<or> q_f q = BOOK_LVL_1 \<and> q_q q < 0)"
  shows "book_add b q = Some (b, NOT_A_QUO)"
  using assms by (auto simp: book_add_def)

lemma book_add_nan_top:
  assumes "q_s q = BOOK_SIDE_ASK \<or> q_s q = BOOK_SIDE_BID" "q_f q = BOOK_LVL_1" "\<not> q_q q < 0"
    and "isnand64 (q_p q)" "book_levels b (q_s q) xs"
  shows "\<exists>b'. book_add b q = Some (b', q) \<and> book_levels b' (q_s q) [] \<and> same_but (q_s q) b b'"
  using clr_side_levels [OF assms(5)] assms(1-4) by (auto simp: book_add_def)

end
