(* ===== verification/Books_Add.thy ===== *)
theory Books_Add
  imports Books_Levels
begin

text \<open>
  What adding a quote does to the levels of its side, while the side is a single leaf (which it
  is until its 63rd level), and the books a sequence of quotes builds up.
\<close>

subsection \<open>Leaves without stale marks\<close>

definition swept :: "btree_s \<Rightarrow> bool" where
  "swept nd \<longleftrightarrow> (\<forall>j < 64. bit (bt_used nd) j \<longleftrightarrow> j < bt_n nd \<and> live nd j)"

lemma swept_marks_ok: "leaf_ok nd \<Longrightarrow> swept nd \<Longrightarrow> marks_ok nd"
  using leaf_okD(4) [of nd] by (auto simp: swept_def marks_ok_def)

lemma swept_nul: "leaf_ok nd \<Longrightarrow> swept nd \<Longrightarrow> \<not> bit (bt_used nd) (nul_index nd)"
  using leaf_okD(4) [of nd] nul_index_le [of nd] live_not_nul [of _ nd]
  by (fastforce simp: swept_def)

lemma leaf_put_swept:
  assumes ok: "leaf_ok nd" and room: "leaf_room nd k" and sw: "swept nd" and v: "\<not> btree_val_nil_p v"
  shows "swept (leaf_put nd k v)"
proof (cases "leaf_get nd k")
  case (Some i)
  then have i: "i < bt_n nd" "key_index nd k = i" "deq k (bt_key nd ! i)"
    using leaf_get_Some [OF ok] key_index_eq [OF ok] by blast+
  then have "leaf_put nd k v = nd\<lparr>bt_used := bt_used nd OR bit1 i, bt_val := (bt_val nd)[i := UV v]\<rparr>"
    using leaf_add_found [of k nd] by (simp add: leaf_put_def)
  then show ?thesis
    using i(1) sw v leaf_okD(3,4) [OF ok] by (auto simp: swept_def nth_list_update bit_or_iff)
next
  case None
  let ?i = "key_index nd k" and ?m = "nul_index nd"
  note b = ins_bounds [OF ok room None] and p = leaf_put_marks_new [OF ok room None]
  have mk: "marks_ok (leaf_put nd k v)"
    using leaf_put_marks_ok [OF ok room swept_marks_ok [OF ok sw]] swept_nul [OF ok sw] by blast
  have "live (leaf_put nd k v) j" if "j < ins_n nd" "bit (bt_used (leaf_put nd k v)) j" for j
  proof (cases "j = ins_slot ?i ?m")
    case False
    then have "bit (bt_used nd) (ins_src ?i ?m j)" "ins_src ?i ?m j < bt_n nd"
      using that bit_move_marks [OF b(4,5) swept_nul [OF ok sw]] b(1-3)
        ins_src_less [of ?i "bt_n nd" ?m j]
      by (auto simp: p(1) bit_or_iff ins_n_def)
    then show ?thesis
      using sw p(3) [OF that(1) False, of v] leaf_okD(4) [OF ok] by (simp add: swept_def)
  next
    case True
    obtain nd' s sp where add: "leaf_add nd k = (nd', s, sp)" by (rule prod_cases3)
    have "s = j" using True add leaf_add_new [of k nd] None leaf_get_index [of nd k] by auto
    then show ?thesis
      using v add leaf_add_shape(5) [OF ok room add] that(1) b(3) by (simp add: leaf_put_def)
  qed
  then show ?thesis
    using mk b(3) unfolding marks_ok_def swept_def p(2) by (metis not_le)
qed

subsection \<open>Levels by price\<close>

definition look :: "(px_t \<times> btree_val) list \<Rightarrow> px_t \<Rightarrow> btree_val option" where
  "look xs k = map_option snd (find (\<lambda>(k', v). deq k k') xs)"

lemma look_leaf:
  assumes "leaf_ok nd" "marks_ok nd"
  shows "look (leaf_levels nd 0 (bt_n nd)) k = leaf_level nd k"
proof -
  have mem: "(k', w) \<in> set (leaf_levels nd 0 (bt_n nd)) \<longleftrightarrow>
      (\<exists>j < bt_n nd. live nd j \<and> k' = bt_key nd ! j \<and> w = leaf_val nd j)" for k' w
    using assms(2) by (auto simp: leaf_levels_def vis_def marks_ok_def)
  have iff: "leaf_level nd k = Some w \<longleftrightarrow> (\<exists>k'. (k', w) \<in> set (leaf_levels nd 0 (bt_n nd)) \<and> deq k k')" for w
    unfolding leaf_level_iff [OF assms(1)] mem by blast
  show ?thesis
  proof (cases "look (leaf_levels nd 0 (bt_n nd)) k")
    case None
    then have "\<not> (k', w) \<in> set (leaf_levels nd 0 (bt_n nd)) \<or> \<not> deq k k'" for k' w
      by (auto simp: look_def find_None_iff)
    then show ?thesis using None iff by (metis not_None_eq)
  next
    case (Some w)
    then have "\<exists>k'. (k', w) \<in> set (leaf_levels nd 0 (bt_n nd)) \<and> deq k k'"
      by (auto simp: look_def find_Some_iff in_set_conv_nth) (metis nth_mem)
    then show ?thesis using Some iff by metis
  qed
qed

text \<open>A level that lost its mark is not looked up.\<close>

lemma look_hidden:
  assumes ok: "leaf_ok nd" and j: "j < bt_n nd" "\<not> bit (bt_used nd) j" "deq k (bt_key nd ! j)"
  shows "look (leaf_levels nd 0 (bt_n nd)) k = None"
proof -
  have "i = j" if "i < bt_n nd" "deq k (bt_key nd ! i)" for i
    using leaf_get_Some [OF ok, of k] that j by (metis option.inject)
  then show ?thesis using j(2) by (fastforce simp: look_def find_None_iff leaf_levels_def vis_def)
qed

lemma leaf_levels_sorted:
  assumes "leaf_ok nd"
  shows "sorted_wrt (\<lambda>x y. kbefore (bt_descp nd) (fst x) (fst y)) (leaf_levels nd 0 (bt_n nd))"
proof -
  have "sorted_wrt (\<lambda>i j. kbefore (bt_descp nd) (bt_key nd ! i) (bt_key nd ! j)) [0..<bt_n nd]"
    using leaf_okD(5) [OF assms] by (auto simp: sorted_wrt_iff_nth_less)
  then have "sorted_wrt (\<lambda>i j. kbefore (bt_descp nd) (bt_key nd ! i) (bt_key nd ! j))
      (filter (vis nd) [0..<bt_n nd])" by (rule sorted_wrt_filter)
  then show ?thesis by (simp add: leaf_levels_def sorted_wrt_map)
qed

subsection \<open>A side in one leaf\<close>

definition leaf_side :: "book_t \<Rightarrow> book_side_t \<Rightarrow> btree_s \<Rightarrow> bool" where
  "leaf_side b s nd \<longleftrightarrow> (\<exists>h t. BOOK b s = Some (h, t) \<and> deref h t = Some nd) \<and>
     leaf_ok nd \<and> bt_next nd = None \<and> \<not> bt_splitp nd"

lemma leaf_side_levels:
  assumes "leaf_side b s nd"
  shows "book_levels b s (leaf_levels nd 0 (bt_n nd))"
proof -
  obtain h t where h: "BOOK b s = Some (h, t)" "deref h t = Some nd" "leaf_ok nd" "bt_next nd = None"
    using assms by (auto simp: leaf_side_def)
  then have "leaves h t [t]" using first_leaf_leaf leaf_okD(1) by (auto simp: leaves_first)
  then have "holds h t (chain_levels h [t])" unfolding holds_def by blast
  then show ?thesis using h by (simp add: book_levels_def leaf_levels_at_def)
qed

lemma leaf_side_unique:
  assumes "leaf_side b s nd" "book_levels b s xs"
  shows "xs = leaf_levels nd 0 (bt_n nd)"
proof -
  obtain h t where h: "BOOK b s = Some (h, t)" "deref h t = Some nd" "leaf_ok nd" "bt_next nd = None"
    using assms(1) by (auto simp: leaf_side_def)
  then have "holds h t xs" using assms(2) by (simp add: book_levels_def)
  then obtain ts where ts: "leaf_chain h (Some t) ts" "xs = chain_levels h ts"
    using h first_leaf_leaf leaf_okD(1) by (auto simp: holds_def leaves_def split: option.splits)
  then obtain ts' where t': "ts = t # ts'" "leaf_chain h None ts'" using h by (cases ts) auto
  then have "ts' = []" by (cases ts') auto
  then show ?thesis using ts(2) t'(1) h(2) by (simp add: leaf_levels_at_def)
qed

definition old_val :: "btree_s \<Rightarrow> px_t \<Rightarrow> btree_val" where
  "old_val nd p = (case leaf_get nd p of None \<Rightarrow> btree_val_nil | Some i \<Rightarrow> leaf_val nd i)"

lemma swap_level_leaf:
  assumes side: "leaf_side b (q_s q) nd" and room: "leaf_room nd (q_p q)" and p: "\<not> isnand64 (q_p q)"
  shows "\<exists>b'. swap_level b q f =
      Some (b', q\<lparr>q_q := val_q (old_val nd (q_p q)), q_t := val_t (old_val nd (q_p q))\<rparr>) \<and>
    same_but (q_s q) b b' \<and>
    (\<exists>h t. BOOK b' (q_s q) = Some (h, t) \<and> deref h t =
       Some ((leaf_put nd (q_p q) (f (old_val nd (q_p q))))
         \<lparr>bt_splitp := bt_n (leaf_put nd (q_p q) (f (old_val nd (q_p q)))) \<ge> 63\<rparr>))"
proof -
  obtain h t where h: "BOOK b (q_s q) = Some (h, t)" "deref h t = Some nd" "\<not> bt_splitp nd"
    and ok: "leaf_ok nd"
    using side by (auto simp: leaf_side_def)
  obtain nd' s sp where add: "leaf_add nd (q_p q) = (nd', s, sp)" by (rule prod_cases3)
  note lt = deref_Some_lt [OF h(2)] and sh = leaf_add_shape [OF ok room add]
  have old: "leaf_val nd' s = old_val nd (q_p q)"
  proof (cases "leaf_get nd (q_p q)")
    case None
    then show ?thesis using leaf_add_slots(2) [OF ok room None add] by (simp add: old_val_def)
  next
    case (Some i)
    then have "key_index nd (q_p q) = i" "deq (q_p q) (bt_key nd ! i)"
      using leaf_get_Some [OF ok] key_index_eq [OF ok] by blast+
    then show ?thesis using Some add leaf_add_found [of "q_p q" nd] by (auto simp: old_val_def)
  qed
  have put: "btree_put h t (q_p q) = Some (store h t (nd'\<lparr>bt_splitp := sp\<rparr>), (t, s))"
    using h add leaf_okD(1) [OF ok] lt
    by (simp add: btree_put_def heap_simps) (simp add: store_def)
  have "swap_level b q f = Some (set_side b (q_s q) (store (store h t (nd'\<lparr>bt_splitp := sp\<rparr>)) t
      (nd'\<lparr>bt_splitp := sp, bt_val := (bt_val nd')[s := UV (f (old_val nd (q_p q)))]\<rparr>)),
      q\<lparr>q_q := val_q (old_val nd (q_p q)), q_t := val_t (old_val nd (q_p q))\<rparr>)"
    using h(1) put old lt
    by (simp add: swap_level_def load_val_def store_val_def heap_simps)
  then show ?thesis
    using same_but_set_side [OF h(1)] BOOK_set_side [OF h(1)] lt add sh(7)
    by (simp add: heap_simps leaf_put_def)
qed

text \<open>Writing a level of a swept side that has room for it.\<close>

definition displays :: "book_t \<Rightarrow> book_side_t \<Rightarrow> btree_s \<Rightarrow> bool" where
  "displays b s nd \<longleftrightarrow> leaf_side b s nd \<and> swept nd \<and> bt_descp nd = (s = BOOK_SIDE_BID)"

abbreviation levels_of :: "btree_s \<Rightarrow> (px_t \<times> btree_val) list" where
  "levels_of nd \<equiv> leaf_levels nd 0 (bt_n nd)"

lemma leaf_splitp [simp]:
  "leaf_ok (nd\<lparr>bt_splitp := x\<rparr>) = leaf_ok nd" "marks_ok (nd\<lparr>bt_splitp := x\<rparr>) = marks_ok nd"
  "swept (nd\<lparr>bt_splitp := x\<rparr>) = swept nd" "vis (nd\<lparr>bt_splitp := x\<rparr>) = vis nd"
  "leaf_levels (nd\<lparr>bt_splitp := x\<rparr>) i m = leaf_levels nd i m"
proof -
  show v: "vis (nd\<lparr>bt_splitp := x\<rparr>) = vis nd" by (simp add: vis_def fun_eq_iff)
  show "leaf_levels (nd\<lparr>bt_splitp := x\<rparr>) i m = leaf_levels nd i m" by (simp add: leaf_levels_def v)
qed (simp_all add: leaf_ok_def marks_ok_def swept_def)

lemma leaf_put_shape:
  assumes "leaf_ok nd" "leaf_room nd k"
  shows "bt_descp (leaf_put nd k v) = bt_descp nd" "bt_next (leaf_put nd k v) = bt_next nd"
    "bt_n (leaf_put nd k v) = (if leaf_get nd k = None then ins_n nd else bt_n nd)"
proof -
  obtain nd' s sp where add: "leaf_add nd k = (nd', s, sp)" by (rule prod_cases3)
  then show "bt_descp (leaf_put nd k v) = bt_descp nd" "bt_next (leaf_put nd k v) = bt_next nd"
    "bt_n (leaf_put nd k v) = (if leaf_get nd k = None then ins_n nd else bt_n nd)"
    using leaf_add_shape [OF assms add] by (simp_all add: leaf_put_def)
qed

lemma swap_level_displays:
  assumes sh: "displays b (q_s q) nd" and n: "bt_n nd < 62" and p: "\<not> isnand64 (q_p q)"
  shows "\<exists>b' nd'. swap_level b q f =
      Some (b', q\<lparr>q_q := val_q (old_val nd (q_p q)), q_t := val_t (old_val nd (q_p q))\<rparr>) \<and>
    same_but (q_s q) b b' \<and> leaf_side b' (q_s q) nd' \<and> marks_ok nd' \<and> bt_n nd' \<le> bt_n nd + 1 \<and>
    (\<not> btree_val_nil_p (f (old_val nd (q_p q))) \<longrightarrow> displays b' (q_s q) nd') \<and>
    (\<forall>k. \<not> isnand64 k \<longrightarrow> look (levels_of nd') k =
       (if deq (q_p q) k then nonnil (f (old_val nd (q_p q))) else look (levels_of nd) k))"
proof -
  have ok: "leaf_ok nd" "swept nd" "bt_next nd = None" "bt_descp nd = (q_s q = BOOK_SIDE_BID)"
    and side: "leaf_side b (q_s q) nd"
    using sh by (auto simp: displays_def leaf_side_def)
  have room: "leaf_room nd (q_p q)" using n by (simp add: leaf_room_def)
  let ?v = "f (old_val nd (q_p q))"
  let ?put = "leaf_put nd (q_p q) ?v"
  note shape = leaf_put_shape [OF ok(1) room, of ?v]
  have n': "bt_n ?put \<le> bt_n nd + 1" using shape(3) by (simp add: ins_n_def)
  obtain b' where b': "swap_level b q f =
      Some (b', q\<lparr>q_q := val_q (old_val nd (q_p q)), q_t := val_t (old_val nd (q_p q))\<rparr>)"
    "same_but (q_s q) b b'"
    "\<exists>h t. BOOK b' (q_s q) = Some (h, t) \<and> deref h t = Some (?put\<lparr>bt_splitp := bt_n ?put \<ge> 63\<rparr>)"
    using swap_level_leaf [OF side room p] by blast
  have okp: "leaf_ok ?put" by (rule leaf_put_leaf_ok [OF ok(1) room p])
  have mkp: "marks_ok ?put"
    using leaf_put_marks_ok [OF ok(1) room swept_marks_ok [OF ok(1,2)]] swept_nul [OF ok(1,2)] by blast
  have side': "leaf_side b' (q_s q) (?put\<lparr>bt_splitp := bt_n ?put \<ge> 63\<rparr>)"
    using b'(3) okp shape(2) ok(3) n n' by (simp add: leaf_side_def)
  moreover have "look (levels_of ?put) k =
      (if deq (q_p q) k then nonnil ?v else look (levels_of nd) k)" if "\<not> isnand64 k" for k
    using leaf_put_level [OF ok(1) room p that] look_leaf [OF okp mkp]
      look_leaf [OF ok(1) swept_marks_ok [OF ok(1,2)]] by simp
  moreover have "swept ?put" if "\<not> btree_val_nil_p ?v"
    using leaf_put_swept [OF ok(1) room ok(2) that] .
  ultimately show ?thesis
    using b'(1,2) mkp n' shape(1) ok(4)
    by (intro exI [of _ b'] exI [of _ "?put\<lparr>bt_splitp := bt_n ?put \<ge> 63\<rparr>"]) (simp add: displays_def)
qed

lemma make_book_displays:
  assumes "s = BOOK_SIDE_ASK \<or> s = BOOK_SIDE_BID"
  shows "displays make_book s (new_btree (s = BOOK_SIDE_BID))"
proof -
  let ?nd = "new_btree (s = BOOK_SIDE_BID)"
  have "BOOK make_book s = Some ([Some ?nd], 0)" "deref [Some ?nd] 0 = Some ?nd"
    using assms by (auto simp: make_book_def make_btree_def BOOK_def deref_def)
  moreover have "bt_next ?nd = None" "\<not> bt_splitp ?nd" "swept ?nd" "bt_descp ?nd = (s = BOOK_SIDE_BID)"
    by (simp_all add: new_btree_def swept_def)
  ultimately show ?thesis using new_btree_leaf_ok by (auto simp: displays_def leaf_side_def)
qed

subsection \<open>Level-2 quotes\<close>

definition quote_val :: "book_quo_t \<Rightarrow> btree_val" where
  "quote_val q = \<lparr>val_q = q_q q, val_t = q_t q\<rparr>"

definition lvl2_quote :: "book_side_t \<Rightarrow> book_quo_t \<Rightarrow> bool" where
  "lvl2_quote s q \<longleftrightarrow> q_s q = s \<and> q_f q = BOOK_LVL_2 \<and> \<not> isnand64 (q_p q) \<and> q_q q > 0"

lemma quote_val_live: "q_q q > 0 \<Longrightarrow> \<not> btree_val_nil_p (quote_val q)"
  by (simp add: btree_val_nil_p_def quote_val_def d64_lt_iff)

fun book_adds :: "book_t \<Rightarrow> book_quo_t list \<Rightarrow> book_t option" where
  "book_adds b [] = Some b"
| "book_adds b (q # qs) = do { (b, _) \<leftarrow> book_add b q; book_adds b qs }"

text \<open>The last of the quotes for a price.\<close>

definition last_quote :: "book_quo_t list \<Rightarrow> px_t \<Rightarrow> btree_val option" where
  "last_quote qs k = map_option quote_val (find (\<lambda>q. deq (q_p q) k) (rev qs))"

lemma find_append: "find P (xs @ ys) = (case find P xs of None \<Rightarrow> find P ys | Some x \<Rightarrow> Some x)"
  by (induction xs) auto

lemma book_adds_lvl2:
  assumes s: "s = BOOK_SIDE_ASK \<or> s = BOOK_SIDE_BID" and "displays b s nd"
    and "bt_n nd + length qs \<le> 62" "\<forall>q \<in> set qs. lvl2_quote s q"
  shows "\<exists>b' nd'. book_adds b qs = Some b' \<and> displays b' s nd' \<and> bt_n nd' \<le> bt_n nd + length qs \<and>
    (\<forall>k. \<not> isnand64 k \<longrightarrow> look (levels_of nd') k =
       (case last_quote qs k of None \<Rightarrow> look (levels_of nd) k | Some v \<Rightarrow> Some v))"
  using assms(2-)
proof (induction qs arbitrary: b nd)
  case Nil
  then show ?case by (auto simp: last_quote_def)
next
  case (Cons q qs)
  then have q: "q_s q = s" "q_f q = BOOK_LVL_2" "\<not> isnand64 (q_p q)" "q_q q > 0" "bt_n nd < 62"
    by (auto simp: lvl2_quote_def)
  have "\<not> btree_val_nil_p (quote_val q)" using quote_val_live q(4) .
  then obtain b1 q1 n1 where 1: "book_add b q = Some (b1, q1)" "displays b1 s n1" "bt_n n1 \<le> bt_n nd + 1"
    "\<And>k. \<not> isnand64 k \<Longrightarrow> look (levels_of n1) k =
       (if deq (q_p q) k then Some (quote_val q) else look (levels_of nd) k)"
    using swap_level_displays [of b q nd "\<lambda>_. quote_val q"] q Cons.prems(1) s
    by (auto simp: book_add_def nonnil_def simp flip: quote_val_def)
  obtain b2 n2 where 2: "book_adds b1 qs = Some b2" "displays b2 s n2" "bt_n n2 \<le> bt_n n1 + length qs"
    "\<And>k. \<not> isnand64 k \<Longrightarrow> look (levels_of n2) k =
       (case last_quote qs k of None \<Rightarrow> look (levels_of n1) k | Some v \<Rightarrow> Some v)"
    using Cons.IH [OF 1(2)] 1(3) Cons.prems(2,3) by fastforce
  have "look (levels_of n2) k = (case last_quote (q # qs) k of None \<Rightarrow> look (levels_of nd) k | Some v \<Rightarrow> Some v)"
    if "\<not> isnand64 k" for k
    using 1(4) [OF that] 2(4) [OF that] by (auto simp: last_quote_def find_append split: option.split)
  then show ?case using 1(1,3) 2(1-3) by (intro exI [of _ b2] exI [of _ n2]) simp
qed

subsection \<open>Level-3 and level-1 quotes\<close>

lemma book_add_lvl3:
  assumes s: "q_s q = BOOK_SIDE_ASK \<or> q_s q = BOOK_SIDE_BID" and f: "q_f q = BOOK_LVL_3"
    and sh: "displays b (q_s q) nd" and n: "bt_n nd < 62" and p: "\<not> isnand64 (q_p q)"
  shows "\<exists>b' nd'. book_add b q =
      Some (b', q\<lparr>q_q := val_q (old_val nd (q_p q)), q_t := val_t (old_val nd (q_p q))\<rparr>) \<and>
    leaf_side b' (q_s q) nd' \<and>
    (\<forall>k. \<not> isnand64 k \<longrightarrow> look (levels_of nd') k =
       (if deq (q_p q) k
        then (let o' = q_q q + val_q (old_val nd (q_p q))
              in nonnil \<lparr>val_q = if o' \<ge> 0 then o' else 0, val_t = q_t q\<rparr>)
        else look (levels_of nd) k))"
proof -
  let ?f = "\<lambda>v. let o' = q_q q + val_q v in \<lparr>val_q = (if o' \<ge> 0 then o' else 0), val_t = q_t q\<rparr>"
  have eq: "book_add b q = swap_level b q ?f" using s f by (auto simp: book_add_def)
  show ?thesis unfolding eq
    using swap_level_displays [OF sh n p, of ?f] unfolding Let_def by blast
qed

lemma clr_side_leaf:
  assumes "leaf_side b s nd"
  shows "\<exists>b'. clr_side b s = Some b' \<and> leaf_side b' s (clr_vals nd) \<and> same_but s b b'"
proof -
  obtain h t where h: "BOOK b s = Some (h, t)" "deref h t = Some nd"
    and ok: "leaf_ok nd" "bt_next nd = None" "\<not> bt_splitp nd"
    using assms by (auto simp: leaf_side_def)
  have "btree_clr h t = Some (store h t (clr_vals nd))"
    using first_leaf_leaf [OF h(2)] leaf_okD(1) [OF ok(1)] h(2) ok(2)
    by (simp add: btree_clr_def clr_leaves.simps)
  moreover have "deref (store h t (clr_vals nd)) t = Some (clr_vals nd)"
    using deref_Some_lt [OF h(2)] by (simp add: heap_simps)
  ultimately show ?thesis
    using h(1) BOOK_set_side [OF h(1)] same_but_set_side [OF h(1)] ok clr_vals_leaf(1) [OF ok(1)]
    by (auto simp: clr_side_def leaf_side_def)
qed

lemma leaf_put_marked:
  assumes ok: "leaf_ok nd" and room: "leaf_room nd k" and k: "\<not> isnand64 k"
    and j: "j < bt_n (leaf_put nd k v)" "deq k (bt_key (leaf_put nd k v) ! j)"
  shows "bit (bt_used (leaf_put nd k v)) j"
proof -
  obtain nd' s sp where add: "leaf_add nd k = (nd', s, sp)" by (rule prod_cases3)
  have okp: "leaf_ok nd'" by (rule leaf_add_leaf_ok [OF ok room k add])
  have "s < bt_n nd' \<and> deq k (bt_key nd' ! s) \<and> bit (bt_used nd') s"
  proof (cases "leaf_get nd k")
    case None
    then show ?thesis
      using leaf_add_slots(1,3) [OF ok room None add] add leaf_add_new [of k nd]
        leaf_get_index [of nd k] ins_bounds [OF ok room None] k
      by (auto simp: bit_or_iff)
  next
    case (Some i)
    then have "i < bt_n nd" "deq k (bt_key nd ! i)" using leaf_get_Some [OF ok] by auto
    then show ?thesis
      using key_index_eq [OF ok] add leaf_add_found [of k nd] leaf_okD(4) [OF ok]
      by (auto simp: bit_or_iff)
  qed
  moreover from this have "j = s"
    using leaf_get_Some [OF okp, of k] j add by (simp add: leaf_put_def) (metis option.inject)
  ultimately show ?thesis using add by (simp add: leaf_put_def)
qed

lemma filter_unique:
  "s < n \<Longrightarrow> P s \<Longrightarrow> (\<And>j. j < n \<Longrightarrow> P j \<Longrightarrow> j = s) \<Longrightarrow> filter P [0..<n] = [s]"
proof (induction n)
  case (Suc n)
  show ?case
  proof (cases "s = n")
    case True
    have "\<not> P j" if "j < n" for j using that Suc.prems(3) [of j] True by auto
    then have "filter P [0..<n] = []" by (simp add: filter_empty_conv)
    then show ?thesis using True Suc.prems(2) by simp
  next
    case False
    then have "\<not> P n" "s < n" using Suc.prems(1) Suc.prems(3) [of n] by auto
    moreover have "filter P [0..<n] = [s]"
      using \<open>s < n\<close> Suc.prems(2) by (rule Suc.IH) (use Suc.prems(3) in simp)
    ultimately show ?thesis by simp
  qed
qed simp

lemma leaf_put_cleared:
  assumes ok: "leaf_ok nd" and nil: "\<forall>j < bt_n nd. \<not> live nd j" and k: "\<not> isnand64 k"
    and v: "\<not> btree_val_nil_p v"
  shows "leaf_room nd k" "bt_n (leaf_put nd k v) \<le> max 1 (bt_n nd)"
    "\<exists>k'. deq k k' \<and> levels_of (leaf_put nd k v) = [(k', v)]"
proof -
  have nul: "nul_index nd = 0"
    unfolding nul_index_def using nil by (subst scan_while.simps) auto
  then show room: "leaf_room nd k" by (auto simp: leaf_room_def)
  show "bt_n (leaf_put nd k v) \<le> max 1 (bt_n nd)"
    using leaf_put_shape(3) [OF ok room] nul by (simp add: ins_n_def)
  let ?p = "leaf_put nd k v"
  obtain s where s: "s < bt_n ?p" "deq k (bt_key ?p ! s)" "leaf_val ?p s = v"
    and others: "\<And>w k'. \<not> deq k k' \<Longrightarrow>
      (\<exists>j < bt_n ?p. deq k' (bt_key ?p ! j) \<and> live ?p j \<and> leaf_val ?p j = w) \<longleftrightarrow>
      (\<exists>j < bt_n nd. deq k' (bt_key nd ! j) \<and> live nd j \<and> leaf_val nd j = w)"
    using leaf_put_slots [OF ok room k] by blast
  have okp: "leaf_ok ?p" by (rule leaf_put_leaf_ok [OF ok room k])
  have uniq: "j = s" if j: "j < bt_n ?p" "vis ?p j" for j
  proof -
    have "\<not> isnand64 (bt_key ?p ! j)" using leaf_okD(4,6) [OF okp] j(1) by simp
    then have "\<exists>i < bt_n ?p. deq (bt_key ?p ! j) (bt_key ?p ! i) \<and> live ?p i \<and>
        leaf_val ?p i = leaf_val ?p j" using j by (intro exI [of _ j]) (simp add: vis_def)
    moreover have "\<not> (\<exists>i < bt_n nd. deq (bt_key ?p ! j) (bt_key nd ! i) \<and> live nd i \<and>
        leaf_val nd i = leaf_val ?p j)" using nil by blast
    ultimately have "deq k (bt_key ?p ! j)"
      using others [of "bt_key ?p ! j" "leaf_val ?p j"] by fast
    then show ?thesis using leaf_get_Some [OF okp, of k] j(1) s(1,2) by (metis option.inject)
  qed
  have "vis ?p s" using leaf_put_marked [OF ok room k s(1,2)] s(3) v by (simp add: vis_def)
  from filter_unique [of s "bt_n ?p" "vis ?p", OF s(1) this uniq]
  have "filter (vis ?p) [0..<bt_n ?p] = [s]" .
  then show "\<exists>k'. deq k k' \<and> levels_of ?p = [(k', v)]"
    using s(2,3) by (simp add: leaf_levels_def)
qed

lemma book_add_lvl1:
  assumes s: "q_s q = BOOK_SIDE_ASK \<or> q_s q = BOOK_SIDE_BID" and f: "q_f q = BOOK_LVL_1"
    and sh: "leaf_side b (q_s q) nd" and p: "\<not> isnand64 (q_p q)" and v: "q_q q > 0" and n: "bt_n nd < 63"
  shows "\<exists>b' q' k'. book_add b q = Some (b', q') \<and> same_but (q_s q) b b' \<and> deq (q_p q) k' \<and>
    book_levels b' (q_s q) [(k', quote_val q)]"
proof -
  let ?c = "clr_vals nd"
  have ok: "leaf_ok nd" using sh by (simp add: leaf_side_def)
  obtain b1 where b1: "clr_side b (q_s q) = Some b1" "leaf_side b1 (q_s q) ?c" "same_but (q_s q) b b1"
    using clr_side_leaf [OF sh] by blast
  have "\<forall>j < bt_n ?c. \<not> live ?c j" using clr_vals_leaf(2) [OF ok] by simp
  note put = leaf_put_cleared [OF clr_vals_leaf(1) [OF ok] this p quote_val_live [OF v]]
  let ?p = "leaf_put ?c (q_p q) (quote_val q)"
  have n': "bt_n ?p < 63" using put(2) n by simp
  obtain b2 where b2: "swap_level b1 q (\<lambda>_. quote_val q) =
      Some (b2, q\<lparr>q_q := val_q (old_val ?c (q_p q)), q_t := val_t (old_val ?c (q_p q))\<rparr>)"
    "same_but (q_s q) b1 b2"
    "\<exists>h t. BOOK b2 (q_s q) = Some (h, t) \<and> deref h t = Some (?p\<lparr>bt_splitp := bt_n ?p \<ge> 63\<rparr>)"
    using swap_level_leaf [OF b1(2) put(1) p, of "\<lambda>_. quote_val q"] by blast
  have "leaf_side b2 (q_s q) (?p\<lparr>bt_splitp := bt_n ?p \<ge> 63\<rparr>)"
    using b2(3) n' leaf_put_leaf_ok [OF clr_vals_leaf(1) [OF ok] put(1) p]
      leaf_put_shape(2) [OF clr_vals_leaf(1) [OF ok] put(1)] b1(2)
    by (simp add: leaf_side_def)
  then have "book_levels b2 (q_s q) (levels_of ?p)" using leaf_side_levels by fastforce
  moreover have "book_add b q = swap_level b1 q (\<lambda>_. quote_val q)"
    using s f v p b1(1) by (auto simp: book_add_def quote_val_def d64_lt_iff)
  ultimately show ?thesis
    using b2(1,2) b1(3) put(3) by (auto simp: same_but_def)
qed

end
