(* ===== verification/Books_Contract.thy ===== *)
theory Books_Contract
  imports Books_Add
begin

text \<open>
  The properties of the order book, over the levels of its sides: \<open>book_levels b s xs\<close> says that side
  \<open>s\<close> of book \<open>b\<close> shows the levels \<open>xs\<close>, best price first, and \<open>same_but s b b'\<close> that the other side
  is not touched (reading may take stale marks off the side that is read).
\<close>

subsection \<open>A sample book\<close>

lemma dec_of_zero [simp]: "dec_of_d64 0 = DFin False 0 0"
  using dec_of_dd [of 0 0] by (simp add: dd_def d64_of_dec_def zero_d64_def)

lemmas dd_eval = less_eq_d64_def less_d64_def deq_def isnand64_def dec_of_dd scaled_def

definition sample_bids :: btree_s where
  "sample_bids = (new_btree True)\<lparr>bt_n := 1, bt_used := 1,
     bt_key := (bt_key (new_btree True))[0 := dd 99 0],
     bt_val := (bt_val (new_btree True))[0 := UV (sample_val 4)]\<rparr>"

definition sample_book :: book_t where
  "sample_book = \<lparr>quos = [([Some sample_leaf], 0), ([Some sample_bids], 0)]\<rparr>"

lemma sample_bids_eval: "leaf_ok sample_bids \<and> marks_ok sample_bids"
  by code_simp

lemma sample_sides:
  "leaf_side sample_book BOOK_SIDE_ASK sample_leaf" "leaf_side sample_book BOOK_SIDE_BID sample_bids"
  using sample_bids_eval sample_leaf_facts(1)
  by (auto simp: leaf_side_def sample_book_def BOOK_def nth_opt_def deref_def sample_bids_def sample_leaf_def
      new_btree_def)

lemma sample_val_live [simp]: "0 < c \<Longrightarrow> c < 2 ^ 53 \<Longrightarrow> \<not> btree_val_nil_p (sample_val c)"
  by (simp add: btree_val_nil_p_def sample_val_def dd_eval)

lemma sample_levels:
  "book_levels sample_book BOOK_SIDE_ASK [(dd 100 0, sample_val 5), (dd 101 0, sample_val 7)]"
  "book_levels sample_book BOOK_SIDE_BID [(dd 99 0, sample_val 4)]"
proof -
  have "leaf_levels sample_leaf 0 (bt_n sample_leaf) = [(dd 100 0, sample_val 5), (dd 101 0, sample_val 7)]"
    by (simp add: leaf_levels_def sample_leaf_def new_btree_def vis_def countof_key_def upt_rec numeral_2_eq_2)
  moreover have "leaf_levels sample_bids 0 (bt_n sample_bids) = [(dd 99 0, sample_val 4)]"
    by (simp add: leaf_levels_def sample_bids_def new_btree_def vis_def countof_key_def)
  ultimately show "book_levels sample_book BOOK_SIDE_ASK [(dd 100 0, sample_val 5), (dd 101 0, sample_val 7)]"
    "book_levels sample_book BOOK_SIDE_BID [(dd 99 0, sample_val 4)]"
    using sample_sides [THEN leaf_side_levels] by simp_all
qed

subsection \<open>Reading\<close>

text \<open>
  C20: \<open>book_top\<close> returns the best level of a side, with its quantity and time stamp, or \<open>NOT_A_QUO\<close> for
  an empty side; the book shows the same levels afterwards.
\<close>

theorem book_top_best:
  assumes "book_levels b s xs"
  shows "\<exists>b'. book_top b s = Some (b', case xs of [] \<Rightarrow> NOT_A_QUO
      | (k, v) # _ \<Rightarrow> \<lparr>q_s = s, q_f = BOOK_LVL_1, q_p = k, q_q = val_q v, q_t = val_t v\<rparr>) \<and>
    book_levels b' s xs \<and> same_but s b b'"
  using book_top_quote [OF assms] by (simp add: top_quote_def)

theorem book_top_best_witness:
  "\<exists>b'. book_top sample_book BOOK_SIDE_ASK =
    Some (b', \<lparr>q_s = BOOK_SIDE_ASK, q_f = BOOK_LVL_1, q_p = dd 100 0, q_q = dd 5 0, q_t = 1\<rparr>)"
  using book_top_best [OF sample_levels(1)] by (auto simp: sample_val_def)

text \<open>
  C21: \<open>book_tops\<close> fills the caller's arrays with the first \<open>n\<close> levels of a side, fewer if there are
  fewer, in order, and with the quantities if an array for them is given.
\<close>

theorem book_tops_prefix:
  assumes "book_levels b s xs"
  shows "\<exists>b'. book_tops b s n qp =
      Some (b', map (\<lambda>(k, v). (k, if qp then Some (val_q v) else None)) (take n xs)) \<and>
    book_levels b' s xs \<and> same_but s b b'"
  by (rule book_tops_take [OF assms])

theorem book_tops_prefix_witness:
  "\<exists>b'. book_tops sample_book BOOK_SIDE_ASK 5 True =
    Some (b', [(dd 100 0, Some (dd 5 0)), (dd 101 0, Some (dd 7 0))])"
  using book_tops_prefix [OF sample_levels(1), of 5 True] by (auto simp: sample_val_def)

text \<open>
  C22: \<open>book_ctop\<close> for a positive quantity \<open>q\<close> walks exactly as many levels as it takes to accumulate
  \<open>q\<close>, and returns the average price of the first \<open>q\<close> units, rounded to the quantum of the last level
  it needed; or \<open>NOT_A_QUO\<close> if the whole side does not have that much.
\<close>

theorem book_ctop_consolidates:
  assumes "book_levels b s xs" "0 < q"
  shows "\<exists>b'. book_ctop b s q = Some (b',
      let n = depth (\<lambda>(P, Q). Q < q) xs; (P, Q) = cum (take n xs); (k, v) = xs ! (n - 1)
      in if Q < q then NOT_A_QUO
         else \<lparr>q_s = s, q_f = BOOK_LVL_1,
               q_p = quantized64 ((if Q > q then P - k * (Q - q) else P) div q) k,
               q_q = quantized64 q (val_q v), q_t = val_t v\<rparr>) \<and>
    book_levels b' s xs \<and> same_but s b b'"
  using book_ctop_quote [OF assms] unfolding ctop_quote_def .

theorem book_ctop_consolidates_witness:
  "\<exists>b' r. book_ctop sample_book BOOK_SIDE_ASK (dd 6 0) = Some (b', r) \<and>
     book_levels b' BOOK_SIDE_ASK [(dd 100 0, sample_val 5), (dd 101 0, sample_val 7)]"
proof -
  have "0 < dd 6 0" by (simp add: dd_eval)
  from book_ctop_consolidates [OF sample_levels(1) this] show ?thesis by blast
qed

text \<open>
  C23: The single pass of \<open>book_ctops\<close> is equivalent to consolidating from the top for each of the
  quantities \<open>Q\<close>, \<open>2Q\<close>, \<open>\<dots>\<close>: entry by entry it gives what an independent walk gives, and stops at
  the first quantity the side does not have. (\<open>ascending\<close>: these sums are positive and do not decrease
  under the rounding of the format.)
\<close>

theorem book_ctops_single_pass:
  assumes "book_levels b s xs" "ascending n Q Q"
  shows "\<exists>b'. book_ctops b s Q n qp = Some (b', ctops_list n xs qp Q Q) \<and> book_levels b' s xs \<and>
    same_but s b b'"
  by (rule book_ctops_list [OF assms])

lemma sample_ascending: "ascending 2 (dd 3 0) (dd 3 0)"
  by code_simp

theorem book_ctops_single_pass_witness:
  "\<exists>b'. book_ctops sample_book BOOK_SIDE_ASK (dd 3 0) 2 True =
    Some (b', ctops_list 2 [(dd 100 0, sample_val 5), (dd 101 0, sample_val 7)] True (dd 3 0) (dd 3 0))"
  using book_ctops_single_pass [OF sample_levels(1) sample_ascending] by blast

subsection \<open>Changing\<close>

text \<open>
  C26: For a time \<open>t\<close> that is not zero, \<open>book_exp\<close> expunges exactly the levels whose time stamp is less than or equal to
  \<open>t\<close> on both sides and keeps the others in order. The header \<open>books.h\<close> speaks of quotes older than \<open>t\<close>: levels
  that are exactly as old go, too. For \<open>t = 0\<close> nothing happens, not even to a level with time stamp zero, and
  for \<open>NATV\<close> both sides are cleared.
\<close>

theorem book_exp_expires:
  assumes "book_levels b BOOK_SIDE_ASK xs" "book_levels b BOOK_SIDE_BID ys"
  shows "book_exp b 0 = Some b \<and>
    (\<exists>b'. book_exp b NATV = Some b' \<and> book_levels b' BOOK_SIDE_ASK [] \<and> book_levels b' BOOK_SIDE_BID []) \<and>
    (t \<noteq> 0 \<longrightarrow> (\<exists>b'. book_exp b t = Some b' \<and>
       book_levels b' BOOK_SIDE_ASK (filter (\<lambda>(k, v). t < val_t v) xs) \<and>
       book_levels b' BOOK_SIDE_BID (filter (\<lambda>(k, v). t < val_t v) ys)))"
proof (intro conjI impI)
  have none: "filter (\<lambda>(k, v). NATV < val_t v) zs = []" for zs :: "(px_t \<times> btree_val) list"
    by (auto simp: filter_empty_conv not_less)
  show all: "\<exists>b'. book_exp b NATV = Some b' \<and> book_levels b' BOOK_SIDE_ASK [] \<and> book_levels b' BOOK_SIDE_BID []"
    using book_clr_levels [OF assms] by (simp add: book_exp_def)
  show "\<exists>b'. book_exp b t = Some b' \<and>
       book_levels b' BOOK_SIDE_ASK (filter (\<lambda>(k, v). t < val_t v) xs) \<and>
       book_levels b' BOOK_SIDE_BID (filter (\<lambda>(k, v). t < val_t v) ys)" if "t \<noteq> 0"
    using book_exp_filter [OF assms that] all by (cases "t = NATV") (simp_all only: none, blast)
qed (simp add: book_exp_def)

theorem book_exp_expires_witness:
  "\<exists>b'. book_exp sample_book 1 = Some b' \<and> book_levels b' BOOK_SIDE_ASK [] \<and> book_levels b' BOOK_SIDE_BID []"
  using book_exp_expires [OF sample_levels, of 1] by (auto simp: sample_val_def)

text \<open>
  C25: A \<open>BOOK_SIDE_DEL\<close> quote (a trade) at price \<open>p\<close> for quantity \<open>q\<close> removes every level that is better
  than \<open>p\<close> from both sides, takes \<open>q\<close> off the level at \<open>p\<close>, drops levels that are left without
  quantity, and leaves everything behind \<open>p\<close> alone.
\<close>

theorem book_add_trade:
  assumes "book_levels b BOOK_SIDE_ASK xs" "book_levels b BOOK_SIDE_BID ys" "q_s q = BOOK_SIDE_DEL"
  shows "\<exists>b'. book_add b q = Some (b', q) \<and>
    book_levels b' BOOK_SIDE_ASK
      (rewrite btree_val_nil_p (del_level False (q_p q) (q_q q)) (takeWhile (\<lambda>x. fst x \<le> q_p q) xs) @
       dropWhile (\<lambda>x. fst x \<le> q_p q) xs) \<and>
    book_levels b' BOOK_SIDE_BID
      (rewrite btree_val_nil_p (del_level True (q_p q) (q_q q)) (takeWhile (\<lambda>x. q_p q \<le> fst x) ys) @
       dropWhile (\<lambda>x. q_p q \<le> fst x) ys)"
  by (rule book_add_del [OF assms])

theorem book_add_trade_witness:
  "\<exists>b'. book_add sample_book \<lparr>q_s = BOOK_SIDE_DEL, q_f = 0, q_p = dd 1005 (- 1), q_q = dd 1 0, q_t = 2\<rparr> =
      Some (b', \<lparr>q_s = BOOK_SIDE_DEL, q_f = 0, q_p = dd 1005 (- 1), q_q = dd 1 0, q_t = 2\<rparr>) \<and>
    book_levels b' BOOK_SIDE_ASK [(dd 101 0, sample_val 7)] \<and>
    book_levels b' BOOK_SIDE_BID [(dd 99 0, sample_val 4)]"
  using book_add_trade [OF sample_levels, of "\<lparr>q_s = BOOK_SIDE_DEL, q_f = 0, q_p = dd 1005 (- 1), q_q = dd 1 0, q_t = 2\<rparr>"]
  by (simp add: dd_eval rewrite_def del_level_def kbefore_def btree_val_nil_p_def)

text \<open>
  C24: A level-3 quote for ask or bid at a price that is a number is a change of the quantity at that price, on a
  side that is a single leaf with fewer than 62 slots and without stale marks (\<open>displays\<close>): the level
  afterwards holds the sum, cut off at zero, and disappears if nothing is left; the quote handed back carries the
  quantity and time stamp that were there before, and no other price changes. With a stale mark, which a deletion
  leaves behind until the side is read, another price may vanish: C27.
\<close>

theorem book_add_level3:
  assumes "q_s q = BOOK_SIDE_ASK \<or> q_s q = BOOK_SIDE_BID" "q_f q = BOOK_LVL_3"
    and "displays b (q_s q) nd" "bt_n nd < 62" "\<not> isnand64 (q_p q)"
  shows "\<exists>b' nd'. book_add b q =
      Some (b', q\<lparr>q_q := val_q (old_val nd (q_p q)), q_t := val_t (old_val nd (q_p q))\<rparr>) \<and>
    leaf_side b' (q_s q) nd' \<and>
    (\<forall>k. \<not> isnand64 k \<longrightarrow> look (levels_of nd') k =
       (if deq (q_p q) k
        then (let o' = q_q q + val_q (old_val nd (q_p q))
              in nonnil \<lparr>val_q = if o' \<ge> 0 then o' else 0, val_t = q_t q\<rparr>)
        else look (levels_of nd) k))"
  by (rule book_add_lvl3 [OF assms])

theorem book_add_level3_witness:
  "\<exists>b' nd'. book_add make_book \<lparr>q_s = BOOK_SIDE_BID, q_f = BOOK_LVL_3, q_p = dd 98 0, q_q = dd 2 0, q_t = 3\<rparr> =
      Some (b', \<lparr>q_s = BOOK_SIDE_BID, q_f = BOOK_LVL_3, q_p = dd 98 0, q_q = 0, q_t = 0\<rparr>) \<and>
    leaf_side b' BOOK_SIDE_BID nd'"
proof -
  let ?q = "\<lparr>q_s = BOOK_SIDE_BID, q_f = BOOK_LVL_3, q_p = dd 98 0, q_q = dd 2 0, q_t = 3\<rparr>"
  have n: "bt_n (new_btree True) = 0" and o: "old_val (new_btree True) (dd 98 0) = btree_val_nil"
    using leaf_get_None [OF new_btree_leaf_ok, of True "dd 98 0"] by (auto simp: old_val_def new_btree_def)
  show ?thesis
    using book_add_level3 [of ?q make_book "new_btree True"] make_book_displays [of 2] n o
    by (auto simp: dd_eval btree_val_nil_def)
qed

end
