(* ===== verification/Books_Run.thy ===== *)
theory Books_Run
  imports Books_Contract
begin

text \<open>
  Runs of a book: every operation but the insertion of a level keeps the frame of the trees (their
  shape, keys and links), so that a book stays well formed whatever is done to it, no operation on it
  is undefined, and books reachable by the operations satisfy the invariant. Then books built from level-2
  quotes without deletions, and what one deletion may do to them.
\<close>

subsection \<open>The frame of a tree\<close>

definition strip :: "btree_s \<Rightarrow> btree_s" where
  "strip nd = nd\<lparr>bt_used := 0, bt_val := replicate (length (bt_val nd)) (UV btree_val_nil)\<rparr>"

definition frame :: "heap \<Rightarrow> btree_s option list" where
  "frame h = map (map_option strip) h"

definition book_frame :: "book_t \<Rightarrow> (btree_s option list \<times> btree_t) list" where
  "book_frame b = map (\<lambda>(h, t). (frame h, t)) (quos b)"

lemma strip_used [simp]: "strip (nd\<lparr>bt_used := u\<rparr>) = strip nd"
  by (simp add: strip_def)

lemma strip_val [simp]: "strip (nd\<lparr>bt_val := (bt_val nd)[i := x]\<rparr>) = strip nd"
  by (simp add: strip_def)

lemma frame_store: "deref h a = Some nd \<Longrightarrow> strip nd' = strip nd \<Longrightarrow> frame (store h a nd') = frame h"
  by (auto simp: frame_def store_def deref_def map_update list_update_same_conv split: if_splits)

lemma iter_scan_strip: "strip (fst (iter_scan nd u sh i)) = strip nd"
proof (induction nd u sh i rule: iter_scan.induct)
  case (1 nd u sh i)
  then show ?case by (subst iter_scan.simps) (auto simp: Let_def)
qed

lemma iter_leaves_frame:
  assumes "iter_leaves h t i = Some y"
  shows "frame (fst y) = frame h"
proof (rule iter_leaves.raw_induct [of "\<lambda>h t i y. frame (fst y) = frame h", OF _ assms], goal_cases)
  case (1 F h t i y)
  then obtain nd where nd: "deref h t = Some nd" by (auto simp: bind_eq_Some_conv)
  obtain nd' r where sc: "iter_scan nd (drop_bit i (bt_used nd)) (ctzll (drop_bit i (bt_used nd)))
        (i + ctzll (drop_bit i (bt_used nd))) = (nd', r)"
    by fastforce
  then have "strip nd' = strip nd" by (metis iter_scan_strip fst_conv)
  then have "frame (store h t nd') = frame h" using nd frame_store by blast
  then show ?case using 1 nd sc by (auto simp: Let_def split: option.splits)
qed

lemma iter_next_frame: "btree_iter_next h it = Some y \<Longrightarrow> frame (fst y) = frame h"
  by (auto simp: btree_iter_next_def bind_eq_Some_conv split: option.splits dest!: iter_leaves_frame)

lemma store_val_frame: "store_val h p v = Some h' \<Longrightarrow> frame h' = frame h"
  by (auto simp: store_val_def bind_eq_Some_conv intro: frame_store)

lemma iter_loop_frame:
  assumes "iter_loop P C f h it s = Some y"
  shows "frame (fst y) = frame h"
proof -
  have "(\<lambda>(((((P, C), f), h), it), s) y. frame (fst y) = frame h) (((((P, C), f), h), it), s) y"
  proof (rule iter_loop.raw_induct [OF _ assms], goal_cases)
    case (1 F P C f h it s y)
    show ?case
    proof (cases "P s")
      case True
      then obtain h1 it1 b where n: "btree_iter_next h it = Some (h1, it1, b)"
        using 1(2) by (auto simp: bind_eq_Some_conv)
      then have "frame h1 = frame h" using iter_next_frame by fastforce
      then show ?thesis using 1(2) True n by (auto simp: bind_eq_Some_conv split: if_splits dest!: 1(1))
    qed (use 1(2) in auto)
  qed
  then show ?thesis by simp
qed

lemma iter_update_frame:
  assumes "iter_update C f h it = Some h'"
  shows "frame h' = frame h"
proof (rule iter_update.raw_induct [of "\<lambda>C f h it h'. frame h' = frame h", OF _ assms], goal_cases)
  case (1 F C f h it h')
  then obtain h1 it1 b where n: "btree_iter_next h it = Some (h1, it1, b)"
    by (auto simp: bind_eq_Some_conv)
  then have "frame h1 = frame h" using iter_next_frame by fastforce
  then show ?case
    using 1 n by (auto simp: bind_eq_Some_conv iter_write_def split: if_splits dest!: store_val_frame)
qed

lemma clr_leaves_frame:
  assumes "clr_leaves h t = Some h'"
  shows "frame h' = frame h"
proof (rule clr_leaves.raw_induct [of "\<lambda>h t h'. frame h' = frame h", OF _ assms], goal_cases)
  case (1 F h t h')
  then obtain nd where nd: "deref h t = Some nd" by (auto simp: bind_eq_Some_conv)
  have "strip (clr_vals nd) = strip nd" by (simp add: strip_def clr_vals_def fold_update_nth)
  then have "frame (store h t (clr_vals nd)) = frame h" using nd frame_store by blast
  then show ?case using 1 nd by (auto simp: Let_def split: option.splits)
qed

subsection \<open>The frame of a book\<close>

lemma book_frame_set:
  "BOOK b s = Some (h, t) \<Longrightarrow> frame h' = frame h \<Longrightarrow> book_frame (set_side b s h') = book_frame b"
  by (cases "quos b ! (s - 1)")
    (auto simp: book_frame_def set_side_def BOOK_def nth_opt_def map_update list_update_same_conv split: if_splits)

lemma clr_side_frame: "clr_side b s = Some b' \<Longrightarrow> book_frame b' = book_frame b"
  by (auto simp: clr_side_def btree_clr_def bind_eq_Some_conv dest!: clr_leaves_frame intro: book_frame_set)

lemma update_side_frame: "update_side b s C f = Some b' \<Longrightarrow> book_frame b' = book_frame b"
  by (auto simp: update_side_def bind_eq_Some_conv dest!: iter_update_frame intro: book_frame_set)

lemma book_clr_frame: "book_clr b = Some b' \<Longrightarrow> book_frame b' = book_frame b"
  by (auto simp: book_clr_def bind_eq_Some_conv dest!: clr_side_frame)

lemma book_exp_frame: "book_exp b t = Some b' \<Longrightarrow> book_frame b' = book_frame b"
  by (auto simp: book_exp_def bind_eq_Some_conv split: if_splits dest!: update_side_frame book_clr_frame)

lemma book_top_frame: "book_top b s = Some (b', q) \<Longrightarrow> book_frame b' = book_frame b"
  by (auto simp: book_top_def bind_eq_Some_conv Let_def split: if_splits dest!: iter_next_frame
      intro: book_frame_set)

lemma book_tops_frame: "book_tops b s n qp = Some (b', r) \<Longrightarrow> book_frame b' = book_frame b"
  by (auto simp: book_tops_def bind_eq_Some_conv dest!: iter_loop_frame intro: book_frame_set)

lemma book_pdo_frame: "book_pdo b s q lmt = Some (b', r) \<Longrightarrow> book_frame b' = book_frame b"
  by (auto simp: book_pdo_def bind_eq_Some_conv Let_def dest!: iter_loop_frame intro: book_frame_set)

lemma book_ctop_frame: "book_ctop b s q = Some (b', r) \<Longrightarrow> book_frame b' = book_frame b"
  by (auto simp: book_ctop_def bind_eq_Some_conv Let_def split: if_splits dest!: iter_loop_frame
      intro: book_frame_set)

lemma book_vtop_frame: "book_vtop b s q = Some (b', r) \<Longrightarrow> book_frame b' = book_frame b"
  by (auto simp: book_vtop_def bind_eq_Some_conv Let_def split: if_splits dest!: iter_loop_frame
      intro: book_frame_set)

lemma ctops_loop_frame: "ctops_loop m qp h i cC R Q acc = Some y \<Longrightarrow> frame (fst y) = frame h"
proof (induction m arbitrary: qp h i cC R acc)
  case (Suc m)
  then obtain h1 i1 c C where l: "iter_loop (\<lambda>(c, C). C < R) (\<lambda>_. True) consol h i cC = Some (h1, i1, c, C)"
    by (auto simp: bind_eq_Some_conv)
  then have "frame h1 = frame h" using iter_loop_frame by fastforce
  then show ?case
    using Suc.prems l by (simp add: Let_def split: if_splits bind_splits) (auto dest: Suc.IH)
qed auto

lemma vtops_loop_frame: "vtops_loop m qp h i cC r v acc = Some y \<Longrightarrow> frame (fst y) = frame h"
proof (induction m arbitrary: qp h i cC r acc)
  case (Suc m)
  then obtain h1 i1 c C where l: "iter_loop (\<lambda>(c, C). c < r) (\<lambda>_. True) consol h i cC = Some (h1, i1, c, C)"
    by (auto simp: bind_eq_Some_conv)
  then have "frame h1 = frame h" using iter_loop_frame by fastforce
  then show ?case
    using Suc.prems l by (simp add: Let_def split: if_splits bind_splits) (auto dest: Suc.IH)
qed auto

lemma book_ctops_frame: "book_ctops b s Q n qp = Some (b', r) \<Longrightarrow> book_frame b' = book_frame b"
  by (auto simp: book_ctops_def bind_eq_Some_conv dest!: ctops_loop_frame intro: book_frame_set)

lemma book_vtops_frame: "book_vtops b s v n qp = Some (b', r) \<Longrightarrow> book_frame b' = book_frame b"
  by (auto simp: book_vtops_def bind_eq_Some_conv dest!: vtops_loop_frame intro: book_frame_set)

lemmas book_frames = book_clr_frame book_exp_frame book_top_frame book_tops_frame book_pdo_frame
  book_ctop_frame book_vtop_frame book_ctops_frame book_vtops_frame

subsection \<open>Books whose sides are single leaves\<close>

definition leaf_book :: "nat \<Rightarrow> book_t \<Rightarrow> bool" where
  "leaf_book n b \<longleftrightarrow> (\<forall>s \<in> {BOOK_SIDE_ASK, BOOK_SIDE_BID}. \<exists>nd. leaf_side b s nd \<and> bt_n nd \<le> n)"

lemma leaf_ok_strip: "leaf_ok (strip nd) = leaf_ok nd"
  by (simp add: leaf_ok_def strip_def)

text \<open>Whether a side is a leaf can be read off its frame.\<close>

lemma leaf_side_frame:
  assumes "leaf_side b s nd" "book_frame b' = book_frame b"
  obtains nd' where "leaf_side b' s nd'" "bt_n nd' = bt_n nd"
proof -
  obtain h t where ht: "BOOK b s = Some (h, t)" "deref h t = Some nd" and nd: "leaf_ok nd" "bt_next nd = None"
    "\<not> bt_splitp nd" using assms(1) by (auto simp: leaf_side_def)
  have s: "s \<noteq> 0" "s - 1 < length (quos b)" "quos b ! (s - 1) = (h, t)"
    using ht(1) by (auto simp: BOOK_def nth_opt_def split: if_splits)
  have len: "length (quos b') = length (quos b)"
    using assms(2) by (metis book_frame_def length_map)
  obtain h' t' where ht': "quos b' ! (s - 1) = (h', t')" by fastforce
  have "map (\<lambda>(h, t). (frame h, t)) (quos b') ! (s - 1) = map (\<lambda>(h, t). (frame h, t)) (quos b) ! (s - 1)"
    using assms(2) by (simp add: book_frame_def)
  then have f: "frame h' = frame h" "t' = t" using s ht' len by auto
  then have "length h' = length h" by (metis frame_def length_map)
  moreover have "map_option strip (h' ! t) = map_option strip (h ! t)"
    using f(1) calculation deref_Some_lt [OF ht(2)] unfolding frame_def by (metis nth_map)
  ultimately obtain nd' where nd': "deref h' t = Some nd'" "strip nd' = strip nd"
    using ht(2) by (auto simp: deref_def split: if_splits)
  have "bt_n (strip nd') = bt_n (strip nd)" "bt_next (strip nd') = bt_next (strip nd)"
    "bt_splitp (strip nd') = bt_splitp (strip nd)" "leaf_ok (strip nd') = leaf_ok (strip nd)"
    using nd'(2) by simp_all
  then have "leaf_ok nd'" "bt_next nd' = None" "\<not> bt_splitp nd'" "bt_n nd' = bt_n nd"
    using nd by (simp_all add: leaf_ok_strip) (simp_all add: strip_def)
  moreover have "BOOK b' s = Some (h', t)" using s ht' len f(2) by (simp add: BOOK_def nth_opt_def)
  ultimately show thesis using nd'(1) by (intro that [of nd']) (auto simp: leaf_side_def)
qed

lemma leaf_book_frame: "leaf_book n b \<Longrightarrow> book_frame b' = book_frame b \<Longrightarrow> leaf_book n b'"
  unfolding leaf_book_def by (metis leaf_side_frame)

lemma leaf_book_levels:
  assumes "leaf_book n b" "s = BOOK_SIDE_ASK \<or> s = BOOK_SIDE_BID"
  obtains xs where "book_levels b s xs"
  using assms leaf_side_levels by (auto simp: leaf_book_def)

lemma leaf_book_mono: "leaf_book n b \<Longrightarrow> n \<le> m \<Longrightarrow> leaf_book m b"
  unfolding leaf_book_def by (meson le_trans)

lemma make_book_leaf_book: "leaf_book 0 make_book"
proof -
  have "\<exists>nd. leaf_side make_book s nd \<and> bt_n nd \<le> 0" if "s \<in> {BOOK_SIDE_ASK, BOOK_SIDE_BID}" for s
    using make_book_displays [of s] that
    by (intro exI [of _ "new_btree (s = 2)"]) (auto simp: displays_def new_btree_def)
  then show ?thesis by (simp add: leaf_book_def)
qed

subsection \<open>No quote gets stuck\<close>

text \<open>A quote is sane unless it writes a level at a price that is not a number.\<close>

definition sane :: "book_quo_t \<Rightarrow> bool" where
  "sane q \<longleftrightarrow>
     (q_s q \<in> {BOOK_SIDE_ASK, BOOK_SIDE_BID} \<and> q_f q \<in> {BOOK_LVL_2, BOOK_LVL_3} \<longrightarrow> \<not> isnand64 (q_p q))"

lemma leaf_book_other:
  assumes "leaf_book n b" "same_but s b b'" "leaf_side b' s nd" "bt_n nd \<le> m" "n \<le> m"
  shows "leaf_book m b'"
proof -
  have "\<exists>nd. leaf_side b' s' nd \<and> bt_n nd \<le> m" if "s' \<in> {BOOK_SIDE_ASK, BOOK_SIDE_BID}" for s'
  proof (cases "s' = s")
    case False
    then have "leaf_side b' s' nd = leaf_side b s' nd" for nd
      using assms(2) by (simp add: leaf_side_def same_but_def)
    then show ?thesis using assms(1,5) that le_trans unfolding leaf_book_def by blast
  qed (use assms(3,4) in blast)
  then show ?thesis by (simp add: leaf_book_def)
qed

lemma swap_level_leaf_book:
  assumes "leaf_book n b" "n < 62" "q_s q = BOOK_SIDE_ASK \<or> q_s q = BOOK_SIDE_BID" "\<not> isnand64 (q_p q)"
  shows "\<exists>b' q'. swap_level b q f = Some (b', q') \<and> leaf_book (Suc n) b'"
proof -
  obtain nd where nd: "leaf_side b (q_s q) nd" "bt_n nd \<le> n" using assms(1,3) by (auto simp: leaf_book_def)
  then have room: "leaf_room nd (q_p q)" and ok: "leaf_ok nd"
    using assms(2) by (auto simp: leaf_room_def leaf_side_def)
  define nd' where "nd' = leaf_put nd (q_p q) (f (old_val nd (q_p q)))"
  have sh: "bt_next nd' = None" "bt_n nd' \<le> Suc n" "leaf_ok nd'"
    using leaf_put_shape(2,3) [OF ok room] leaf_put_leaf_ok [OF ok room assms(4)] nd
    by (auto simp: nd'_def leaf_side_def ins_n_def)
  obtain b' q' h t where b': "swap_level b q f = Some (b', q')" "same_but (q_s q) b b'"
    "BOOK b' (q_s q) = Some (h, t)" "deref h t = Some (nd'\<lparr>bt_splitp := bt_n nd' \<ge> 63\<rparr>)"
    using swap_level_leaf [OF nd(1) room assms(4), of f] unfolding nd'_def by blast
  have "leaf_side b' (q_s q) (nd'\<lparr>bt_splitp := bt_n nd' \<ge> 63\<rparr>)"
    using b'(3,4) sh assms(2) by (auto simp: leaf_side_def)
  then have "leaf_book (Suc n) b'" using leaf_book_other [OF assms(1) b'(2)] sh(2) by simp
  then show ?thesis using b'(1) by blast
qed

lemma clr_side_leaf_book:
  assumes "leaf_book n b" "s = BOOK_SIDE_ASK \<or> s = BOOK_SIDE_BID"
  shows "\<exists>b'. clr_side b s = Some b' \<and> leaf_book n b'"
proof -
  obtain xs where "book_levels b s xs" using leaf_book_levels [OF assms] .
  then obtain b' where "clr_side b s = Some b'" using clr_side_levels by blast
  then show ?thesis using leaf_book_frame [OF assms(1)] clr_side_frame by blast
qed

lemma update_side_leaf_book:
  assumes "leaf_book n b" "s = BOOK_SIDE_ASK \<or> s = BOOK_SIDE_BID"
  shows "\<exists>b'. update_side b s C f = Some b' \<and> leaf_book n b'"
proof -
  obtain xs where "book_levels b s xs" using leaf_book_levels [OF assms] .
  then obtain b' where "update_side b s C f = Some b'" using update_side_levels by blast
  then show ?thesis using leaf_book_frame [OF assms(1)] update_side_frame by blast
qed

lemma book_clr_leaf_book: "leaf_book n b \<Longrightarrow> \<exists>b'. book_clr b = Some b' \<and> leaf_book n b'"
  using clr_side_leaf_book [of n _ 2] clr_side_leaf_book [of n _ 1] by (fastforce simp: book_clr_def)

lemma book_add_leaf_book:
  assumes b: "leaf_book n b" "n < 62" and q: "sane q"
  shows "\<exists>b' q'. book_add b q = Some (b', q') \<and> leaf_book (Suc n) b'"
proof -
  note more = leaf_book_mono [OF _ le_SucI [OF order_refl]]
  consider (swap) "q_s q = BOOK_SIDE_ASK \<or> q_s q = BOOK_SIDE_BID" "q_f q = BOOK_LVL_2 \<or> q_f q = BOOK_LVL_3"
    | (top) "q_s q = BOOK_SIDE_ASK \<or> q_s q = BOOK_SIDE_BID" "q_f q = BOOK_LVL_1" "\<not> q_q q < 0"
    | (refuse) "book_add b q = Some (b, NOT_A_QUO)"
    | (clr) "q_s q = BOOK_SIDE_CLR"
    | (del) "q_s q = BOOK_SIDE_DEL"
    using book_add_refused [of q b] by blast
  then show ?thesis
  proof cases
    case swap
    then obtain f where "book_add b q = swap_level b q f" by (auto simp: book_add_def)
    moreover have "\<not> isnand64 (q_p q)" using swap q by (auto simp: sane_def)
    ultimately show ?thesis using swap_level_leaf_book [OF b swap(1)] by simp
  next
    case top
    obtain b1 where b1: "clr_side b (q_s q) = Some b1" "leaf_book n b1"
      using clr_side_leaf_book [OF b(1) top(1)] by blast
    show ?thesis
    proof (cases "isnand64 (q_p q)")
      case False
      then show ?thesis
        using swap_level_leaf_book [OF b1(2) b(2) top(1) False] top b1 by (auto simp: book_add_def)
    qed (use top b1 more in \<open>auto simp: book_add_def\<close>)
  next
    case clr
    then show ?thesis using book_clr_leaf_book [OF b(1)] more by (auto simp: book_add_def)
  next
    case del
    obtain b1 where b1: "update_side b BOOK_SIDE_ASK (\<lambda>k. k \<le> q_p q)
        (\<lambda>k v. v\<lparr>val_q := if k < q_p q then 0 else val_q v - q_q q\<rparr>) = Some b1" "leaf_book n b1"
      using update_side_leaf_book [OF b(1)] by blast
    obtain b2 where "update_side b1 BOOK_SIDE_BID (\<lambda>k. k \<ge> q_p q)
        (\<lambda>k v. v\<lparr>val_q := if k > q_p q then 0 else val_q v - q_q q\<rparr>) = Some b2" "leaf_book n b2"
      using update_side_leaf_book [OF b1(2)] by blast
    then show ?thesis using b1 del more by (auto simp: book_add_def)
  qed (use more b in blast)
qed

subsection \<open>Reachable books\<close>

text \<open>
  The books that the operations lead to, with the number of quotes added so far. Reading counts as
  an operation because it may take stale marks off.
\<close>

inductive reach :: "nat \<Rightarrow> book_t \<Rightarrow> bool" where
  start: "reach 0 make_book"
| add: "reach n b \<Longrightarrow> sane q \<Longrightarrow> book_add b q = Some (b', q') \<Longrightarrow> reach (Suc n) b'"
| clr: "reach n b \<Longrightarrow> book_clr b = Some b' \<Longrightarrow> reach n b'"
| exp: "reach n b \<Longrightarrow> book_exp b t = Some b' \<Longrightarrow> reach n b'"
| top: "reach n b \<Longrightarrow> book_top b s = Some (b', q) \<Longrightarrow> reach n b'"
| tops: "reach n b \<Longrightarrow> book_tops b s m qp = Some (b', r) \<Longrightarrow> reach n b'"
| ctop: "reach n b \<Longrightarrow> book_ctop b s x = Some (b', q) \<Longrightarrow> reach n b'"
| vtop: "reach n b \<Longrightarrow> book_vtop b s x = Some (b', q) \<Longrightarrow> reach n b'"
| ctops: "reach n b \<Longrightarrow> book_ctops b s x m qp = Some (b', r) \<Longrightarrow> reach n b'"
| vtops: "reach n b \<Longrightarrow> book_vtops b s x m qp = Some (b', r) \<Longrightarrow> reach n b'"
| pdo: "reach n b \<Longrightarrow> book_pdo b s x l = Some (b', d) \<Longrightarrow> reach n b'"

lemma reach_leaf_book: "reach n b \<Longrightarrow> n \<le> 62 \<Longrightarrow> leaf_book n b"
proof (induction rule: reach.induct)
  case (add n b q b' q')
  then show ?case using book_add_leaf_book [of n b q] by auto
qed (use make_book_leaf_book leaf_book_frame book_frames in metis)+

text \<open>
  C3: Whatever the operations did to a book before, as long as at most 62 quotes went into it and all of them were
  \<open>sane\<close>, both of its sides are well-formed leaves: strictly ordered prices, intact arrays, at most as many slots
  as quotes. Sane is every quote of any side, level and quantity, except a level-2 or level-3 quote for a side whose
  price is not a number; \<open>book_add\<close> does not refuse such a quote, and it breaks the order of the leaf.
\<close>

theorem reachable_well_formed:
  assumes "reach n b" "n \<le> 62" "s = BOOK_SIDE_ASK \<or> s = BOOK_SIDE_BID"
  shows "\<exists>h t nd. BOOK b s = Some (h, t) \<and> deref h t = Some nd \<and> leaf_ok nd \<and> bt_n nd \<le> n"
  using reach_leaf_book [OF assms(1,2)] assms(3) by (auto simp: leaf_book_def leaf_side_def)

theorem reachable_well_formed_witness:
  "\<exists>h t nd. BOOK make_book BOOK_SIDE_ASK = Some (h, t) \<and> deref h t = Some nd \<and> leaf_ok nd \<and> bt_n nd \<le> 0"
  by (rule reachable_well_formed [OF reach.start]) simp_all

text \<open>
  C4: No operation on such a book is undefined or fails to end, as long as fewer than 62 quotes, all sane, went into
  it: every further sane quote is taken (or refused with \<open>NOT_A_QUO\<close>), and clearing, expiring and, for the ask and
  the bid side, reading the top, the top levels and the overview succeed. Consolidation for a quantity or a value succeeds
  if that is positive, and a list of consolidations if the quantities asked for stay positive and do not decrease
  as they are added up (\<open>ascending\<close>); for a quantity that is not positive the code dereferences a null pointer, and the
  model is undefined.
\<close>

theorem reachable_no_stuck:
  assumes "reach n b" "n < 62" "sane q" "s = BOOK_SIDE_ASK \<or> s = BOOK_SIDE_BID"
  shows "book_add b q \<noteq> None \<and> book_clr b \<noteq> None \<and> book_exp b t \<noteq> None \<and> book_top b s \<noteq> None \<and>
    book_tops b s m qp \<noteq> None \<and> book_pdo b s x l \<noteq> None \<and>
    (0 < x \<longrightarrow> book_ctop b s x \<noteq> None \<and> book_vtop b s x \<noteq> None) \<and>
    (ascending m x x \<longrightarrow> book_ctops b s x m qp \<noteq> None \<and> book_vtops b s x m qp \<noteq> None)"
proof -
  have b: "leaf_book n b" using reach_leaf_book [OF assms(1)] assms(2) by simp
  obtain xs where l: "book_levels b s xs" using leaf_book_levels [OF b assms(4)] .
  have "book_exp b t \<noteq> None"
  proof -
    obtain ys zs where "book_levels b BOOK_SIDE_ASK ys" "book_levels b BOOK_SIDE_BID zs"
      using leaf_book_levels [OF b] by metis
    then show ?thesis
      using book_exp_filter [of b ys zs t] book_clr_leaf_book [OF b] by (auto simp: book_exp_def)
  qed
  moreover have "book_ctops b s x m qp \<noteq> None \<and> book_vtops b s x m qp \<noteq> None" if "ascending m x x"
    using book_ctops_list [OF l that, of qp] book_vtops_list [OF l that, of qp] by auto
  ultimately show ?thesis
    using book_add_leaf_book [OF b assms(2,3)] book_clr_leaf_book [OF b] book_top_quote [OF l]
      book_tops_take [OF l, of m qp] book_pdo_walk [OF l, of x l] book_ctop_quote [OF l, of x]
      book_vtop_quote [OF l, of x]
    by fastforce
qed

theorem reachable_no_stuck_witness:
  "book_add make_book NOT_A_QUO \<noteq> None \<and> book_clr make_book \<noteq> None \<and> book_exp make_book 7 \<noteq> None"
  using reachable_no_stuck [OF reach.start, of NOT_A_QUO 1 7] by (simp add: sane_def NOT_A_QUO_def)

subsection \<open>Books built from level-2 quotes\<close>

lemma levels_of_keys:
  assumes "leaf_ok nd" "x \<in> set (levels_of nd)"
  shows "\<not> isnand64 (fst x)"
  using assms leaf_okD(4,6) [OF assms(1)] by (auto simp: leaf_levels_def)

lemma level2_levels:
  assumes "s = BOOK_SIDE_ASK \<or> s = BOOK_SIDE_BID" "length qs \<le> 62" "\<forall>q \<in> set qs. lvl2_quote s q"
  shows "\<exists>b xs. book_adds make_book qs = Some b \<and> book_levels b s xs \<and>
    sorted_wrt (\<lambda>x y. kbefore (s = BOOK_SIDE_BID) (fst x) (fst y)) xs \<and>
    (\<forall>x \<in> set xs. \<not> isnand64 (fst x)) \<and> (\<forall>k. \<not> isnand64 k \<longrightarrow> look xs k = last_quote qs k)"
proof -
  let ?nd = "new_btree (s = BOOK_SIDE_BID)"
  have n: "bt_n ?nd = 0" "levels_of ?nd = []" by (simp_all add: new_btree_def)
  obtain b nd where b: "book_adds make_book qs = Some b" "displays b s nd"
    "\<And>k. \<not> isnand64 k \<Longrightarrow> look (levels_of nd) k =
       (case last_quote qs k of None \<Rightarrow> look (levels_of ?nd) k | Some v \<Rightarrow> Some v)"
    using book_adds_lvl2 [OF assms(1) make_book_displays [OF assms(1)] _ assms(3)] assms(2) n(1) by auto
  then have nd: "leaf_ok nd" "leaf_side b s nd" "bt_descp nd = (s = BOOK_SIDE_BID)"
    by (auto simp: displays_def leaf_side_def)
  have "look (levels_of nd) k = last_quote qs k" if "\<not> isnand64 k" for k
    using b(3) [OF that] by (simp add: n(2) look_def split: option.splits)
  then show ?thesis
    using b(1) leaf_side_levels [OF nd(2)] leaf_levels_sorted [OF nd(1)] nd(3) levels_of_keys [OF nd(1)]
    by (intro exI [of _ b] exI [of _ "levels_of nd"]) simp
qed

text \<open>
  C1: A book refines the map from prices to the last quote. After up to 62 level-2 quotes for one side, each with
  a positive quantity and a price that is a number (\<open>lvl2_quote\<close>), from an empty book, that side shows a strictly sorted list of levels
  (asks ascending, bids descending) in which every price has exactly the quantity and time
  stamp of the last quote for it, and prices without a quote have no level.
  Deletions, which are quotes with a quantity that is not positive, are excluded: C27 says what they may do.
\<close>

theorem level2_refines_map:
  assumes "s = BOOK_SIDE_ASK \<or> s = BOOK_SIDE_BID" "length qs \<le> 62" "\<forall>q \<in> set qs. lvl2_quote s q"
  shows "\<exists>b xs. book_adds make_book qs = Some b \<and> book_levels b s xs \<and>
    sorted_wrt (\<lambda>x y. kbefore (s = BOOK_SIDE_BID) (fst x) (fst y)) xs \<and>
    (\<forall>k. \<not> isnand64 k \<longrightarrow> look xs k = last_quote qs k)"
  using level2_levels [OF assms] by blast

definition sample_quotes :: "book_quo_t list" where
  "sample_quotes = map (\<lambda>(p, q, t). \<lparr>q_s = BOOK_SIDE_ASK, q_f = BOOK_LVL_2, q_p = dd p 0, q_q = dd q 0, q_t = t\<rparr>)
     [(101, 7, 1), (100, 5, 2), (101, 3, 3)]"

lemma sample_quotes_lvl2: "\<forall>q \<in> set sample_quotes. lvl2_quote BOOK_SIDE_ASK q" "length sample_quotes \<le> 62"
  "sample_quotes \<noteq> []"
  by (simp_all add: sample_quotes_def lvl2_quote_def dd_eval)

theorem level2_refines_map_witness:
  "\<exists>b xs. book_adds make_book sample_quotes = Some b \<and> book_levels b BOOK_SIDE_ASK xs \<and>
    look xs (dd 101 0) = Some \<lparr>val_q = dd 3 0, val_t = 3\<rparr>"
proof -
  have "last_quote sample_quotes (dd 101 0) = Some \<lparr>val_q = dd 3 0, val_t = 3\<rparr>" "\<not> isnand64 (dd 101 0)"
    by (simp_all add: last_quote_def sample_quotes_def dd_eval quote_val_def)
  then show ?thesis
    using level2_refines_map [OF disjI1 [OF refl] sample_quotes_lvl2(2,1)] by metis
qed

lemma last_quote_mem:
  assumes "q \<in> set qs" "\<not> isnand64 (q_p q)"
  shows "\<exists>v. last_quote qs (q_p q) = Some v"
  using assms by (auto simp: last_quote_def find_None_iff) (metis assms deq_refl find_None_iff not_Some_eq set_rev)

lemma look_mem: "look xs k = Some v \<Longrightarrow> \<exists>k'. (k', v) \<in> set xs \<and> deq k k'"
  by (auto simp: look_def find_Some_iff) (metis nth_mem)

text \<open>
  C2: The top of a book is the best of its quotes. After at least one and up to 62 level-2 quotes for one side, each with
  a positive quantity and a price that is a number (\<open>lvl2_quote\<close>, so no deletions: after those a better level may be
  hidden, C27), from an empty book, \<open>book_top\<close> returns a quote whose price no quote betters, with the quantity and
  time stamp of the last quote for that price.
\<close>

theorem level2_top_is_best:
  assumes s: "s = BOOK_SIDE_ASK \<or> s = BOOK_SIDE_BID" and "length qs \<le> 62" "\<forall>q \<in> set qs. lvl2_quote s q"
    and ne: "qs \<noteq> []"
  shows "\<exists>b b' q. book_adds make_book qs = Some b \<and> book_top b s = Some (b', q) \<and>
    last_quote qs (q_p q) = Some \<lparr>val_q = q_q q, val_t = q_t q\<rparr> \<and>
    (\<forall>q' \<in> set qs. \<not> kbefore (s = BOOK_SIDE_BID) (q_p q') (q_p q))"
proof -
  obtain b xs where b: "book_adds make_book qs = Some b" "book_levels b s xs"
    and srt: "sorted_wrt (\<lambda>x y. kbefore (s = BOOK_SIDE_BID) (fst x) (fst y)) xs"
    and num: "\<forall>x \<in> set xs. \<not> isnand64 (fst x)" and look: "\<And>k. \<not> isnand64 k \<Longrightarrow> look xs k = last_quote qs k"
    using level2_levels [OF assms(1-3)] by blast
  have mem: "\<exists>k' v. (k', v) \<in> set xs \<and> deq (q_p q') k'" if q': "q' \<in> set qs" for q'
  proof -
    have p: "\<not> isnand64 (q_p q')" using q' assms(3) by (auto simp: lvl2_quote_def)
    obtain v where "last_quote qs (q_p q') = Some v" using last_quote_mem [OF q' p] by blast
    then show ?thesis using look_mem look [OF p] by metis
  qed
  have "xs \<noteq> []" using mem [OF hd_in_set [OF ne]] by auto
  then obtain k v ys where xs: "xs = (k, v) # ys" by (cases xs) auto
  have k: "\<not> isnand64 k" using num xs by simp
  then have "last_quote qs k = Some v" using look [OF k] by (simp add: xs look_def)
  moreover have "\<not> kbefore (s = BOOK_SIDE_BID) (q_p q') k" if q': "q' \<in> set qs" for q'
  proof
    assume lt: "kbefore (s = BOOK_SIDE_BID) (q_p q') k"
    obtain k' v' where k': "(k', v') \<in> set xs" "deq (q_p q') k'" using mem [OF q'] by blast
    then have "k' = k \<or> kbefore (s = BOOK_SIDE_BID) k k'" using srt by (auto simp: xs)
    moreover have "kbefore (s = BOOK_SIDE_BID) k' k" using px.eq_lt [OF px.eq_sym [OF k'(2)] lt] .
    ultimately show False using px.irrefl px.trans by blast
  qed
  ultimately show ?thesis
    using b book_top_quote [OF b(2)] by (fastforce simp: xs top_quote_def)
qed

theorem level2_top_is_best_witness:
  "\<exists>b b' q. book_adds make_book sample_quotes = Some b \<and> book_top b BOOK_SIDE_ASK = Some (b', q) \<and>
    (\<forall>q' \<in> set sample_quotes. \<not> kbefore False (q_p q') (q_p q))"
  using level2_top_is_best [OF disjI1 [OF refl] sample_quotes_lvl2(2,1,3)] by auto

subsection \<open>A level that vanishes\<close>

text \<open>A leaf in which nothing was deleted: all its slots have a quantity.\<close>

definition full :: "btree_s \<Rightarrow> bool" where
  "full nd \<longleftrightarrow> marks_ok nd \<and> (\<forall>j < bt_n nd. live nd j)"

lemma full_levels:
  assumes "full nd"
  shows "levels_of nd = map (\<lambda>j. (bt_key nd ! j, leaf_val nd j)) [0..<bt_n nd]"
  using assms by (simp add: leaf_levels_def full_def marks_ok_def vis_def filter_id_conv)

lemma leaf_put_full:
  assumes ok: "leaf_ok nd" and room: "leaf_room nd k" and full: "full nd" and v: "\<not> btree_val_nil_p v"
  shows "full (leaf_put nd k v)"
proof (cases "leaf_get nd k")
  case (Some i)
  then have i: "i < bt_n nd" "key_index nd k = i" "deq k (bt_key nd ! i)"
    using leaf_get_Some [OF ok] key_index_eq [OF ok] by blast+
  then have "leaf_put nd k v = nd\<lparr>bt_used := bt_used nd OR bit1 i, bt_val := (bt_val nd)[i := UV v]\<rparr>"
    using leaf_add_found [of k nd] by (simp add: leaf_put_def)
  then show ?thesis
    using i(1) full v leaf_okD(3,4) [OF ok] by (auto simp: full_def marks_ok_def nth_list_update bit_or_iff)
next
  case None
  let ?i = "key_index nd k" and ?m = "nul_index nd"
  note b = ins_bounds [OF ok room None] and p = leaf_put_marks_new [OF ok room None]
  obtain nd' s sp where add: "leaf_add nd k = (nd', s, sp)" by (rule prod_cases3)
  have s: "s = ins_slot ?i ?m" using add leaf_add_new [of k nd] None leaf_get_index [of nd k] by auto
  have m: "?m = bt_n nd" using full b(2) nul_index_nil [of nd] by (force simp: full_def)
  have "marks_ok (leaf_put nd k v)"
    using leaf_put_marks_ok [OF ok room] full m b(5) by (simp add: full_def marks_ok_def)
  moreover have "live (leaf_put nd k v) j" if "j < ins_n nd" for j
  proof (cases "j = ins_slot ?i ?m")
    case False
    then have "ins_src ?i ?m j < bt_n nd"
      using that ins_src_less [of ?i "bt_n nd" ?m j] b(1,2) by (simp add: ins_n_def)
    then show ?thesis using p(3) [OF that False, of v] full by (simp add: full_def)
  next
    case True
    then show ?thesis
      using v s add leaf_add_shape(5) [OF ok room add] that b(3) by (simp add: leaf_put_def)
  qed
  ultimately show ?thesis by (simp add: full_def p(2))
qed

lemma leaf_put_splitp: "bt_splitp (leaf_put nd k v) = bt_splitp nd"
  using leaf_add_found [of k nd] leaf_add_new [of k nd]
  by (cases "deq k (bt_key nd ! key_index nd k)") (simp_all add: leaf_put_def)

text \<open>A level-2 quote is a put into the leaf.\<close>

lemma book_add_lvl2_put:
  assumes s: "s = BOOK_SIDE_ASK \<or> s = BOOK_SIDE_BID" and side: "leaf_side b s nd" and n: "bt_n nd < 62"
    and q: "q_s q = s" "q_f q = BOOK_LVL_2" "\<not> isnand64 (q_p q)"
  obtains b' q' where "book_add b q = Some (b', q')"
    "leaf_side b' s (leaf_put nd (q_p q) (quote_val q))"
proof -
  let ?put = "leaf_put nd (q_p q) (quote_val q)"
  have ok: "leaf_ok nd" "bt_next nd = None" using side by (auto simp: leaf_side_def)
  have room: "leaf_room nd (q_p q)" using n by (simp add: leaf_room_def)
  note sh = leaf_put_shape [OF ok(1) room, of "quote_val q"]
  have eq: "book_add b q = swap_level b q (\<lambda>_. quote_val q)"
    using s q by (auto simp: book_add_def quote_val_def)
  have small: "\<not> bt_n ?put \<ge> 63" using n sh(3) by (auto simp: ins_n_def)
  have split: "\<not> bt_splitp ?put" using side by (simp add: leaf_put_splitp leaf_side_def)
  then have same: "?put\<lparr>bt_splitp := False\<rparr> = ?put" by simp
  obtain b' q' h t where b': "book_add b q = Some (b', q')" "BOOK b' s = Some (h, t)"
    "deref h t = Some ?put"
    using swap_level_leaf [of b q nd "\<lambda>_. quote_val q"] side room q small same unfolding eq by auto
  then have "leaf_side b' s ?put"
    using split leaf_put_leaf_ok [OF ok(1) room q(3), of "quote_val q"] sh(2) ok(2) by (simp add: leaf_side_def)
  with b'(1) show thesis by (rule that)
qed

lemma book_adds_full:
  assumes s: "s = BOOK_SIDE_ASK \<or> s = BOOK_SIDE_BID" and "leaf_side b s nd" "full nd"
    and "bt_n nd + length qs \<le> 62" "\<forall>q \<in> set qs. lvl2_quote s q"
  shows "\<exists>b' nd'. book_adds b qs = Some b' \<and> leaf_side b' s nd' \<and> full nd' \<and>
    bt_n nd' \<le> bt_n nd + length qs \<and> bt_descp nd' = bt_descp nd"
  using assms(2-)
proof (induction qs arbitrary: b nd)
  case (Cons q qs)
  let ?put = "leaf_put nd (q_p q) (quote_val q)"
  have q: "q_s q = s" "q_f q = BOOK_LVL_2" "\<not> isnand64 (q_p q)" "q_q q > 0" and n: "bt_n nd < 62"
    using Cons.prems(3,4) by (auto simp: lvl2_quote_def)
  have ok: "leaf_ok nd" and room: "leaf_room nd (q_p q)"
    using Cons.prems(1) n by (auto simp: leaf_side_def leaf_room_def)
  obtain b1 q1 where 1: "book_add b q = Some (b1, q1)" "leaf_side b1 s ?put"
    using book_add_lvl2_put [OF s Cons.prems(1) n q(1-3)] by blast
  have "full ?put" using leaf_put_full [OF ok room Cons.prems(2) quote_val_live [OF q(4)]] by simp
  moreover have "bt_n ?put \<le> bt_n nd + 1" "bt_descp ?put = bt_descp nd"
    using leaf_put_shape [OF ok room, of "quote_val q"] by (auto simp: ins_n_def)
  ultimately show ?case using Cons.IH [OF 1(2)] Cons.prems(3,4) 1(1) by fastforce
qed auto

lemma new_btree_full: "full (new_btree d)"
  using new_btree_marks_ok by (simp add: full_def) (simp add: new_btree_def)

lemma level2_full:
  assumes s: "s = BOOK_SIDE_ASK \<or> s = BOOK_SIDE_BID"
    and qs: "length qs < 62" "\<forall>q \<in> set qs. lvl2_quote s q" "book_adds make_book qs = Some b"
  obtains nd where "leaf_side b s nd" "full nd" "bt_n nd < 62" "bt_descp nd = (s = BOOK_SIDE_BID)"
proof -
  let ?nd = "new_btree (s = BOOK_SIDE_BID)"
  have "leaf_side make_book s ?nd" "bt_n ?nd = 0" "bt_descp ?nd = (s = BOOK_SIDE_BID)"
    using make_book_displays [OF s] by (auto simp: displays_def new_btree_def)
  then show thesis
    using book_adds_full [OF s _ new_btree_full, of make_book "s = BOOK_SIDE_BID" qs] qs that by auto
qed

text \<open>
  Deleting the level in slot \<open>m\<close> leaves its mark behind. A new price that does not go to this slot
  recycles it, and the level in front of it is not shown any more.
\<close>

lemma deleted_slot_hides:
  fixes nd k1 p d v m
  defines "n1 \<equiv> leaf_put nd k1 d" and "n2 \<equiv> leaf_put (leaf_put nd k1 d) p v"
  assumes ok: "leaf_ok nd" "bt_n nd < 62" and full: "full nd" and d: "btree_val_nil_p d"
    and m: "0 < m" "m < bt_n nd" "deq k1 (bt_key nd ! m)"
    and p: "\<not> isnand64 p" "\<forall>j < bt_n nd. \<not> deq p (bt_key nd ! j)"
    and away: "kbefore (bt_descp nd) p (bt_key nd ! (m - 1)) \<or> kbefore (bt_descp nd) (bt_key nd ! m) p"
  shows "look (levels_of n2) (bt_key nd ! (m - 1)) = None"
proof -
  have get: "leaf_get nd k1 = Some m" using m(2,3) leaf_get_Some [OF ok(1)] by simp
  have k1: "\<not> isnand64 k1" using px.eq_ok m(3) by blast
  have idx: "key_index nd k1 = m" using key_index_eq [OF ok(1) m(2,3)] .
  have room: "leaf_room nd k1" using ok(2) by (simp add: leaf_room_def)
  have n1: "n1 = nd\<lparr>bt_used := bt_used nd OR bit1 m, bt_val := (bt_val nd)[m := UV d]\<rparr>"
    using leaf_add_found [of k1 nd] m(3) by (simp add: n1_def leaf_put_def idx)
  have len: "m < length (bt_val nd)" using m(2) ok by (simp add: leaf_okD(3) [OF ok(1)])
  have ok1: "leaf_ok n1" unfolding n1_def by (rule leaf_put_leaf_ok [OF ok(1) room k1])
  have mk1: "marks_ok n1" unfolding n1_def
    using leaf_put_marks_ok [OF ok(1) room] full get by (simp add: full_def)
  have nul: "nul_index n1 = m"
  proof -
    have lv: "live n1 j \<longleftrightarrow> j \<noteq> m" if "j < bt_n nd" for j
      using that full d len by (simp add: n1 full_def nth_list_update)
    then have "live n1 j" if "j < m" for j using that m(2) by simp
    moreover have "\<not> live n1 m" using lv [OF m(2)] by simp
    moreover have "m \<le> bt_n n1" using m(2) by (simp add: n1)
    ultimately show ?thesis unfolding nul_index_def by (intro scan_while_eqI) simp_all
  qed
  have get1: "leaf_get n1 p = None" using p(2) leaf_get_None [OF ok1] by (simp add: n1)
  have key: "key_index n1 p \<noteq> m"
  proof
    assume i: "key_index n1 p = m"
    have "kbefore (bt_descp nd) (bt_key nd ! (m - 1)) p" "kbefore (bt_descp nd) p (bt_key nd ! m)"
      using key_index_before [of "m - 1" n1 p] key_index_after [OF ok1 p(1), of m] leaf_get_index [of n1 p]
        get1 i m(1,2) by (simp_all add: n1)
    then show False using away px.irrefl px.trans by blast
  qed
  have room1: "leaf_room n1 p" using ok(2) by (simp add: leaf_room_def n1)
  have bit1: "bit (bt_used n1) (nul_index n1)" unfolding nul using m(2) ok(2) by (simp add: n1 bit_or_iff)
  obtain j where "j < bt_n n2" "\<not> bit (bt_used n2) j" "bt_key n2 ! j = bt_key nd ! (m - 1)"
    using leaf_put_unmarks [OF ok1 room1 mk1 get1 bit1, of v] key m(1) nul
    unfolding n2_def n1_def [symmetric] by (auto simp: n1)
  moreover have "\<not> isnand64 (bt_key nd ! (m - 1))" using leaf_okD(4,6) [OF ok(1)] m by simp
  ultimately show ?thesis
    using look_hidden [of n2] leaf_put_leaf_ok [OF ok1 room1 p(1), of v] px.eq_refl
    unfolding n2_def n1_def [symmetric] by (metis deq_refl)
qed

text \<open>
  C27: Deleting a level makes another one vanish. Take any book built by fewer than 62 level-2 quotes with
  positive quantities for one side, and two neighbouring levels that it shows on that side, \<open>k0\<close> in front of
  \<open>k1\<close>. Delete the level at \<open>k1\<close> by a level-2 quote whose quantity is not positive, then quote any new price
  that is not between the two (with no reading of that side in between, which would sweep the marks). The book then
  does not show the level at \<open>k0\<close>, although the last quote for it stands and nothing touched it since: its mark in the leaf was cancelled by the stale mark of the slot that was recycled.
\<close>

theorem deletion_hides_level:
  assumes s: "s = BOOK_SIDE_ASK \<or> s = BOOK_SIDE_BID"
    and qs: "length qs < 62" "\<forall>q \<in> set qs. lvl2_quote s q" "book_adds make_book qs = Some b"
    and lv: "book_levels b s (xs @ (k0, v0) # (k1, v1) # ys)"
    and del: "q_s d = s" "q_f d = BOOK_LVL_2" "deq (q_p d) k1" "q_q d \<le> 0"
    and q: "q_s q = s" "q_f q = BOOK_LVL_2" "\<not> isnand64 (q_p q)"
    and new: "\<forall>x \<in> set (xs @ (k0, v0) # (k1, v1) # ys). \<not> deq (q_p q) (fst x)"
    and away: "kbefore (s = BOOK_SIDE_BID) (q_p q) k0 \<or> kbefore (s = BOOK_SIDE_BID) k1 (q_p q)"
  shows "last_quote qs k0 = Some v0 \<and>
    (\<exists>b' zs. book_adds b [d, q] = Some b' \<and> book_levels b' s zs \<and> look zs k0 = None)"
proof -
  obtain nd where nd: "leaf_side b s nd" "full nd" "bt_n nd < 62" "bt_descp nd = (s = BOOK_SIDE_BID)"
    using level2_full [OF s qs] .
  have ok: "leaf_ok nd" using nd(1) by (simp add: leaf_side_def)
  let ?m = "Suc (length xs)"
  have l: "levels_of nd = xs @ (k0, v0) # (k1, v1) # ys" using leaf_side_unique [OF nd(1) lv] by simp
  then have l': "map (\<lambda>j. (bt_key nd ! j, leaf_val nd j)) [0..<bt_n nd] = xs @ (k0, v0) # (k1, v1) # ys"
    using full_levels [OF nd(2)] by simp
  have n: "bt_n nd = length xs + Suc (Suc (length ys))" using arg_cong [OF l', of length] by simp
  have nth: "(xs @ (k0, v0) # (k1, v1) # ys) ! j = (bt_key nd ! j, leaf_val nd j)" if "j < bt_n nd" for j
    using that by (simp flip: l')
  have k: "bt_key nd ! length xs = k0" "bt_key nd ! ?m = k1"
    using nth [of "length xs"] nth [of ?m] by (simp_all add: n nth_append)
  have keys: "\<forall>j < bt_n nd. \<not> deq (q_p q) (bt_key nd ! j)"
    using new by (auto simp flip: l')
  have num: "\<not> isnand64 k0" using leaf_okD(6) [OF ok, of "length xs"] leaf_okD(4) [OF ok] n k(1) by simp
  have p1: "\<not> isnand64 (q_p d)" using px.eq_ok del(3) by blast
  let ?n1 = "leaf_put nd (q_p d) (quote_val d)"
  have room: "leaf_room nd (q_p d)" using nd(3) by (simp add: leaf_room_def)
  have "leaf_get nd (q_p d) \<noteq> None" using leaf_get_Some [OF ok, of "q_p d" ?m] del(3) k(2) n by simp
  then have n1: "bt_n ?n1 = bt_n nd" using leaf_put_shape(3) [OF ok room] by auto
  obtain b1 r1 where 1: "book_add b d = Some (b1, r1)" "leaf_side b1 s ?n1"
    using book_add_lvl2_put [OF s nd(1,3) del(1,2) p1] .
  obtain b2 r2 where 2: "book_add b1 q = Some (b2, r2)"
    "leaf_side b2 s (leaf_put ?n1 (q_p q) (quote_val q))"
    using book_add_lvl2_put [OF s 1(2) _ q] n1 nd(3) by auto
  have "look (levels_of nd) k0 = leaf_level nd k0" using look_leaf [OF ok] nd(2) by (simp add: full_def)
  also have "\<dots> = Some v0"
    unfolding leaf_level_iff [OF ok] using nth [of "length xs"] nd(2) num k n
    by (intro exI [of _ "length xs"]) (simp add: full_def)
  moreover obtain zs where "book_levels b s zs" "look zs k0 = last_quote qs k0"
    using level2_levels [OF s _ qs(2)] qs(1,3) num by force
  ultimately have "last_quote qs k0 = Some v0" using leaf_side_unique [OF nd(1)] by auto
  moreover have "look (levels_of (leaf_put ?n1 (q_p q) (quote_val q))) k0 = None"
    using deleted_slot_hides [of nd "quote_val d" ?m "q_p d" "q_p q" "quote_val q"] ok nd(2-4) k n del(3,4) q(3)
      keys away by (simp add: btree_val_nil_p_def quote_val_def)
  ultimately show ?thesis using 1(1) 2(1) leaf_side_levels [OF 2(2)] by auto
qed

definition ask2 :: "int \<Rightarrow> int \<Rightarrow> book_quo_t" where
  "ask2 p q = \<lparr>q_s = BOOK_SIDE_ASK, q_f = BOOK_LVL_2, q_p = dd p 0, q_q = dd q 0, q_t = 1\<rparr>"

lemma two_asks_eval:
  "case book_adds make_book [ask2 100 5, ask2 101 7] of None \<Rightarrow> False | Some b \<Rightarrow>
     (case BOOK b BOOK_SIDE_ASK of None \<Rightarrow> False | Some (h, t) \<Rightarrow>
     (case deref h t of None \<Rightarrow> False | Some nd \<Rightarrow>
        leaf_ok nd \<and> bt_next nd = None \<and> \<not> bt_splitp nd \<and>
        levels_of nd = [(dd 100 0, sample_val 5), (dd 101 0, sample_val 7)]))"
  by code_simp

lemma two_asks:
  obtains b where "book_adds make_book [ask2 100 5, ask2 101 7] = Some b"
    "book_levels b BOOK_SIDE_ASK ([] @ (dd 100 0, sample_val 5) # (dd 101 0, sample_val 7) # [])"
proof -
  obtain b h t nd where "book_adds make_book [ask2 100 5, ask2 101 7] = Some b" "BOOK b BOOK_SIDE_ASK = Some (h, t)"
    "deref h t = Some nd" "leaf_ok nd" "bt_next nd = None" "\<not> bt_splitp nd"
    "levels_of nd = [(dd 100 0, sample_val 5), (dd 101 0, sample_val 7)]"
    using two_asks_eval by (auto split: option.splits)
  then show thesis using leaf_side_levels [of b BOOK_SIDE_ASK nd] by (intro that [of b]) (auto simp: leaf_side_def)
qed

theorem deletion_hides_level_witness:
  "\<exists>b b' zs. book_adds make_book [ask2 100 5, ask2 101 7] = Some b \<and>
    book_adds b [ask2 101 0, ask2 102 3] = Some b' \<and>
    book_levels b' BOOK_SIDE_ASK zs \<and> look zs (dd 100 0) = None"
proof -
  obtain b where b: "book_adds make_book [ask2 100 5, ask2 101 7] = Some b"
    "book_levels b BOOK_SIDE_ASK ([] @ (dd 100 0, sample_val 5) # (dd 101 0, sample_val 7) # [])"
    by (rule two_asks)
  have "\<forall>q \<in> set [ask2 100 5, ask2 101 7]. lvl2_quote BOOK_SIDE_ASK q"
    by (simp add: ask2_def lvl2_quote_def dd_eval)
  from deletion_hides_level [OF disjI1 [OF refl] _ this b, of "ask2 101 0" "ask2 102 3"] b(1)
  show ?thesis by (simp add: ask2_def dd_eval kbefore_def)
qed
end
