(* ===== verification/Btree_Contract.thy ===== *)
theory Btree_Contract
  imports Btree_Iter
begin

text \<open>
  The properties of the tree as a whole: walking, clearing and the first level for any chain of leaves;
  insertion, lookup and removal for a tree that is a single leaf; and what the split of a full root
  does to the levels.
\<close>

subsection \<open>Walking to the end\<close>

text \<open>At most \<open>n\<close> calls of \<open>btree_iter_next\<close>: the levels seen, and whether the iterator reported the end.\<close>

primrec iter_run :: "nat \<Rightarrow> heap \<Rightarrow> btree_iter \<Rightarrow> (heap \<times> (d64 \<times> btree_val) list \<times> bool) option" where
  "iter_run 0 h it = Some (h, [], False)"
| "iter_run (Suc n) h it = do {
     (h, it, ok) \<leftarrow> btree_iter_next h it;
     if \<not> ok then Some (h, [], True)
     else do {
       v \<leftarrow> iter_load h it;
       (h, xs, fin) \<leftarrow> iter_run n h it;
       Some (h, (it_k it, v) # xs, fin)
     }
   }"

lemma iter_run_levels:
  "iter_inv h t it pre xs \<Longrightarrow>
   \<exists>h'. iter_run (Suc (length xs)) h it = Some (h', xs, True) \<and> holds h' t (pre @ xs)"
proof (induction xs arbitrary: h it pre)
  case Nil
  then show ?case using iter_next_Nil by fastforce
next
  case (Cons x xs)
  obtain h1 it1 where st: "btree_iter_next h it = Some (h1, it1, True)" "iter_cur h1 t it1 pre x xs"
    using iter_next_Cons [OF Cons.prems] by blast
  have "iter_load h1 it1 = Some (snd x)" "it_k it1 = fst x"
    using bi.cur_load [OF st(2)] by auto
  then show ?case
    using Cons.IH [OF iter_cur_inv [OF st(2)]] st(1) by fastforce
qed

text \<open>
  C19: The iterator terminates and is complete: on a tree whose leaves show the levels \<open>xs\<close>, successive calls
  of \<open>btree_iter_next\<close> yield exactly \<open>xs\<close>, in order, and the call after the last one reports the end; the
  tree shows the same levels afterwards.
\<close>

theorem iter_visits_all:
  assumes "holds h t xs"
  shows "\<exists>h'. iter_run (Suc (length xs)) h (iter_init t) = Some (h', xs, True) \<and> holds h' t xs"
  using iter_run_levels [OF iter_inv_init [OF assms]] by simp

lemma leaf_holds:
  assumes "deref h t = Some nd" "leaf_ok nd" "bt_next nd = None"
  shows "holds h t (leaf_levels nd 0 (bt_n nd))"
proof -
  have "leaves h t [t]" using assms leaf_okD(1) first_leaf_leaf by (simp add: leaves_first)
  then show ?thesis using assms(1) by (auto simp: holds_def leaf_levels_at_def intro!: exI [of _ "[t]"])
qed

lemma sample_leaf_shape: "bt_n sample_leaf = 2" "bt_next sample_leaf = None" "\<not> bt_splitp sample_leaf"
  "\<not> bt_innerp sample_leaf" "\<not> bt_descp sample_leaf"
  by (simp_all add: sample_leaf_def new_btree_def)

lemma sample_heap: "deref [Some sample_leaf] 0 = Some sample_leaf"
  by (simp add: deref_def)

lemmas sample_holds = leaf_holds [OF sample_heap sample_leaf_facts(1) sample_leaf_shape(2)]

theorem iter_visits_all_witness:
  "\<exists>h'. iter_run (Suc (length (leaf_levels sample_leaf 0 2))) [Some sample_leaf] (iter_init 0) =
    Some (h', leaf_levels sample_leaf 0 2, True)"
  using iter_visits_all [OF sample_holds] by (auto simp: sample_leaf_shape)

subsection \<open>Splitting a full root\<close>

definition root_left :: "btree_s \<Rightarrow> btree_t \<Rightarrow> btree_s" where
  "root_left rt r = (new_btree (bt_descp rt))
     \<lparr>bt_key := memcpy_arr (bt_key (new_btree (bt_descp rt))) 0 (bt_key rt) (pivot + 1),
      bt_val := memcpy_arr (bt_val (new_btree (bt_descp rt))) 0 (bt_val rt) (pivot + 1),
      bt_innerp := bt_innerp rt, bt_n := pivot + (if bt_innerp rt then 0 else 1), bt_next := Some r\<rparr>"

definition root_right :: "btree_s \<Rightarrow> btree_s" where
  "root_right rt = (new_btree (bt_descp rt))
     \<lparr>bt_key := memcpy_arr (bt_key (new_btree (bt_descp rt))) 0 (drop (pivot + 1) (bt_key rt)) pivot,
      bt_val := memcpy_arr (bt_val (new_btree (bt_descp rt))) 0 (drop (pivot + 1) (bt_val rt)) (pivot + 1),
      bt_innerp := bt_innerp rt, bt_n := pivot, bt_next := None\<rparr>"

definition root_top :: "btree_s \<Rightarrow> btree_t \<Rightarrow> btree_t \<Rightarrow> btree_s" where
  "root_top rt l r = rt
     \<lparr>bt_key := memset_arr ((bt_key rt)[0 := bt_key rt ! pivot]) 1 key_fill,
      bt_val := (bt_val rt)[0 := UT l, 1 := UT r], bt_n := 1, bt_innerp := True, bt_next := None\<rparr>"

lemma root_split_nodes:
  assumes rt: "deref h t = Some rt"
  shows "\<exists>h'. root_split h t = Some h' \<and> length h' = length h + 2 \<and>
    (\<forall>x. deref h' x = (if x = t then Some (root_top rt (length h) (length h + 1)) else if x = length h then Some (root_left rt (length h + 1))
      else if x = length h + 1 then Some (root_right rt) else deref h x))"
proof -
  let ?n = "Some (new_btree (bt_descp rt))"
  have t: "t < length h" using rt by (rule deref_Some_lt)
  have d: "deref ((h @ [?n]) @ [?n]) (length h) = ?n" "deref ((h @ [?n]) @ [?n]) (length h + 1) = ?n"
    "x \<noteq> length h \<Longrightarrow> x \<noteq> length h + 1 \<Longrightarrow> deref ((h @ [?n]) @ [?n]) x = deref h x" for x
    by (auto simp: deref_def nth_append)
  let ?h' = "store (store (store ((h @ [?n]) @ [?n]) (length h) (root_left rt (length h + 1))) (length h + 1) (root_right rt)) t
    (root_top rt (length h) (length h + 1))"
  have "root_split h t = Some ?h'"
    using rt d(1,2) by (simp add: root_split_def make_btree_def root_left_def root_right_def root_top_def Let_def)
  moreover have "length ?h' = length h + 2" by simp
  moreover have "deref ?h' x = (if x = t then Some (root_top rt (length h) (length h + 1)) else if x = length h then Some (root_left rt (length h + 1))
      else if x = length h + 1 then Some (root_right rt) else deref h x)" for x
    using t d(3) [of x] by (simp add: heap_simps)
  ultimately show ?thesis by blast
qed

text \<open>The halves of a full leaf.\<close>

lemma key_fill_nan: "isnand64 key_fill"
  by (simp add: isnand64_def dec_of_d64_def)

lemma halves_leaf_ok:
  assumes "leaf_ok nd" "bt_n nd = 63"
  shows "leaf_ok (root_left nd r)" "leaf_ok (root_right nd)"
proof -
  note ok = leaf_okD [OF assms(1)]
  have nth: "j < 64 \<Longrightarrow> bt_key (root_left nd r) ! j = (if j < 32 then bt_key nd ! j else key_fill)"
    "j < 64 \<Longrightarrow> bt_key (root_right nd) ! j = (if j < 31 then bt_key nd ! (j + 32) else key_fill)" for j
    using ok(2) by (simp_all add: root_left_def root_right_def new_btree_def arr_simps countof_key_def pivot_def add.commute)
  have sh: "\<not> bt_innerp (root_left nd r)"
    "\<not> bt_innerp (root_right nd)" "bt_descp (root_left nd r) = bt_descp nd"
    "bt_descp (root_right nd) = bt_descp nd" "bt_n (root_left nd r) = 32" "bt_n (root_right nd) = 31"
    "length (bt_key (root_left nd r)) = 64" "length (bt_val (root_left nd r)) = 64"
    "length (bt_key (root_right nd)) = 64" "length (bt_val (root_right nd)) = 64"
    using ok(1-3) by (simp_all add: root_left_def root_right_def new_btree_def arr_simps countof_key_def pivot_def)
  show "leaf_ok (root_left nd r)" "leaf_ok (root_right nd)"
    unfolding leaf_ok_def sh using ok(5,6) key_fill_nan by (auto simp: nth assms(2) sh)
qed

lemma halves_marks: "\<not> vis (root_left nd r) j" "\<not> vis (root_right nd) j"
  by (simp_all add: vis_def root_left_def root_right_def new_btree_def)

text \<open>
  C29: But it does not carry the marks over: right after the split of a full root the iterator shows no
  level at all, whatever quantities the tree holds.
\<close>

theorem root_split_hides_levels:
  assumes nd: "deref h t = Some nd" "leaf_ok nd" "bt_n nd = 63"
  shows "\<exists>h'. root_split h t = Some h' \<and> holds h' t []"
proof -
  obtain h' where h': "root_split h t = Some h'" "deref h' t = Some (root_top nd (length h) (length h + 1))"
    "deref h' (length h) = Some (root_left nd (length h + 1))" "deref h' (length h + 1) = Some (root_right nd)"
    using root_split_nodes [OF nd(1)] deref_Some_lt [OF nd(1)] by auto
  note ok = halves_leaf_ok [OF nd(2,3)]
  have "first_leaf h' t = Some (length h)"
    using h'(2,3) leaf_okD(1) [OF ok(1)] leaf_okD(3) [OF nd(2)] first_leaf_leaf [OF h'(3)]
    by (simp add: first_leaf.simps [of h' t] root_top_def)
  moreover have "bt_next (root_left nd r) = Some r" "bt_next (root_right nd) = None" for r
    by (simp_all add: root_left_def root_right_def)
  ultimately have "leaves h' t [length h, length h + 1]"
    using h'(3,4) ok by (simp add: leaves_first)
  moreover have "chain_levels h' [length h, length h + 1] = []"
    using h'(3,4) halves_marks by (simp add: leaf_levels_at_def leaf_levels_Nil)
  ultimately show ?thesis using h'(1) by (auto simp: holds_def)
qed

text \<open>A full leaf: the prices 1, 2, \<open>\<dots>\<close>, 63.\<close>

definition full_leaf :: btree_s where
  "full_leaf = (new_btree False)\<lparr>bt_n := 63, bt_used := - 1,
     bt_key := map (\<lambda>i. dd (int i + 1) 0) [0..<63] @ [key_fill],
     bt_val := replicate 64 (UV (sample_val 1))\<rparr>"

lemma full_leaf_ok: "leaf_ok full_leaf" "bt_n full_leaf = 63" "deref [Some full_leaf] 0 = Some full_leaf"
proof -
  have "kbefore False (dd (int i + 1) 0) (dd (int j + 1) 0)" if "i < j" "j < 63" for i j
    using that by (simp add: kbefore_def less_d64_def dec_of_dd scaled_def)
  moreover have "\<not> isnand64 (dd (int i + 1) 0)" if "i < 63" for i
    using that by (simp add: isnand64_def dec_of_dd)
  ultimately show "leaf_ok full_leaf" "bt_n full_leaf = 63" "deref [Some full_leaf] 0 = Some full_leaf"
    using key_fill_nan by (auto simp: leaf_ok_def full_leaf_def new_btree_def deref_def nth_append)
qed

theorem root_split_hides_levels_witness:
  "\<exists>h'. root_split [Some full_leaf] 0 = Some h' \<and> holds h' 0 []"
  by (rule root_split_hides_levels [OF full_leaf_ok(3,1,2)])

end
