(* ===== verification/Btree_Flat.thy ===== *)
theory Btree_Flat
  imports Btree_Contract
begin

text \<open>
  Trees of any height, as they are searched. A ghost tree carries the addresses and the contents of the nodes; \<open>trep\<close>
  says that the heap holds it. Read from left to right, slots and separators of a tree form one list,
  its \<open>flat\<close> list. The search order of the whole tree is that this list is sorted.
\<close>

subsection \<open>Ghost trees\<close>

datatype gtree =
  is_leaf: GL btree_t "(d64 \<times> btree_val) list"
| GN btree_t "d64 list" "gtree list"

primrec groot :: "gtree \<Rightarrow> btree_t" where
  "groot (GL a xs) = a"
| "groot (GN a ks ts) = a"

primrec addrs :: "gtree \<Rightarrow> btree_t list" where
  "addrs (GL a xs) = [a]"
| "addrs (GN a ks ts) = a # concat (map addrs ts)"

text \<open>Slots are entries with a value, separators entries without.\<close>

type_synonym entry = "d64 \<times> btree_val option"

abbreviation slot :: "d64 \<times> btree_val \<Rightarrow> entry" where
  "slot x \<equiv> (fst x, Some (snd x))"

abbreviation sep :: "d64 \<Rightarrow> entry" where
  "sep k \<equiv> (k, None)"

text \<open>Subtrees with the separators between them.\<close>

definition weave_left :: "entry list list \<Rightarrow> d64 list \<Rightarrow> entry list" where
  "weave_left xss ks = concat (map2 (\<lambda>xs k. xs @ [sep k]) xss ks)"

definition weave_right :: "d64 list \<Rightarrow> entry list list \<Rightarrow> entry list" where
  "weave_right ks xss = concat (map2 (\<lambda>k xs. sep k # xs) ks xss)"

primrec weave :: "entry list list \<Rightarrow> d64 list \<Rightarrow> entry list" where
  "weave [] ks = []"
| "weave (xs # xss) ks = xs @ weave_right ks xss"

primrec flat :: "gtree \<Rightarrow> entry list" where
  "flat (GL a xs) = map slot xs"
| "flat (GN a ks ts) = weave (map flat ts) ks"

lemma weave_left_simps [simp]:
  "weave_left [] ks = []" "weave_left xss [] = []"
  "weave_left (xs # xss) (k # ks) = xs @ sep k # weave_left xss ks"
  by (simp_all add: weave_left_def)

lemma weave_right_simps [simp]:
  "weave_right [] xss = []" "weave_right ks [] = []"
  "weave_right (k # ks) (xs # xss) = sep k # xs @ weave_right ks xss"
  by (simp_all add: weave_right_def)

lemma weave_left_append [simp]:
  "length xss = length ks \<Longrightarrow> weave_left (xss @ yss) (ks @ ls) = weave_left xss ks @ weave_left yss ls"
  by (simp add: weave_left_def)

lemma weave_right_append [simp]:
  "length xss = length ks \<Longrightarrow> weave_right (ks @ ls) (xss @ yss) = weave_right ks xss @ weave_right ls yss"
  by (simp add: weave_right_def)

lemma weave_snoc: "length xss = length ks \<Longrightarrow> weave (xss @ [xs]) ks = weave_left xss ks @ xs"
proof (induction xss ks rule: list_induct2)
  case (Cons ys yss k ks)
  then show ?case by (cases yss) (auto simp: neq_Nil_conv)
qed simp

lemma weave_at:
  assumes "length xss = length ls"
  shows "weave (xss @ xs # yss) (ls @ rs) = weave_left xss ls @ xs @ weave_right rs yss"
proof (cases xss)
  case (Cons ys zss)
  then obtain k ks where ls: "ls = k # ks" using assms by (cases ls) auto
  have "length (zss @ [xs]) = length ls" using assms Cons by simp
  then have "weave_right (ls @ rs) ((zss @ [xs]) @ yss) = weave_right ls (zss @ [xs]) @ weave_right rs yss"
    by (rule weave_right_append)
  then show ?thesis using weave_snoc [OF assms, of xs] Cons by simp
qed (use assms in simp)

lemma weave_split:
  assumes "length xss = Suc (length ls)" "yss \<noteq> []"
  shows "weave (xss @ yss) (ls @ k # rs) = weave xss ls @ sep k # weave yss rs"
proof -
  obtain zss zs where xss: "xss = zss @ [zs]" using assms(1) by (cases xss rule: rev_cases) auto
  then have len: "length zss = length ls" using assms(1) by simp
  obtain ys wss where "yss = ys # wss" using assms(2) by (cases yss) auto
  then show ?thesis using weave_at [OF len, of zs yss "k # rs"] weave_snoc [OF len, of zs] xss by simp
qed

text \<open>The levels of a tree: its slots with a quantity.\<close>

definition has_qty :: "d64 \<times> btree_val \<Rightarrow> bool" where
  "has_qty x \<longleftrightarrow> \<not> btree_val_nil_p (snd x)"

definition entry_levels :: "entry list \<Rightarrow> (d64 \<times> btree_val) list" where
  "entry_levels es = [(k, v). (k, Some v) \<leftarrow> es, \<not> btree_val_nil_p v]"

abbreviation glevels :: "gtree \<Rightarrow> (d64 \<times> btree_val) list" where
  "glevels T \<equiv> entry_levels (flat T)"

lemma entry_levels_simps [simp]:
  "entry_levels [] = []" "entry_levels (xs @ ys) = entry_levels xs @ entry_levels ys"
  "entry_levels (sep k # es) = entry_levels es"
  "entry_levels ((k, Some v) # es) = (if btree_val_nil_p v then entry_levels es else (k, v) # entry_levels es)"
  by (simp_all add: entry_levels_def)

lemma entry_levels_slots: "entry_levels (map slot xs) = filter has_qty xs"
  by (induction xs) (auto simp: has_qty_def)

lemma entry_levels_weave: "length xss = Suc (length ks) \<Longrightarrow> entry_levels (weave xss ks) = concat (map entry_levels xss)"
proof -
  have "length xss = length ks \<Longrightarrow> entry_levels (weave_right ks xss) = concat (map entry_levels xss)" for xss
    by (induction xss ks rule: list_induct2) auto
  then show "length xss = Suc (length ks) \<Longrightarrow> ?thesis" by (cases xss) auto
qed

subsection \<open>The order of a tree\<close>

text \<open>A slot may equal the separator behind it.\<close>

definition ebefore :: "bool \<Rightarrow> entry \<Rightarrow> entry \<Rightarrow> bool" where
  "ebefore d x y \<longleftrightarrow> kbefore d (fst x) (fst y) \<or> deq (fst x) (fst y) \<and> snd x \<noteq> None \<and> snd y = None"

lemma ebefore_trans: "ebefore d x y \<Longrightarrow> ebefore d y z \<Longrightarrow> ebefore d x z"
  unfolding ebefore_def by (metis px.trans px.eq_lt px.lt_eq)

definition ordered_entries :: "bool \<Rightarrow> entry list \<Rightarrow> bool" where
  "ordered_entries d es \<longleftrightarrow> sorted_wrt (ebefore d) es \<and> (\<forall>x \<in> set es. \<not> isnand64 (fst x))"

lemma ordered_entries_append:
  "ordered_entries d (xs @ ys) \<longleftrightarrow>
     ordered_entries d xs \<and> ordered_entries d ys \<and> (\<forall>x \<in> set xs. \<forall>y \<in> set ys. ebefore d x y)"
  by (auto simp: ordered_entries_def sorted_wrt_append)

lemma ordered_entries_Cons:
  "ordered_entries d (x # ys) \<longleftrightarrow> \<not> isnand64 (fst x) \<and> ordered_entries d ys \<and> (\<forall>y \<in> set ys. ebefore d x y)"
  by (auto simp: ordered_entries_def)

lemma ordered_entries_Nil [simp]: "ordered_entries d []"
  by (simp add: ordered_entries_def)

lemmas ordered_entries_simps = ordered_entries_append ordered_entries_Cons

subsection \<open>The tree in the heap\<close>

definition node_shape :: "btree_s \<Rightarrow> bool \<Rightarrow> bool" where
  "node_shape nd d \<longleftrightarrow> bt_descp nd = d \<and> length (bt_key nd) = 64 \<and> length (bt_val nd) = 64 \<and> bt_n nd \<le> 63"

definition leaf_rep :: "btree_s \<Rightarrow> bool \<Rightarrow> (d64 \<times> btree_val) list \<Rightarrow> bool" where
  "leaf_rep nd d xs \<longleftrightarrow> node_shape nd d \<and> \<not> bt_innerp nd \<and> length xs = bt_n nd \<and>
     (\<forall>i < bt_n nd. xs ! i = (bt_key nd ! i, leaf_val nd i)) \<and>
     (\<forall>i < 64. bt_n nd \<le> i \<longrightarrow> isnand64 (bt_key nd ! i))"

definition twig_rep :: "btree_s \<Rightarrow> bool \<Rightarrow> d64 list \<Rightarrow> btree_t list \<Rightarrow> bool" where
  "twig_rep nd d ks ps \<longleftrightarrow> node_shape nd d \<and> bt_innerp nd \<and> length ks = bt_n nd \<and> length ps = Suc (bt_n nd) \<and>
     (\<forall>i < bt_n nd. ks ! i = bt_key nd ! i) \<and> (\<forall>i \<le> bt_n nd. bt_val nd ! i = UT (ps ! i))"

fun trep :: "heap \<Rightarrow> bool \<Rightarrow> gtree \<Rightarrow> bool" where
  "trep h d (GL a xs) \<longleftrightarrow> (\<exists>nd. deref h a = Some nd \<and> leaf_rep nd d xs)"
| "trep h d (GN a ks ts) \<longleftrightarrow> (\<exists>nd. deref h a = Some nd \<and> twig_rep nd d ks (map groot ts)) \<and> (\<forall>t \<in> set ts. trep h d t)"

definition tree_wf :: "heap \<Rightarrow> bool \<Rightarrow> gtree \<Rightarrow> bool" where
  "tree_wf h d T \<longleftrightarrow> trep h d T \<and> distinct (addrs T) \<and> ordered_entries d (flat T)"

text \<open>Nodes that agree on what the representation looks at: all but marks, flags and links.\<close>

definition same_node :: "btree_s \<Rightarrow> btree_s \<Rightarrow> bool" where
  "same_node nd nd' \<longleftrightarrow> bt_descp nd' = bt_descp nd \<and> bt_innerp nd' = bt_innerp nd \<and> bt_n nd' = bt_n nd \<and>
     bt_key nd' = bt_key nd \<and> bt_val nd' = bt_val nd"

lemma same_node_refl [simp]: "same_node nd nd"
  by (simp add: same_node_def)

lemma same_node_upd [simp]:
  "same_node nd (nd\<lparr>bt_next := p\<rparr>)" "same_node nd (nd\<lparr>bt_splitp := b\<rparr>)" "same_node nd (nd\<lparr>bt_used := u\<rparr>)"
  by (simp_all add: same_node_def)

lemma same_node_rep:
  assumes "same_node nd nd'"
  shows "leaf_rep nd' d xs = leaf_rep nd d xs" "twig_rep nd' d ks ps = twig_rep nd d ks ps"
  using assms by (simp_all add: same_node_def leaf_rep_def twig_rep_def node_shape_def)

definition same_nodes :: "btree_t set \<Rightarrow> heap \<Rightarrow> heap \<Rightarrow> bool" where
  "same_nodes A h h' \<longleftrightarrow> (\<forall>a \<in> A. \<forall>nd. deref h a = Some nd \<longrightarrow> (\<exists>nd'. deref h' a = Some nd' \<and> same_node nd nd'))"

lemma trep_frame: "trep h d T \<Longrightarrow> same_nodes (set (addrs T)) h h' \<Longrightarrow> trep h' d T"
proof (induction h d T rule: trep.induct)
  case (1 h d a xs)
  then show ?case by (auto simp: same_nodes_def same_node_rep)
next
  case (2 h d a ks ts)
  have "same_nodes (set (addrs t)) h h'" if "t \<in> set ts" for t using 2(3) that by (auto simp: same_nodes_def)
  moreover obtain nd where nd: "deref h a = Some nd" "twig_rep nd d ks (map groot ts)" using 2(2) by auto
  moreover obtain nd' where "deref h' a = Some nd'" "same_node nd nd'" using 2(3) nd(1) by (auto simp: same_nodes_def)
  ultimately show ?case using 2(1,2) by (auto simp: same_node_rep)
qed

lemma groot_addrs [simp]: "groot T \<in> set (addrs T)"
  by (cases T) auto

lemma trep_root: "trep h d T \<Longrightarrow> \<exists>nd. deref h (groot T) = Some nd \<and> node_shape nd d"
  by (cases T) (auto simp: leaf_rep_def twig_rep_def)

lemma trep_addrs: "trep h d T \<Longrightarrow> a \<in> set (addrs T) \<Longrightarrow> \<exists>nd. deref h a = Some nd \<and> node_shape nd d"
  by (induction h d T rule: trep.induct) (auto simp: leaf_rep_def twig_rep_def)

lemma trep_twig:
  assumes "trep h d (GN a ks (us @ c # vs))"
  obtains nd where "deref h a = Some nd" "bt_innerp nd" "twig_rep nd d ks (map groot (us @ c # vs))"
    "bt_val nd ! length us = UT (groot c)" "trep h d c"
proof -
  obtain nd where nd: "deref h a = Some nd" "twig_rep nd d ks (map groot (us @ c # vs))" using assms by auto
  then have "bt_val nd ! length us = UT (groot c)" "bt_innerp nd"
    unfolding twig_rep_def by (auto simp: nth_append)
  then show thesis using that nd assms by auto
qed

subsection \<open>Search\<close>

lemma key_index_twig:
  assumes "twig_rep nd d ks ps"
  shows "key_index nd k = px.pos d ks (length ks) k"
  using assms unfolding key_index_pos px.pos_def twig_rep_def node_shape_def
  by (auto intro!: scan_while_cong)

text \<open>Where the search enters a node: everything to the left is before the key, everything to the right is not.\<close>

definition around :: "bool \<Rightarrow> d64 \<Rightarrow> entry list \<Rightarrow> entry list \<Rightarrow> bool" where
  "around d k A B \<longleftrightarrow> (\<forall>v. \<forall>x \<in> set A. ebefore d x (k, Some v)) \<and> (\<forall>v. \<forall>x \<in> set B. ebefore d (k, Some v) x)"

lemma set_weave_left_bound:
  assumes "sorted_wrt (ebefore d) (weave_left xss ks)" "length xss = length ks" "x \<in> set (weave_left xss ks)"
  shows "\<exists>k \<in> set ks. x = sep k \<or> ebefore d x (sep k)"
  using assms(2,1,3)
  by (induction xss ks rule: list_induct2) (auto simp: sorted_wrt_append)

lemma set_weave_right_bound:
  assumes "sorted_wrt (ebefore d) (weave_right ks xss)" "length xss = length ks" "x \<in> set (weave_right ks xss)"
  shows "\<exists>k \<in> set ks. x = sep k \<or> ebefore d (sep k) x"
  using assms(2,1,3)
  by (induction xss ks rule: list_induct2) (auto simp: sorted_wrt_append)

lemma weave_right_seps:
  assumes "sorted_wrt (ebefore d) (weave_right ks xss)" "length xss = length ks"
  shows "sorted_wrt (kbefore d) ks \<and> (\<forall>k \<in> set ks. sep k \<in> set (weave_right ks xss))"
  using assms(2,1)
proof (induction xss ks rule: list_induct2)
  case (Cons xs xss k ks)
  then have "\<forall>x \<in> set (weave_right ks xss). kbefore d k (fst x)"
    by (auto simp: sorted_wrt_append ebefore_def)
  then show ?case using Cons by (fastforce simp: sorted_wrt_append)
qed simp

lemma weave_seps_ordered:
  assumes "ordered_entries d (weave xss ks)" "length xss = Suc (length ks)"
  shows "px.ordered d ks (length ks)"
proof -
  obtain xs yss where xss: "xss = xs # yss" "length yss = length ks" using assms(2) by (cases xss) auto
  then have "sorted_wrt (ebefore d) (weave_right ks yss)" using assms(1) by (simp add: ordered_entries_def sorted_wrt_append)
  note s = weave_right_seps [OF this xss(2)]
  moreover have "\<forall>k \<in> set ks. \<not> isnand64 k" using s assms(1) xss unfolding ordered_entries_def by (auto dest!: bspec)
  ultimately show ?thesis by (simp add: px.ordered_def sorted_wrt_iff_nth_less)
qed

lemma around_weave:
  assumes ord: "ordered_entries d (weave (xss @ xs # yss) (ls @ rs))" and len: "length xss = length ls" "length yss = length rs"
    and ls: "\<forall>l \<in> set ls. kbefore d l k" and rs: "\<forall>r \<in> set rs. \<not> kbefore d r k" and k: "\<not> isnand64 k"
  shows "around d k (weave_left xss ls) (weave_right rs yss)"
proof -
  note w = ord [unfolded weave_at [OF len(1)] ordered_entries_def sorted_wrt_append]
  have "ebefore d x (k, Some v)" if x: "x \<in> set (weave_left xss ls)" for x v
  proof -
    have srt: "sorted_wrt (ebefore d) (weave_left xss ls)" using w by simp
    obtain l where l: "l \<in> set ls" "x = sep l \<or> ebefore d x (sep l)" using set_weave_left_bound [OF srt len(1) x] by auto
    then have "ebefore d (sep l) (k, Some v)" using ls by (simp add: ebefore_def)
    then show ?thesis using l(2) ebefore_trans by blast
  qed
  moreover have "ebefore d (k, Some v) x" if x: "x \<in> set (weave_right rs yss)" for x v
  proof -
    have srt: "sorted_wrt (ebefore d) (weave_right rs yss)" using w by simp
    obtain r where r: "r \<in> set rs" "x = sep r \<or> ebefore d (sep r) x" using set_weave_right_bound [OF srt len(2) x] by auto
    have "\<forall>x \<in> set (weave_right rs yss). \<not> isnand64 (fst x)" using w by simp
    then have "\<not> isnand64 r" using weave_right_seps [OF srt len(2)] r(1) by (metis fst_conv)
    then have "ebefore d (k, Some v) (sep r)" using px.trichotomy [of r k d] rs r(1) k px.eq_sym by (auto simp: ebefore_def)
    then show ?thesis using r(2) ebefore_trans by blast
  qed
  ultimately show ?thesis by (simp add: around_def)
qed

lemma trep_lengths: "trep h d (GN a ks ts) \<Longrightarrow> length ts = Suc (length ks) \<and> length ks \<le> 63"
  by (auto simp: twig_rep_def node_shape_def)

text \<open>One step down the tree.\<close>

lemma descend:
  assumes rep: "trep h d (GN a ks ts)" and ord: "ordered_entries d (flat (GN a ks ts))" and k: "\<not> isnand64 k"
  obtains us c vs ls rs nd where "ts = us @ c # vs" "ks = ls @ rs" "length us = length ls" "length vs = length rs"
    "deref h a = Some nd" "twig_rep nd d ks (map groot ts)" "key_index nd k = length us" "ual_t (bt_val nd ! length us) = groot c"
    "trep h d c" "around d k (weave_left (map flat us) ls) (weave_right rs (map flat vs))"
    "flat (GN a ks ts) = weave_left (map flat us) ls @ flat c @ weave_right rs (map flat vs)"
proof -
  let ?i = "px.pos d ks (length ks) k"
  note len = trep_lengths [OF rep]
  have i: "?i \<le> length ks" by (rule px.pos_le)
  let ?us = "take ?i ts" and ?c = "ts ! ?i" and ?vs = "drop (Suc ?i) ts" and ?ls = "take ?i ks" and ?rs = "drop ?i ks"
  have ts: "ts = ?us @ ?c # ?vs" using i len by (simp add: id_take_nth_drop)
  have l: "length ?us = length ?ls" "length ?vs = length ?rs" "length ?us = ?i" using i len by auto
  obtain nd where nd: "deref h a = Some nd" "twig_rep nd d ks (map groot (?us @ ?c # ?vs))"
     "bt_val nd ! length ?us = UT (groot ?c)" "trep h d ?c"
    using rep ts by (metis trep_twig)
  have fl: "map flat ts = map flat ?us @ flat ?c # map flat ?vs" using ts by (metis list.simps(9) map_append)
  have "px.ordered d ks (length ks)" using weave_seps_ordered [of d "map flat ts" ks] ord len by simp
  then have "\<forall>r \<in> set ?rs. \<not> kbefore d r k" using px.after_pos by (auto simp: in_set_conv_nth)
  moreover have "\<forall>l \<in> set ?ls. kbefore d l k" using px.before_pos i by (fastforce simp: in_set_conv_nth)
  moreover have "ordered_entries d (weave (map flat ?us @ flat ?c # map flat ?vs) (?ls @ ?rs))"
    using ord fl by simp
  ultimately have "around d k (weave_left (map flat ?us) ?ls) (weave_right ?rs (map flat ?vs))"
    using l k by (intro around_weave) auto
  moreover have "flat (GN a ks ts) = weave_left (map flat ?us) ?ls @ flat ?c @ weave_right ?rs (map flat ?vs)"
    using weave_at [of "map flat ?us" ?ls "flat ?c" "map flat ?vs" ?rs] l fl by simp
  ultimately show thesis
    using that [OF ts _ l(1,2) nd(1)] nd l(3) key_index_twig [OF nd(2), of k] ts by simp
qed

subsection \<open>Lookup\<close>

text \<open>The slot a pointer points to.\<close>

fun gslot :: "gtree \<Rightarrow> val_ptr \<Rightarrow> d64 \<times> btree_val \<Rightarrow> bool" where
  "gslot (GL a xs) p x \<longleftrightarrow> fst p = a \<and> snd p < length xs \<and> xs ! snd p = x"
| "gslot (GN a ks ts) p x \<longleftrightarrow> (\<exists>t \<in> set ts. gslot t p x)"

lemma gslot_addr: "gslot T p x \<Longrightarrow> fst p \<in> set (addrs T)"
  by (induction T p x rule: gslot.induct) auto

lemma gslot_load: "trep h d T \<Longrightarrow> gslot T p x \<Longrightarrow> load_val h p = Some (snd x)"
  by (induction T p x rule: gslot.induct) (auto simp: leaf_rep_def load_val_def)

lemma leaf_rep_ok:
  assumes "leaf_rep nd d xs" "ordered_entries d (map slot xs)"
  shows "leaf_ok nd"
proof -
  have "sorted_wrt (kbefore d) (map fst xs)" "\<forall>x \<in> set xs. \<not> isnand64 (fst x)"
    using assms(2) by (auto simp: ordered_entries_def sorted_wrt_map ebefore_def elim!: sorted_wrt_mono_rel [rotated])
  then show ?thesis using assms(1) unfolding leaf_rep_def leaf_ok_def node_shape_def
    by (auto simp: sorted_wrt_iff_nth_less all_set_conv_all_nth not_less [symmetric])
qed

lemma leaf_repD:
  assumes "leaf_rep nd d xs"
  shows "bt_descp nd = d" "\<not> bt_innerp nd" "length xs = bt_n nd" "i < bt_n nd \<Longrightarrow> xs ! i = (bt_key nd ! i, leaf_val nd i)"
  using assms by (auto simp: leaf_rep_def node_shape_def)

lemma leaf_rep_get:
  assumes "leaf_rep nd d xs" "ordered_entries d (map slot xs)"
  shows "case leaf_get nd k of None \<Rightarrow> \<forall>x \<in> set xs. \<not> deq k (fst x) | Some i \<Rightarrow> i < length xs \<and> deq k (fst (xs ! i))"
  using leaf_get_None [OF leaf_rep_ok [OF assms], of k] leaf_get_Some [OF leaf_rep_ok [OF assms], of k] leaf_repD [OF assms(1)]
  by (auto simp: all_set_conv_all_nth split: option.splits)

lemma twig_get_step:
  "twig_get h t k = do { nd \<leftarrow> deref h t; btree_get h (ual_t (bt_val nd ! key_index nd k)) k }"
  by (subst twig_get.simps) (simp add: btree_get_def Let_def)

lemma around_slots:
  assumes "around d k A B" "slot x \<in> set (A @ C @ B)" "deq k (fst x)"
  shows "slot x \<in> set C"
proof -
  have "\<not> ebefore d (slot x) (k, Some v)" "\<not> ebefore d (k, Some v) (slot x)" for v
    using px.eq_not_lt [OF assms(3), of d] by (auto simp: ebefore_def)
  then show ?thesis using assms(1,2) by (auto simp: around_def)
qed

text \<open>\<open>btree_get\<close> ends on any tree; it finds the slot with the key if there is one.\<close>

lemma btree_get_finds:
  assumes "trep h d T" "ordered_entries d (flat T)" "\<not> isnand64 k"
  shows "\<exists>r. btree_get h (groot T) k = Some r \<and>
    (case r of None \<Rightarrow> \<forall>x. slot x \<in> set (flat T) \<longrightarrow> \<not> deq k (fst x)
     | Some p \<Rightarrow> \<exists>x. gslot T p x \<and> deq k (fst x))"
  using assms(1,2)
proof (induction h d T rule: trep.induct)
  case (1 h d a xs)
  then obtain nd where nd: "deref h a = Some nd" "leaf_rep nd d xs" by auto
  have "btree_get h (groot (GL a xs)) k = Some (map_option (Pair a) (leaf_get nd k))"
    using nd leaf_repD(2) [OF nd(2)] by (simp add: btree_get_def)
  moreover have "case leaf_get nd k of None \<Rightarrow> \<forall>x \<in> set xs. \<not> deq k (fst x) | Some i \<Rightarrow> i < length xs \<and> deq k (fst (xs ! i))"
    using 1 nd(2) by (intro leaf_rep_get) auto
  ultimately show ?case by (auto split: option.splits)
next
  case (2 h d a ks ts)
  obtain us c vs ls rs nd where st: "ts = us @ c # vs" "deref h a = Some nd" "twig_rep nd d ks (map groot ts)"
     "key_index nd k = length us" "ual_t (bt_val nd ! length us) = groot c" "trep h d c"
     "around d k (weave_left (map flat us) ls) (weave_right rs (map flat vs))"
     "flat (GN a ks ts) = weave_left (map flat us) ls @ flat c @ weave_right rs (map flat vs)"
    using descend [OF 2(2,3) assms(3)] by metis
  have "bt_innerp nd" using st(3) by (simp add: twig_rep_def)
  then have "btree_get h (groot (GN a ks ts)) k = twig_get h a k" using st(2) by (simp add: btree_get_def)
  then have get: "btree_get h (groot (GN a ks ts)) k = btree_get h (groot c) k"
    using st(2,4,5) by (simp add: twig_get_step)
  have "ordered_entries d (flat c)" using 2(3) st(8) by (simp add: ordered_entries_append)
  then obtain r where r: "btree_get h (groot c) k = Some r"
     "case r of None \<Rightarrow> \<forall>x. slot x \<in> set (flat c) \<longrightarrow> \<not> deq k (fst x) | Some p \<Rightarrow> \<exists>x. gslot c p x \<and> deq k (fst x)"
    using 2(1) [of c] st(1,6) by auto
  have "slot x \<in> set (flat c)" if "slot x \<in> set (flat (GN a ks ts))" "deq k (fst x)" for x
    using around_slots [OF st(7) _ that(2)] that(1) unfolding st(8) by blast
  then show ?case using r get st(1) by (cases r) (fastforce+)
qed

end
