(* ===== verification/Btree_Split.thy ===== *)
theory Btree_Split
  imports Btree_Flat
begin

text \<open>
  Splitting: insertion into a leaf as an operation on its list of slots, the search for a child without levels, and
  \<open>node_split\<close>, with a new node for the right half or the node of such a child. The flat list of the parent
  only gains a separator, and loses the entries of the child that is dropped.
\<close>

subsection \<open>Insertion into a leaf\<close>

abbreviation slots :: "btree_s \<Rightarrow> (d64 \<times> btree_val) list" where
  "slots nd \<equiv> map (\<lambda>i. (bt_key nd ! i, leaf_val nd i)) [0..<bt_n nd]"

lemma leaf_rep_slots: "leaf_rep nd d xs \<Longrightarrow> xs = slots nd"
  by (auto simp: leaf_rep_def intro!: nth_equalityI)

lemma leaf_rep_leaf_ok: "leaf_ok nd \<Longrightarrow> leaf_rep nd (bt_descp nd) (slots nd)"
  using leaf_okD by (auto simp: leaf_rep_def node_shape_def)

lemma leaf_ok_ordered: "leaf_ok nd \<Longrightarrow> ordered_entries (bt_descp nd) (map slot (slots nd))"
  using leaf_okD(4,5,6) [of nd]
  by (auto simp: ordered_entries_def sorted_wrt_map ebefore_def sorted_wrt_iff_nth_less)

text \<open>The slots of the new leaf other than the new one are those of the old leaf other than the recycled one.\<close>

lemma ins_src_image:
  assumes "i \<le> n" "nul \<le> n"
  shows "map (ins_src i nul) (filter (\<lambda>j. j \<noteq> ins_slot i nul) [0..<if nul < n then n else n + 1]) = filter (\<lambda>m. m \<noteq> nul) [0..<n]"
    (is "?l = ?r")
proof (rule strict_sorted_equal)
  show "sorted_wrt (<) ?l"
    unfolding sorted_wrt_map
    by (rule sorted_wrt_mono_rel [OF _ sorted_wrt_filter [OF sorted_wrt_upt]]) (auto intro: ins_src_mono)
  show "sorted_wrt (<) ?r" by (intro sorted_wrt_filter sorted_wrt_upt)
  show "set ?l = set ?r"
    using ins_src_onto [OF assms] ins_src_less [OF assms] ins_src_not_nul [OF assms] by (auto simp: image_iff; blast)
qed

lemma leaf_add_qty:
  assumes ok: "leaf_ok nd" and room: "leaf_room nd k" and new: "leaf_get nd k = None" and add: "leaf_add nd k = (nd', s, sp)"
  shows "filter has_qty (slots nd') = filter has_qty (slots nd)"
proof -
  let ?i = "key_index nd k" and ?m = "nul_index nd"
  note sl = leaf_add_slots [OF ok room new add] and b = ins_bounds [OF ok room new]
  have s: "s = ins_slot ?i ?m" and n: "bt_n nd' = (if ?m < bt_n nd then bt_n nd else bt_n nd + 1)"
    using add new leaf_add_new [of k nd] leaf_get_index [of nd k] by (auto simp: ins_n_def)
  define src where "src = ins_src ?i ?m"
  have img: "map src (filter (\<lambda>j. j \<noteq> s) [0..<bt_n nd']) = filter (\<lambda>m. m \<noteq> ?m) [0..<bt_n nd]"
    unfolding src_def s n by (rule ins_src_image [OF b(1,2)])
  have eq: "bt_key nd' ! j = bt_key nd ! src j" "bt_val nd' ! j = bt_val nd ! src j" if "j < bt_n nd'" "j \<noteq> s" for j
    using sl(4) [OF that] by (simp_all add: src_def)
  have "filter has_qty (slots nd') =
      map (\<lambda>j. (bt_key nd' ! j, leaf_val nd' j)) (filter (live nd') (filter (\<lambda>j. j \<noteq> s) [0..<bt_n nd']))"
    using sl(2) by (auto simp: filter_map o_def has_qty_def intro!: arg_cong [where f = "map _"] filter_cong)
  also have "\<dots> = map (\<lambda>m. (bt_key nd ! m, leaf_val nd m)) (filter (live nd) (map src (filter (\<lambda>j. j \<noteq> s) [0..<bt_n nd'])))"
    using eq by (auto simp: filter_map o_def intro!: map_cong filter_cong)
  also have "\<dots> = map (\<lambda>m. (bt_key nd ! m, leaf_val nd m)) (filter (live nd) [0..<bt_n nd])"
    unfolding img using live_not_nul [of "nul_index nd" nd] by (auto intro!: arg_cong [where f = "map _"] filter_cong)
  also have "\<dots> = filter has_qty (slots nd)" by (simp add: filter_map o_def has_qty_def)
  finally show ?thesis .
qed

lemma leaf_add_full:
  assumes ok: "leaf_ok nd" and n: "bt_n nd \<le> 62" and add: "leaf_add nd k = (nd', s, sp)" and sp: "sp"
  shows "filter has_qty (slots nd) \<noteq> [] \<and> leaf_get nd k = None"
proof -
  have room: "leaf_room nd k" using n by (simp add: leaf_room_def)
  have new: "leaf_get nd k = None" and "ins_n nd \<ge> 63"
    using leaf_add_shape(6,7) [OF ok room add] sp n by (auto split: if_splits)
  then have "nul_index nd = bt_n nd" "0 < bt_n nd" using n nul_index_le [of nd] by (auto simp: ins_n_def split: if_splits)
  then have "live nd 0" using scan_while_all [of 0 0 "live nd" "bt_n nd"] by (simp add: nul_index_def)
  then have "has_qty (bt_key nd ! 0, leaf_val nd 0)" by (simp add: has_qty_def)
  moreover have "(bt_key nd ! 0, leaf_val nd 0) \<in> set (slots nd)" using \<open>0 < bt_n nd\<close> by force
  ultimately have "\<exists>x \<in> set (slots nd). has_qty x" by blast
  then show ?thesis using new unfolding filter_empty_conv by blast
qed

lemma leaf_insert:
  assumes rep: "leaf_rep nd d xs" and ord: "ordered_entries d (map slot xs)" and k: "\<not> isnand64 k" and n: "length xs \<le> 62"
    and add: "leaf_add nd k = (nd', s, sp)"
  defines "ys \<equiv> slots nd'"
  shows "leaf_rep nd' d ys" "ordered_entries d (map slot ys)" "s < length ys" "deq k (fst (ys ! s))"
    "filter has_qty ys = filter has_qty xs" "sp \<longleftrightarrow> length ys = 63" "length ys \<le> 63" "length ys \<le> Suc (length xs)"
    "sp \<Longrightarrow> filter has_qty xs \<noteq> []"
    "y \<in> set ys \<Longrightarrow> y \<in> set xs \<or> fst y = k"
proof -
  have ok: "leaf_ok nd" by (rule leaf_rep_ok [OF rep ord])
  note D = leaf_repD [OF rep]
  have xs: "xs = slots nd" by (rule leaf_rep_slots [OF rep])
  have room: "leaf_room nd k" using n D(3) by (simp add: leaf_room_def)
  have ok': "leaf_ok nd'" by (rule leaf_add_leaf_ok [OF ok room k add])
  note sh = leaf_add_shape [OF ok room add]
  show "leaf_rep nd' d ys" "ordered_entries d (map slot ys)"
    using leaf_rep_leaf_ok [OF ok'] leaf_ok_ordered [OF ok'] sh(1) D(1) by (simp_all add: ys_def)
  have n': "bt_n nd' \<le> 63" by (rule leaf_okD(4) [OF ok'])
  then show "sp \<longleftrightarrow> length ys = 63" "length ys \<le> 63" using sh(7) by (auto simp: ys_def)
  show "length ys \<le> Suc (length xs)" using sh(6) D(3) by (auto simp: ys_def ins_n_def)
  show "filter has_qty xs \<noteq> []" if "sp" using leaf_add_full [OF ok _ add that] n xs by simp
  have s: "s < bt_n nd' \<and> deq k (bt_key nd' ! s) \<and> filter has_qty (slots nd') = filter has_qty (slots nd) \<and>
      (y \<in> set ys \<longrightarrow> y \<in> set xs \<or> fst y = k)"
  proof (cases "leaf_get nd k")
    case None
    note sl = leaf_add_slots [OF ok room None add] and b = ins_bounds [OF ok room None]
    have "y \<in> set xs \<or> fst y = k" if "y \<in> set ys"
    proof -
      obtain j where j: "j < bt_n nd'" "y = (bt_key nd' ! j, leaf_val nd' j)" using \<open>y \<in> set ys\<close> by (auto simp: ys_def)
      show ?thesis
      proof (cases "j = s")
        case False
        have "s = ins_slot (key_index nd k) (nul_index nd)" "bt_n nd' = ins_n nd"
          using add None leaf_add_new [of k nd] leaf_get_index [of nd k] by auto
        then have "ins_src (key_index nd k) (nul_index nd) j < bt_n nd"
          using ins_src_less [OF b(1,2)] j(1) False by (simp add: ins_n_def)
        then show ?thesis using sl(4) [OF j(1) False] j(2) xs by auto
      qed (use sl(1) j(2) in simp)
    qed
    then show ?thesis using sl(1,3) k leaf_add_qty [OF ok room None add] by (simp add: px.eq_refl)
  next
    case (Some i)
    then have "deq k (bt_key nd ! key_index nd k)" using leaf_get_index [of nd k] by simp
    with leaf_add_found [OF this] add deq_index_lt [OF ok this] show ?thesis
      by (auto simp: ys_def xs)
  qed
  then show "s < length ys" "deq k (fst (ys ! s))" "filter has_qty ys = filter has_qty xs" "y \<in> set ys \<Longrightarrow> y \<in> set xs \<or> fst y = k"
    by (auto simp: ys_def xs)
qed

subsection \<open>Nodes without levels\<close>

lemma leaf_free_p_iff: "leaf_rep nd d xs \<Longrightarrow> leaf_free_p nd \<longleftrightarrow> filter has_qty xs = []"
proof -
  assume rep: "leaf_rep nd d xs"
  let ?P = "\<lambda>j. btree_val_nil_p (leaf_val nd j)"
  have "leaf_free_p nd \<longleftrightarrow> (\<forall>j < bt_n nd. ?P j)"
  proof
    assume "leaf_free_p nd"
    then show "\<forall>j < bt_n nd. ?P j" unfolding leaf_free_p_def by (meson le0 less_le_trans scan_while_all)
  next
    assume "\<forall>j < bt_n nd. ?P j"
    then have "scan_while ?P 0 (bt_n nd) = bt_n nd" by (intro scan_while_eqI) auto
    then show "leaf_free_p nd" by (simp add: leaf_free_p_def)
  qed
  also have "\<dots> \<longleftrightarrow> (\<forall>x \<in> set xs. \<not> has_qty x)"
    using leaf_repD(3,4) [OF rep] by (simp add: all_set_conv_all_nth has_qty_def)
  finally show ?thesis by (simp add: filter_empty_conv)
qed

lemma glevels_twig: "trep h d (GN a ks ts) \<Longrightarrow> glevels (GN a ks ts) = concat (map glevels ts)"
  using trep_lengths [of h d a ks ts] by (simp add: entry_levels_weave o_def)

lemma twig_at:
  assumes "trep h d T" "T = GN a (ls @ rs) (us @ c # vs)" "length us = length ls"
  shows "flat T = weave_left (map flat us) ls @ flat c @ weave_right rs (map flat vs)"
    "glevels T = concat (map glevels us) @ glevels c @ concat (map glevels vs)" "length vs = length rs"
  using glevels_twig [of h d a "ls @ rs" "us @ c # vs"] trep_lengths [of h d a "ls @ rs" "us @ c # vs"] assms(1,3)
  unfolding assms(2) by (simp_all only: flat.simps map_append list.map concat_append concat.simps) (simp_all add: weave_at)

lemma twig_child: "twig_rep nd d ks (map groot ts) \<Longrightarrow> i \<le> bt_n nd \<Longrightarrow> ual_t (bt_val nd ! i) = groot (ts ! i) \<and> ts ! i \<in> set ts"
  by (simp add: twig_rep_def)

lemma node_free_p_iff: "trep h d T \<Longrightarrow> node_free_p h (groot T) = Some (glevels T = [])"
proof (induction h d T rule: trep.induct)
  case (1 h d a xs)
  then obtain nd where "deref h a = Some nd" "leaf_rep nd d xs" by auto
  then show ?case using leaf_free_p_iff leaf_repD(2)
    by (simp add: node_free_p_def node_free_from.simps [of h a] entry_levels_slots)
next
  case (2 h d a ks ts)
  then obtain nd where nd: "deref h a = Some nd" "twig_rep nd d ks (map groot ts)" by auto
  have inner: "bt_innerp nd" and len: "length ts = Suc (bt_n nd)" using nd(2) by (auto simp: twig_rep_def)
  have "node_free_from h a i = Some (\<forall>t \<in> set (drop i ts). glevels t = [])" if "i \<le> Suc (bt_n nd)" for i
    using that
  proof (induction i rule: inc_induct)
    case base
    then show ?case using nd(1) inner len by (simp add: node_free_from.simps [of h a])
  next
    case (step i)
    have "drop i ts = ts ! i # drop (Suc i) ts" using step(2) len by (simp add: Cons_nth_drop_Suc)
    moreover have "node_free_from h (groot (ts ! i)) 0 = Some (glevels (ts ! i) = [])"
      using 2 twig_child [OF nd(2), of i] step(2) by (simp add: node_free_p_def)
    ultimately show ?case
      using step nd inner twig_child [OF nd(2), of i] by (subst node_free_from.simps) auto
  qed
  from this [of 0] show ?case using glevels_twig [OF 2(2)] by (simp add: node_free_p_def)
qed

text \<open>The scan for a child to recycle: the first one without levels.\<close>

lemma find_free_spec:
  assumes "trep h d (GN a ks ts)" "deref h a = Some nd" "twig_rep nd d ks (map groot ts)"
  shows "\<exists>m. find_free h nd 0 = Some m \<and> m \<le> length ts \<and> (m < length ts \<longrightarrow> glevels (ts ! m) = [])"
proof -
  have len: "length ts = Suc (bt_n nd)" using assms(3) by (simp add: twig_rep_def)
  have "\<exists>m. find_free h nd i = Some m \<and> m \<le> length ts \<and> (m < length ts \<longrightarrow> glevels (ts ! m) = [])" if "i \<le> Suc (bt_n nd)" for i
    using that
  proof (induction i rule: inc_induct)
    case base
    then show ?case using len by (simp add: find_free.simps)
  next
    case (step i)
    have "node_free_p h (groot (ts ! i)) = Some (glevels (ts ! i) = [])"
      using assms(1) twig_child [OF assms(3), of i] step(2) by (intro node_free_p_iff [of h d]) auto
    then show ?case using step len twig_child [OF assms(3), of i] by (subst find_free.simps) auto
  qed
  then show ?thesis by blast
qed

subsection \<open>Splitting a node\<close>

primrec gcount :: "gtree \<Rightarrow> nat" where
  "gcount (GL a xs) = length xs"
| "gcount (GN a ks ts) = length ks"

primrec gkids :: "gtree \<Rightarrow> gtree list" where
  "gkids (GL a xs) = []"
| "gkids (GN a ks ts) = ts"

primrec gpivot :: "gtree \<Rightarrow> d64" where
  "gpivot (GL a xs) = fst (xs ! 31)"
| "gpivot (GN a ks ts) = ks ! 31"

primrec gleft :: "btree_t \<Rightarrow> gtree \<Rightarrow> gtree" where
  "gleft l (GL a xs) = GL l (take 32 xs)"
| "gleft l (GN a ks ts) = GN l (take 31 ks) (take 32 ts)"

primrec gright :: "btree_t \<Rightarrow> gtree \<Rightarrow> gtree" where
  "gright r (GL a xs) = GL r (drop 32 xs)"
| "gright r (GN a ks ts) = GN r (drop 32 ks) (drop 32 ts)"

lemma ordered_entries_sep:
  assumes ord: "ordered_entries d (A @ (k, Some v) # (k', Some v') # B)"
  shows "ordered_entries d (A @ (k, Some v) # sep k # (k', Some v') # B)"
proof -
  have "\<not> isnand64 k" "kbefore d k k'" using ord by (auto simp: ordered_entries_simps ebefore_def)
  then have b: "ebefore d (k, Some v) (sep k)" "ebefore d (sep k) (k', Some v')"
    by (auto simp: ebefore_def px.eq_refl)
  then have "\<forall>x \<in> set A. ebefore d x (sep k)" "\<forall>x \<in> set B. ebefore d (sep k) x"
    using ord by (auto simp: ordered_entries_simps intro: ebefore_trans)
  then show ?thesis using ord b \<open>\<not> isnand64 k\<close> by (auto simp: ordered_entries_simps)
qed

lemma flat_halves:
  assumes "gcount T = 63" "trep h d T"
  shows "ordered_entries d (A @ flat T @ B) \<Longrightarrow>
      ordered_entries d (A @ flat (gleft l T) @ sep (gpivot T) # flat (gright r T) @ B)"
    and "glevels (gleft l T) @ glevels (gright r T) = glevels T"
proof -
  have both: "(ordered_entries d (A @ flat T @ B) \<longrightarrow>
      ordered_entries d (A @ flat (gleft l T) @ sep (gpivot T) # flat (gright r T) @ B)) \<and>
      glevels (gleft l T) @ glevels (gright r T) = glevels T"
  proof (cases T)
    case (GL a xs)
    then have h: "take 32 xs = take 31 xs @ [xs ! 31]" "drop 32 xs = xs ! 32 # drop 33 xs" using assms(1)
      by (simp_all add: take_Suc_conv_app_nth numeral_eq_Suc Cons_nth_drop_Suc)
    have "xs = take 32 xs @ drop 32 xs" by simp
    also have "\<dots> = take 31 xs @ xs ! 31 # xs ! 32 # drop 33 xs" unfolding h by simp
    finally have "map slot xs = map slot (take 31 xs @ xs ! 31 # xs ! 32 # drop 33 xs)" by (rule arg_cong)
    then have fl: "flat T = map slot (take 31 xs) @ slot (xs ! 31) # slot (xs ! 32) # map slot (drop 33 xs)"
      using GL by simp
    have "glevels (gleft l T) @ glevels (gright r T) = glevels T"
      unfolding GL gleft.simps gright.simps flat.simps entry_levels_slots by (simp flip: filter_append)
    then show ?thesis
      using ordered_entries_sep [of d "A @ map slot (take 31 xs)" "fst (xs ! 31)" "snd (xs ! 31)" "fst (xs ! 32)" "snd (xs ! 32)"
          "map slot (drop 33 xs) @ B"] unfolding fl by (simp add: GL h)
  next
    case (GN a ks ts)
    have len: "length ts = 64" "length ks = 63" using trep_lengths assms GN by auto
    then have "ks = take 31 ks @ ks ! 31 # drop 32 ks" using id_take_nth_drop [of 31 ks] by simp
    then have "flat T = weave (map flat (take 32 ts) @ map flat (drop 32 ts)) (take 31 ks @ ks ! 31 # drop 32 ks)"
      using GN by (simp flip: map_append)
    also have "\<dots> = flat (gleft l T) @ sep (gpivot T) # flat (gright r T)"
      using len GN by (simp add: weave_split)
    finally show ?thesis by simp
  qed
  then show "ordered_entries d (A @ flat T @ B) \<Longrightarrow>
      ordered_entries d (A @ flat (gleft l T) @ sep (gpivot T) # flat (gright r T) @ B)"
    "glevels (gleft l T) @ glevels (gright r T) = glevels T" by blast+
qed

lemma nth_insert_key:
  "i < m \<Longrightarrow> m < length xs \<Longrightarrow> j < length xs \<Longrightarrow>
   (memmove_arr xs (i + 1) i (m - i))[i := x] ! j = (if j = i then x else if i < j \<and> j \<le> m then xs ! (j - 1) else xs ! j)"
  by (auto simp: arr_simps nth_list_update)

lemma nth_insert_val:
  "i < m \<Longrightarrow> m < length xs \<Longrightarrow> j < length xs \<Longrightarrow>
   (memmove_arr xs (i + 1) i (m - i))[i + 1 := x] ! j =
     (if j = i + 1 then x else if i < j \<and> j \<le> m then xs ! (j - 1) else xs ! j)"
  by (auto simp: arr_simps nth_list_update)

lemma nth_recycle_key:
  "m < i \<Longrightarrow> i < length xs \<Longrightarrow> j < length xs \<Longrightarrow>
   (memmove_arr xs m (m + 1) (i - m))[i - 1 := x] ! j = (if j = i - 1 then x else if m \<le> j \<and> j < i then xs ! (j + 1) else xs ! j)"
  by (auto simp: arr_simps nth_list_update)

lemma nth_recycle_val:
  "m < i \<Longrightarrow> i < length xs \<Longrightarrow> j < length xs \<Longrightarrow>
   (memmove_arr xs m (m + 1) (i - m))[i := x] ! j = (if j = i then x else if m \<le> j \<and> j < i then xs ! (j + 1) else xs ! j)"
  by (auto simp: arr_simps nth_list_update)

text \<open>What the halves look like in memory, for a node that is split in place and for a root that gets two new children.\<close>

definition left_like :: "btree_s \<Rightarrow> btree_s \<Rightarrow> bool" where
  "left_like nd ch \<longleftrightarrow> bt_innerp nd = bt_innerp ch \<and> bt_n nd = (if bt_innerp ch then 31 else 32) \<and>
     (\<forall>j < bt_n nd. bt_key nd ! j = bt_key ch ! j) \<and> (\<forall>j < 32. bt_val nd ! j = bt_val ch ! j) \<and>
     (\<not> bt_innerp ch \<longrightarrow> (\<forall>j < 64. 32 \<le> j \<longrightarrow> isnand64 (bt_key nd ! j)))"

definition right_like :: "btree_s \<Rightarrow> btree_s \<Rightarrow> bool" where
  "right_like nd ch \<longleftrightarrow> bt_innerp nd = bt_innerp ch \<and> bt_n nd = 31 \<and>
     (\<forall>j < 31. bt_key nd ! j = bt_key ch ! (32 + j)) \<and> (\<forall>j < 32. bt_val nd ! j = bt_val ch ! (32 + j)) \<and>
     (\<not> bt_innerp ch \<longrightarrow> (\<forall>j < 64. 31 \<le> j \<longrightarrow> isnand64 (bt_key nd ! j)))"

lemma left_like_rep:
  assumes rep: "trep h d T" "deref h (groot T) = Some ch" and T: "gcount T = 63"
    and nd: "deref h' l = Some nd" "node_shape nd d" "left_like nd ch" and kids: "\<forall>t \<in> set (gkids T). trep h' d t"
  shows "trep h' d (gleft l T)"
proof (cases T)
  case (GL a xs)
  then have "leaf_rep ch d xs" using rep by auto
  then have "leaf_rep nd d (take 32 xs)" using nd(2,3) T GL by (auto simp: leaf_rep_def left_like_def)
  then show ?thesis using nd(1) GL by auto
next
  case (GN a ks ts)
  then have "twig_rep ch d ks (map groot ts)" using rep by auto
  then have "twig_rep nd d (take 31 ks) (map groot (take 32 ts))" using nd(2,3) T GN
    by (auto simp: twig_rep_def left_like_def simp flip: take_map)
  then show ?thesis using nd(1) GN kids by (auto dest: in_set_takeD)
qed

lemma right_like_rep:
  assumes rep: "trep h d T" "deref h (groot T) = Some ch" and T: "gcount T = 63"
    and nd: "deref h' r = Some nd" "node_shape nd d" "right_like nd ch" and kids: "\<forall>t \<in> set (gkids T). trep h' d t"
  shows "trep h' d (gright r T)"
proof (cases T)
  case (GL a xs)
  then have "leaf_rep ch d xs" using rep by auto
  then have "leaf_rep nd d (drop 32 xs)" using nd(2,3) T GL by (auto simp: leaf_rep_def right_like_def)
  then show ?thesis using nd(1) GL by auto
next
  case (GN a ks ts)
  then have "twig_rep ch d ks (map groot ts)" using rep by auto
  then have "twig_rep nd d (drop 32 ks) (map groot (drop 32 ts))" using nd(2,3) T GN
    by (auto simp: twig_rep_def right_like_def simp flip: drop_map)
  then show ?thesis using nd(1) GN kids by (auto dest: in_set_dropD)
qed

lemma pivot_key:
  assumes "trep h d T" "deref h (groot T) = Some ch" "gcount T = 63"
  shows "bt_key ch ! 31 = gpivot T"
  using assms by (cases T) (auto simp: leaf_rep_def twig_rep_def)

definition split_left :: "btree_s \<Rightarrow> btree_t \<Rightarrow> btree_s" where
  "split_left ch r = (let n' = pivot + (if bt_innerp ch then 0 else 1) in
     ch\<lparr>bt_n := n', bt_next := Some r, bt_key := memset_arr (bt_key ch) n' key_fill\<rparr>)"

definition split_right :: "btree_s \<Rightarrow> btree_s \<Rightarrow> btree_s" where
  "split_right rg ch = rg\<lparr>bt_key := memset_arr
       (memcpy_arr (bt_key rg) 0 (drop (pivot + 1) (bt_key ch)) pivot) pivot key_fill,
     bt_val := memcpy_arr (bt_val rg) 0 (drop (pivot + 1) (bt_val ch)) (pivot + 1),
     bt_innerp := bt_innerp ch, bt_next := bt_next ch, bt_n := pivot\<rparr>"

definition split_parent :: "btree_s \<Rightarrow> nat \<Rightarrow> nat \<Rightarrow> d64 \<Rightarrow> btree_t \<Rightarrow> btree_s" where
  "split_parent pr idx nul piv r =
     (let (pr, idx) =
       (if nul > idx then
          (pr\<lparr>bt_key := memmove_arr (bt_key pr) (idx + 1) idx (nul - idx),
             bt_val := memmove_arr (bt_val pr) (idx + 1) idx (nul - idx)\<rparr>, idx)
        else if nul < idx then
          (pr\<lparr>bt_key := memmove_arr (bt_key pr) nul (nul + 1) (idx - nul),
             bt_val := memmove_arr (bt_val pr) nul (nul + 1) (idx - nul)\<rparr>, idx - 1)
        else (pr, idx))
      in pr\<lparr>bt_n := bt_n pr + (if nul > bt_n pr then 1 else 0),
            bt_key := (bt_key pr)[idx := piv], bt_val := (bt_val pr)[idx + 1 := UT r]\<rparr>)"

lemma pivot_31 [simp]: "pivot = 31"
  by (simp add: pivot_def countof_key_def)

lemma split_left_like:
  assumes "node_shape ch d"
  shows "node_shape (split_left ch r) d" "left_like (split_left ch r) ch"
  using assms by (auto simp: node_shape_def left_like_def split_left_def Let_def arr_simps key_fill_nan)

lemma split_right_like:
  assumes "node_shape ch d" "node_shape rg d"
  shows "node_shape (split_right rg ch) d" "right_like (split_right rg ch) ch"
  using assms by (auto simp: node_shape_def right_like_def split_right_def arr_simps key_fill_nan)

text \<open>The parent of a node that is split: with a new node, or with the node of a child that is dropped.\<close>

lemma split_parent_new:
  assumes rep: "twig_rep pr d (ls @ rs) (ps @ pc # qs)" and len: "length ps = length ls" and n: "bt_n pr \<le> 62"
    and m: "m = Suc (bt_n pr)"
  shows "twig_rep (split_parent pr (length ps) m piv r) d (ls @ piv # rs) (ps @ pc # r # qs)"
proof -
  let ?i = "length ps" and ?n = "bt_n pr"
  have R: "length ls + length rs = ?n" "length qs = length rs" "length (bt_key pr) = 64" "length (bt_val pr) = 64"
     "\<And>j. j < ?n \<Longrightarrow> bt_key pr ! j = (ls @ rs) ! j" "\<And>j. j \<le> ?n \<Longrightarrow> bt_val pr ! j = UT ((ps @ pc # qs) ! j)"
     "bt_descp pr = d" "bt_innerp pr"
    using rep len by (auto simp: twig_rep_def node_shape_def)
  have i: "?i < m" "m < 64" using R(1) m n len by auto
  have "split_parent pr ?i m piv r = pr\<lparr>bt_n := Suc ?n, bt_key := (memmove_arr (bt_key pr) (?i + 1) ?i (m - ?i))[?i := piv],
      bt_val := (memmove_arr (bt_val pr) (?i + 1) ?i (m - ?i))[?i + 1 := UT r]\<rparr>"
    using i m by (simp add: split_parent_def)
  moreover have "(memmove_arr (bt_key pr) (?i + 1) ?i (m - ?i))[?i := piv] ! j = (ls @ piv # rs) ! j" if "j < Suc ?n" for j
    using that i R(1) len m by (subst nth_insert_key) (auto simp: R(3) R(5) nth_append nth_Cons' Suc_diff_le)
  moreover have "(memmove_arr (bt_val pr) (?i + 1) ?i (m - ?i))[?i + 1 := UT r] ! j = UT ((ps @ pc # r # qs) ! j)" if "j \<le> Suc ?n" for j
    using that i R(1) len m by (subst nth_insert_val) (auto simp: R(4) R(6) nth_append nth_Cons' Suc_diff_le)
  ultimately show ?thesis using R i n len by (simp add: twig_rep_def node_shape_def arr_simps)
qed

lemma split_parent_left:
  assumes rep: "twig_rep pr d (ls1 @ y # ls2 @ rs) (ps1 @ x # ps2 @ pc # qs)" and len: "length ps1 = length ls1" "length ps2 = length ls2"
  shows "twig_rep (split_parent pr (length (ps1 @ x # ps2)) (length ps1) piv r) d (ls1 @ ls2 @ piv # rs) (ps1 @ ps2 @ pc # r # qs)"
proof -
  let ?i = "length (ps1 @ x # ps2)" and ?n = "bt_n pr" and ?m = "length ps1"
  have R: "length ls1 + Suc (length ls2) + length rs = ?n" "length qs = length rs" "length (bt_key pr) = 64" "length (bt_val pr) = 64"
     "\<And>j. j < ?n \<Longrightarrow> bt_key pr ! j = (ls1 @ y # ls2 @ rs) ! j"
     "\<And>j. j \<le> ?n \<Longrightarrow> bt_val pr ! j = UT ((ps1 @ x # ps2 @ pc # qs) ! j)"
     "bt_descp pr = d" "bt_innerp pr" "?n \<le> 63"
    using rep len by (auto simp: twig_rep_def node_shape_def)
  have i: "?m < ?i" "?i < 64" "?i \<le> ?n" using R(1,9) len by auto
  have "split_parent pr ?i ?m piv r = pr\<lparr>bt_key := (memmove_arr (bt_key pr) ?m (?m + 1) (?i - ?m))[?i - 1 := piv],
      bt_val := (memmove_arr (bt_val pr) ?m (?m + 1) (?i - ?m))[?i := UT r]\<rparr>"
    using i by (simp add: split_parent_def)
  moreover have "(memmove_arr (bt_key pr) ?m (?m + 1) (?i - ?m))[?i - 1 := piv] ! j = (ls1 @ ls2 @ piv # rs) ! j" if "j < ?n" for j
    using that i R(1,9) len by (subst nth_recycle_key) (auto simp: R(3) R(5) nth_append nth_Cons' Suc_diff_le)
  moreover have "(memmove_arr (bt_val pr) ?m (?m + 1) (?i - ?m))[?i := UT r] ! j = UT ((ps1 @ ps2 @ pc # r # qs) ! j)" if "j \<le> ?n" for j
    using that i R(1,9) len by (subst nth_recycle_val) (auto simp: R(4) R(6) nth_append nth_Cons' Suc_diff_le)
  ultimately show ?thesis using R i len by (simp add: twig_rep_def node_shape_def arr_simps)
qed

lemma split_parent_right:
  assumes rep: "twig_rep pr d (ls @ rs1 @ y # rs2) (ps @ pc # qs1 @ x # qs2)" and len: "length ps = length ls"
    and rs: "length rs1 = Suc (length qs1) \<or> length rs1 = length qs1 \<and> rs2 = []"
  shows "twig_rep (split_parent pr (length ps) (Suc (length ps + length qs1)) piv r) d
    (ls @ piv # rs1 @ rs2) (ps @ pc # r # qs1 @ qs2)"
proof -
  let ?i = "length ps" and ?n = "bt_n pr" and ?m = "Suc (length ps + length qs1)"
  have R: "length ls + length rs1 + Suc (length rs2) = ?n" "length qs1 + Suc (length qs2) = length rs1 + Suc (length rs2)"
     "length (bt_key pr) = 64" "length (bt_val pr) = 64"
     "\<And>j. j < ?n \<Longrightarrow> bt_key pr ! j = (ls @ rs1 @ y # rs2) ! j"
     "\<And>j. j \<le> ?n \<Longrightarrow> bt_val pr ! j = UT ((ps @ pc # qs1 @ x # qs2) ! j)"
     "bt_descp pr = d" "bt_innerp pr" "?n \<le> 63"
    using rep len by (auto simp: twig_rep_def node_shape_def)
  have i: "?i < ?m" "?m < 64" "?m \<le> ?n" using R(1,2,9) len by auto
  have "split_parent pr ?i ?m piv r = pr\<lparr>bt_key := (memmove_arr (bt_key pr) (?i + 1) ?i (?m - ?i))[?i := piv],
      bt_val := (memmove_arr (bt_val pr) (?i + 1) ?i (?m - ?i))[?i + 1 := UT r]\<rparr>"
    using i by (simp add: split_parent_def)
  moreover have "(memmove_arr (bt_key pr) (?i + 1) ?i (?m - ?i))[?i := piv] ! j = (ls @ piv # rs1 @ rs2) ! j" if "j < ?n" for j
    using that i R(1,2,9) len rs by (subst nth_insert_key) (auto simp: R(3) R(5) nth_append nth_Cons' Suc_diff_le)
  moreover have "(memmove_arr (bt_val pr) (?i + 1) ?i (?m - ?i))[?i + 1 := UT r] ! j = UT ((ps @ pc # r # qs1 @ qs2) ! j)" if "j \<le> ?n" for j
    using that i R(1,2,9) len by (subst nth_insert_val) (auto simp: R(4) R(6) nth_append nth_Cons' Suc_diff_le)
  ultimately show ?thesis using R i len by (simp add: twig_rep_def node_shape_def arr_simps)
qed

text \<open>The node that the right half goes to: a new one, or that of a child without levels, which is unlinked.\<close>

definition spare_node :: "heap \<Rightarrow> btree_s \<Rightarrow> btree_s \<Rightarrow> nat \<Rightarrow> (heap \<times> btree_t) option" where
  "spare_node h pr ch nul =
     (if nul > bt_n pr then Some (make_btree h (bt_descp ch))
      else do {
        let rght = ual_t (bt_val pr ! nul);
        rg \<leftarrow> deref h rght;
        if nul > 0 then do {
          let prev = ual_t (bt_val pr ! (nul - 1));
          pv \<leftarrow> deref h prev;
          Some (store h prev (pv\<lparr>bt_next := bt_next rg\<rparr>), rght)
        } else Some (h, rght)
      })"

lemma node_split_steps:
  assumes "deref h a = Some pr" "ual_t (bt_val pr ! i) = c" "deref h c = Some ch0" "find_free h pr 0 = Some m"
    "spare_node h pr ch0 m = Some (h1, r)" "deref h1 a = Some pr1" "deref h1 c = Some ch" "deref h1 r = Some rg"
    "a \<noteq> c" "a \<noteq> r" "c \<noteq> r"
  shows "node_split h a i = Some (store (store (store h1 a (split_parent pr1 i m (bt_key ch ! pivot) r)) r (split_right rg ch)) c (split_left ch r))"
proof -
  have lt: "a < length h1" "c < length h1" "r < length h1" using assms deref_Some_lt by blast+
  have eq: "node_split h a i = do {
     pr \<leftarrow> deref h1 a;
     let (pr, idx) =
       (if m > i then
          (pr\<lparr>bt_key := memmove_arr (bt_key pr) (i + 1) i (m - i),
             bt_val := memmove_arr (bt_val pr) (i + 1) i (m - i)\<rparr>, i)
        else if m < i then
          (pr\<lparr>bt_key := memmove_arr (bt_key pr) m (m + 1) (i - m),
             bt_val := memmove_arr (bt_val pr) m (m + 1) (i - m)\<rparr>, i - 1)
        else (pr, i));
     ch \<leftarrow> deref h1 c;
     let pr = pr\<lparr>bt_n := bt_n pr + (if m > bt_n pr then 1 else 0),
                bt_key := (bt_key pr)[idx := bt_key ch ! pivot],
                bt_val := (bt_val pr)[idx + 1 := UT r]\<rparr>;
     let h = store h1 a pr;
     rg \<leftarrow> deref h r;
     ch \<leftarrow> deref h c;
     let h = store h r (split_right rg ch);
     ch \<leftarrow> deref h c;
     Some (store h c (split_left ch r)) }"
    unfolding node_split_def using assms(1-5)
    by (simp add: spare_node_def [symmetric] Let_def split_right_def split_left_def del: pivot_31)
  show ?thesis
    unfolding eq using assms(6-11) lt by (simp add: heap_simps split_parent_def Let_def del: pivot_31)
qed

lemma ordered_drop: "ordered_entries d (A @ M @ B) \<Longrightarrow> ordered_entries d (A @ B)"
  by (auto simp: ordered_entries_append)

text \<open>Heaps that agree on the tree and outside of it, up to links.\<close>

definition same_tree :: "gtree \<Rightarrow> heap \<Rightarrow> heap \<Rightarrow> bool" where
  "same_tree T h h1 \<longleftrightarrow> same_nodes (set (addrs T)) h h1 \<and> length h \<le> length h1 \<and>
     (\<forall>x < length h. x \<notin> set (addrs T) \<longrightarrow> deref h1 x = deref h x)"

lemma same_tree_new:
  assumes "trep h d T"
  shows "same_tree T h (h @ [x])"
proof -
  have "deref (h @ [x]) b = deref h b" if "b < length h" for b using that by (simp add: deref_def nth_append)
  moreover have "b < length h" if "b \<in> set (addrs T)" for b using trep_addrs [OF assms that] deref_Some_lt by blast
  ultimately show ?thesis by (auto simp: same_tree_def same_nodes_def)
qed

lemma same_tree_store:
  assumes "b \<in> set (addrs T)" "deref h b = Some nd" "same_node nd nd'"
  shows "same_tree T h (store h b nd')"
  using assms deref_Some_lt [OF assms(2)] by (auto simp: same_tree_def same_nodes_def heap_simps)

lemma spare_recycled:
  assumes T: "trep h d (GN a ks ts)" "deref h a = Some pr" and m: "m < length ts"
  shows "\<exists>h1. spare_node h pr ch m = Some (h1, groot (ts ! m)) \<and> same_tree (GN a ks ts) h h1"
proof -
  have rep: "twig_rep pr d ks (map groot ts)" using T by auto
  then have n: "m \<le> bt_n pr" using m by (simp add: twig_rep_def)
  have ptr: "ual_t (bt_val pr ! j) = groot (ts ! j) \<and> (\<exists>nd. deref h (groot (ts ! j)) = Some nd) \<and> groot (ts ! j) \<in> set (addrs (GN a ks ts))"
    if "j \<le> m" for j
  proof -
    have "ts ! j \<in> set ts" using that m by simp
    moreover from this have "trep h d (ts ! j)" using T by auto
    ultimately show ?thesis using twig_child [OF rep, of j] that n trep_root by fastforce
  qed
  obtain rg where rg: "deref h (groot (ts ! m)) = Some rg" using ptr by blast
  show ?thesis
  proof (cases "m = 0")
    case True
    then show ?thesis using n rg ptr [of m] by (simp add: spare_node_def same_tree_def same_nodes_def)
  next
    case False
    obtain pv where pv: "deref h (groot (ts ! (m - 1))) = Some pv" using ptr [of "m - 1"] by auto
    have "same_tree (GN a ks ts) h (store h (groot (ts ! (m - 1))) (pv\<lparr>bt_next := bt_next rg\<rparr>))"
      using ptr [of "m - 1"] pv by (intro same_tree_store) auto
    then show ?thesis using False n rg pv ptr [of m] ptr [of "m - 1"] by (simp add: spare_node_def)
  qed
qed

text \<open>Everything is in place to split child \<open>c\<close>: the children kept, the separators kept, the node for the right half.\<close>

definition split_ready :: "heap \<Rightarrow> bool \<Rightarrow> gtree \<Rightarrow> gtree list \<Rightarrow> gtree \<Rightarrow> gtree list \<Rightarrow> nat \<Rightarrow> heap \<Rightarrow> btree_t \<Rightarrow>
    d64 list \<Rightarrow> d64 list \<Rightarrow> gtree list \<Rightarrow> gtree list \<Rightarrow> bool" where
  "split_ready h d T us c vs m h1 r ls' rs' us' vs' \<longleftrightarrow>
     same_tree T h h1 \<and> (\<exists>rg. deref h1 r = Some rg \<and> node_shape rg d) \<and>
     (r \<in> set (addrs T) \<or> r = length h) \<and>
     (\<forall>pr1 piv. deref h1 (groot T) = Some pr1 \<longrightarrow>
        twig_rep (split_parent pr1 (length us) m piv r) d (ls' @ piv # rs') (map groot us' @ groot c # r # map groot vs')) \<and>
     length us' = length ls' \<and> length vs' = length rs' \<and> set us' \<subseteq> set us \<and> set vs' \<subseteq> set vs \<and>
     distinct (r # groot T # concat (map addrs us') @ addrs c @ concat (map addrs vs')) \<and>
     (\<forall>A B. ordered_entries d (A @ flat T @ B) \<longrightarrow>
        ordered_entries d (A @ weave_left (map flat us') ls' @ flat c @ weave_right rs' (map flat vs') @ B)) \<and>
     concat (map glevels us') @ glevels c @ concat (map glevels vs') = glevels T"

lemma same_tree_root_rep:
  assumes "trep h d (GN a ks ts)" "same_tree (GN a ks ts) h h1" "deref h1 a = Some pr1"
  shows "twig_rep pr1 d ks (map groot ts)"
proof -
  have "trep h1 d (GN a ks ts)" using assms(1,2) trep_frame unfolding same_tree_def by blast
  then show ?thesis using assms(3) by auto
qed

lemma ready_new:
  assumes T: "trep h d T" "distinct (addrs T)" "T = GN a (ls @ rs) (us @ c # vs)" and len: "length us = length ls"
    and n: "length (ls @ rs) \<le> 62" and m: "m = length (us @ c # vs)" and pr: "deref h a = Some pr" and ch: "bt_descp ch = d"
  shows "\<exists>h1 r. spare_node h pr ch m = Some (h1, r) \<and> split_ready h d T us c vs m h1 r ls rs us vs"
proof -
  let ?h1 = "h @ [Some (new_btree d)]"
  have rep: "twig_rep pr d (ls @ rs) (map groot (us @ c # vs))" using T pr by auto
  have lens: "length vs = length rs" by (rule twig_at(3) [OF T(1,3) len])
  have "bt_n pr < m" using rep m by (simp add: twig_rep_def)
  then have sp: "spare_node h pr ch m = Some (?h1, length h)" using ch by (simp add: spare_node_def make_btree_def)
  have same: "same_tree T h ?h1" by (rule same_tree_new [OF T(1)])
  have "b < length h" if "b \<in> set (addrs T)" for b using trep_addrs [OF T(1) that] deref_Some_lt by blast
  then have "length h \<notin> set (addrs T)" by blast
  then have "distinct (length h # groot T # concat (map addrs us) @ addrs c @ concat (map addrs vs))" using T by auto
  moreover have "twig_rep (split_parent pr1 (length us) m piv (length h)) d (ls @ piv # rs) (map groot us @ groot c # length h # map groot vs)"
    if "deref ?h1 (groot T) = Some pr1" for pr1 piv
  proof -
    have "twig_rep pr1 d (ls @ rs) (map groot (us @ c # vs))"
      using same_tree_root_rep [OF T(1) [unfolded T(3)] same [unfolded T(3)], of pr1] that T(3) by simp
    then show ?thesis using split_parent_new [of pr1 d ls rs "map groot us" "groot c" "map groot vs" m piv "length h"] len n m
      by (auto simp: twig_rep_def)
  qed
  moreover note twig_at(1,2) [OF T(1,3) len]
  moreover have "deref ?h1 (length h) = Some (new_btree d) \<and> node_shape (new_btree d) d"
    by (simp add: deref_def node_shape_def new_btree_def countof_key_def)
  ultimately show ?thesis using sp same len lens unfolding split_ready_def by fastforce
qed

lemma distinct_swap: "distinct (xs @ ys @ zs) \<Longrightarrow> y \<in> set ys \<Longrightarrow> distinct (y # xs @ zs)"
  by auto

text \<open>Recycling child \<open>x\<close>, which has no levels; its addresses are distinct from those of the children kept.\<close>

lemma recycled_common:
  assumes T: "trep h d T" "T = GN a ks ts" and m: "m < length ts" and pr: "deref h a = Some pr"
  obtains h1 rg where "spare_node h pr ch m = Some (h1, groot (ts ! m))" "same_tree T h h1"
    "deref h1 (groot (ts ! m)) = Some rg" "node_shape rg d" "groot (ts ! m) \<in> set (addrs T)"
    "\<And>pr1. deref h1 (groot T) = Some pr1 \<Longrightarrow> twig_rep pr1 d ks (map groot ts)"
proof -
  obtain h1 where h1: "spare_node h pr ch m = Some (h1, groot (ts ! m))" "same_tree T h h1"
    using spare_recycled [of h d a ks ts pr m ch] T m pr by auto
  have "trep h1 d T" using T(1) h1(2) trep_frame unfolding same_tree_def by blast
  then have "trep h1 d (ts ! m)" using T(2) m by simp
  then obtain rg where "deref h1 (groot (ts ! m)) = Some rg" "node_shape rg d" using trep_root by blast
  moreover have "groot (ts ! m) \<in> set (addrs T)" using T(2) m by (auto intro: bexI [of _ "ts ! m"])
  ultimately show thesis using that h1 same_tree_root_rep [of h d a ks ts h1] T by auto
qed

lemma ready_left:
  assumes T: "trep h d T" "distinct (addrs T)" "T = GN a (ls @ rs) (us @ c # vs)" and len: "length us = length ls"
    and us: "us = us1 @ x # us2" "m = length us1" and x: "glevels x = []" and pr: "deref h a = Some pr"
  shows "\<exists>h1 r ls' us'. spare_node h pr ch m = Some (h1, r) \<and> split_ready h d T us c vs m h1 r ls' rs us' vs"
proof -
  obtain ls1 y ls2 where ls: "ls = ls1 @ y # ls2" "length us1 = length ls1" "length us2 = length ls2"
  proof -
    have "m < length ls" using us len by simp
    then have "ls = take m ls @ ls ! m # drop (Suc m) ls" by (rule id_take_nth_drop)
    then show thesis using that us len \<open>m < length ls\<close> by (metis length_take length_drop add_diff_cancel_left' length_append length_Cons
      add_Suc_right diff_Suc_Suc min.absorb4)
  qed
  have lens: "length vs = length rs" by (rule twig_at(3) [OF T(1,3) len])
  have tm: "(us @ c # vs) ! m = x" "m < length (us @ c # vs)" using us by auto
  obtain h1 rg where h1: "spare_node h pr ch m = Some (h1, groot x)" "same_tree T h h1"
    "deref h1 (groot x) = Some rg" "node_shape rg d" "groot x \<in> set (addrs T)"
    "\<And>pr1. deref h1 (groot T) = Some pr1 \<Longrightarrow> twig_rep pr1 d (ls @ rs) (map groot (us @ c # vs))"
    using recycled_common [OF T(1,3) tm(2) pr, of ch] tm(1) by metis
  have "twig_rep (split_parent pr1 (length us) m piv (groot x)) d (ls1 @ ls2 @ piv # rs) (map groot (us1 @ us2) @ groot c # groot x # map groot vs)"
    if "deref h1 (groot T) = Some pr1" for pr1 piv
    using split_parent_left [of pr1 d ls1 y ls2 rs "map groot us1" "groot x" "map groot us2" "groot c" "map groot vs" piv "groot x"]
      h1(6) [OF that] ls us by simp
  moreover have "distinct (groot x # groot T # concat (map addrs (us1 @ us2)) @ addrs c @ concat (map addrs vs))"
    using distinct_swap [of "a # concat (map addrs us1)" "addrs x" "concat (map addrs us2) @ addrs c @ concat (map addrs vs)" "groot x"]
      T(2) unfolding T(3) us by simp
  moreover have "flat T = weave_left (map flat us1) ls1 @ (flat x @ [sep y]) @ weave_left (map flat us2) ls2 @ flat c @ weave_right rs (map flat vs)"
    using twig_at(1) [OF T(1,3) len] unfolding us(1) ls(1) by (simp add: ls(2))
  then have "ordered_entries d (A @ flat T @ B) \<Longrightarrow>
      ordered_entries d (A @ weave_left (map flat (us1 @ us2)) (ls1 @ ls2) @ flat c @ weave_right rs (map flat vs) @ B)" for A B
    using ordered_drop [of d "A @ weave_left (map flat us1) ls1" "flat x @ [sep y]"] ls by simp
  moreover have "glevels T = concat (map glevels (us1 @ us2)) @ glevels c @ concat (map glevels vs)"
    using twig_at(2) [OF T(1,3) len] us(1) x by simp
  ultimately have "split_ready h d T us c vs m h1 (groot x) (ls1 @ ls2) rs (us1 @ us2) vs"
    unfolding split_ready_def using h1 ls us lens by auto
  then show ?thesis using h1(1) by blast
qed

text \<open>On the right, the separator behind the dropped child goes with it; behind the last child there is none, and the one before goes.\<close>

lemma drop_right_sep:
  assumes "length rs = length (vs1 @ x # vs2)"
  obtains rs1 y rs2 where "rs = rs1 @ y # rs2" "length rs1 = Suc (length vs1) \<or> length rs1 = length vs1 \<and> rs2 = []"
    "length (vs1 @ vs2) = length (rs1 @ rs2)"
    "\<forall>A B. ordered_entries d (A @ weave_right rs (map flat (vs1 @ x # vs2)) @ B) \<longrightarrow>
       ordered_entries d (A @ weave_right (rs1 @ rs2) (map flat (vs1 @ vs2)) @ B)"
proof -
  obtain ss z ts where rs: "rs = ss @ z # ts" "length ss = length vs1" "length ts = length vs2"
  proof -
    have m: "length vs1 < length rs" using assms by simp
    have "rs = take (length vs1) rs @ rs ! length vs1 # drop (Suc (length vs1)) rs" by (rule id_take_nth_drop [OF m])
    then show thesis using that [of "take (length vs1) rs" "rs ! length vs1" "drop (Suc (length vs1)) rs"] assms by simp
  qed
  show thesis
  proof (cases ts)
    case Nil
    then have "vs2 = []" using rs(3) by simp
    moreover have "ordered_entries d (A @ weave_right ss (map flat vs1) @ B)"
      if "ordered_entries d (A @ weave_right rs (map flat (vs1 @ [x])) @ B)" for A B
      using ordered_drop [of d "A @ weave_right ss (map flat vs1)" "sep z # flat x" B] that rs Nil by simp
    ultimately show thesis using that [of ss z "[]"] rs Nil by simp
  next
    case (Cons y rs2)
    then obtain v vs3 where vs2: "vs2 = v # vs3" using rs(3) by (cases vs2) auto
    have "ordered_entries d (A @ weave_right ((ss @ [z]) @ rs2) (map flat (vs1 @ vs2)) @ B)"
      if "ordered_entries d (A @ weave_right rs (map flat (vs1 @ x # vs2)) @ B)" for A B
      using ordered_drop [of d "A @ weave_right ss (map flat vs1) @ [sep z]" "flat x @ [sep y]" "flat v @ weave_right rs2 (map flat vs3) @ B"]
        that rs Cons vs2 by simp
    then show thesis using that [of "ss @ [z]" y rs2] rs Cons vs2 by simp
  qed
qed

lemma ready_right:
  assumes T: "trep h d T" "distinct (addrs T)" "T = GN a (ls @ rs) (us @ c # vs)" and len: "length us = length ls"
    and vs: "vs = vs1 @ x # vs2" "m = Suc (length us + length vs1)" and x: "glevels x = []" and pr: "deref h a = Some pr"
  shows "\<exists>h1 r rs' vs'. spare_node h pr ch m = Some (h1, r) \<and> split_ready h d T us c vs m h1 r ls rs' us vs'"
proof -
  note at = twig_at [OF T(1,3) len]
  have lrs: "length rs = length (vs1 @ x # vs2)" using at(3) vs(1) by simp
  obtain rs1 y rs2 where rs: "rs = rs1 @ y # rs2"
    "length rs1 = Suc (length vs1) \<or> length rs1 = length vs1 \<and> rs2 = []" "length (vs1 @ vs2) = length (rs1 @ rs2)"
    "\<forall>A B. ordered_entries d (A @ weave_right rs (map flat vs) @ B) \<longrightarrow>
       ordered_entries d (A @ weave_right (rs1 @ rs2) (map flat (vs1 @ vs2)) @ B)"
    unfolding vs(1) by (rule drop_right_sep [OF lrs, where d = d])
  have tm: "(us @ c # vs) ! m = x" "m < length (us @ c # vs)" using vs by (auto simp: nth_append)
  obtain h1 rg where h1: "spare_node h pr ch m = Some (h1, groot x)" "same_tree T h h1"
    "deref h1 (groot x) = Some rg" "node_shape rg d" "groot x \<in> set (addrs T)"
    "\<And>pr1. deref h1 (groot T) = Some pr1 \<Longrightarrow> twig_rep pr1 d (ls @ rs) (map groot (us @ c # vs))"
    using recycled_common [OF T(1,3) tm(2) pr, of ch] tm(1) by metis
  have "twig_rep (split_parent pr1 (length us) m piv (groot x)) d (ls @ piv # rs1 @ rs2) (map groot us @ groot c # groot x # map groot (vs1 @ vs2))"
    if "deref h1 (groot T) = Some pr1" for pr1 piv
    using split_parent_right [of pr1 d ls rs1 y rs2 "map groot us" "groot c" "map groot vs1" "groot x" "map groot vs2" piv "groot x"]
      h1(6) [OF that] rs(1,2) vs len by simp
  moreover have "distinct (groot x # groot T # concat (map addrs us) @ addrs c @ concat (map addrs (vs1 @ vs2)))"
    using distinct_swap [of "a # concat (map addrs us) @ addrs c @ concat (map addrs vs1)" "addrs x" "concat (map addrs vs2)" "groot x"]
      T(2) unfolding T(3) vs by simp
  moreover have "ordered_entries d (A @ flat T @ B) \<Longrightarrow>
      ordered_entries d (A @ weave_left (map flat us) ls @ flat c @ weave_right (rs1 @ rs2) (map flat (vs1 @ vs2)) @ B)" for A B
    using rs(4) [THEN spec, THEN spec, of "A @ weave_left (map flat us) ls @ flat c" B] unfolding at(1) by simp
  moreover have "glevels T = concat (map glevels us) @ glevels c @ concat (map glevels (vs1 @ vs2))"
    using at(2) vs(1) x by simp
  ultimately have "split_ready h d T us c vs m h1 (groot x) ls (rs1 @ rs2) us (vs1 @ vs2)"
    unfolding split_ready_def using h1 len rs(3) vs by auto
  then show ?thesis using h1(1) by blast
qed

lemma ready:
  assumes T: "trep h d T" "distinct (addrs T)" "T = GN a (ls @ rs) (us @ c # vs)" and len: "length us = length ls"
    and n: "length (ls @ rs) \<le> 62" and c: "glevels c \<noteq> []" and pr: "deref h a = Some pr" and ch: "bt_descp ch = d"
  shows "\<exists>m h1 r ls' rs' us' vs'. find_free h pr 0 = Some m \<and> spare_node h pr ch m = Some (h1, r) \<and>
    split_ready h d T us c vs m h1 r ls' rs' us' vs'"
proof -
  have "twig_rep pr d (ls @ rs) (map groot (us @ c # vs))" using T pr by auto
  then obtain m where m: "find_free h pr 0 = Some m" "m \<le> length (us @ c # vs)"
     "m < length (us @ c # vs) \<longrightarrow> glevels ((us @ c # vs) ! m) = []"
    using find_free_spec [OF T(1) [unfolded T(3)] pr] by blast
  consider (new) "m = length (us @ c # vs)" | (left) "m < length us" | (self) "m = length us"
    | (right) "length us < m" "m < length (us @ c # vs)" using m(2) by linarith
  then show ?thesis
  proof cases
    case new
    then show ?thesis using ready_new [OF T len n new pr ch] m(1) by blast
  next
    case left
    have us: "us = take m us @ us ! m # drop (Suc m) us" "m = length (take m us)" "glevels (us ! m) = []"
      using id_take_nth_drop [OF left] m(3) left by (simp_all add: nth_append)
    show ?thesis using ready_left [OF T len us pr, of ch] m(1) by blast
  next
    case self
    then show ?thesis using m(3) c by simp
  next
    case right
    let ?j = "m - Suc (length us)"
    have j: "?j < length vs" using right by simp
    have vs: "vs = take ?j vs @ vs ! ?j # drop (Suc ?j) vs" "m = Suc (length us + length (take ?j vs))" "glevels (vs ! ?j) = []"
      using id_take_nth_drop [OF j] m(3) right j by (simp_all add: nth_append)
    show ?thesis using ready_right [OF T len vs pr, of ch] m(1) by blast
  qed
qed

text \<open>A tree changes in place: same root, same levels, new nodes only, nothing outside touched.\<close>

definition becomes :: "heap \<Rightarrow> bool \<Rightarrow> gtree \<Rightarrow> heap \<Rightarrow> gtree \<Rightarrow> bool" where
  "becomes h d T h' T' \<longleftrightarrow> groot T' = groot T \<and> trep h' d T' \<and> distinct (addrs T') \<and> glevels T' = glevels T \<and>
     length h \<le> length h' \<and> set (addrs T') \<subseteq> set (addrs T) \<union> {length h..<length h'} \<and>
     (\<forall>x < length h. x \<notin> set (addrs T) \<longrightarrow> deref h' x = deref h x)"

lemma trep_sub: "trep h d T \<Longrightarrow> t \<in> set (gkids T) \<Longrightarrow> trep h d t"
  by (cases T) auto

lemma halves_addrs:
  assumes "distinct (addrs T)" "r \<notin> set (addrs T)"
  shows "distinct (addrs (gleft (groot T) T) @ addrs (gright r T))"
    "set (addrs (gleft (groot T) T)) \<union> set (addrs (gright r T)) = insert r (set (addrs T))"
proof -
  have both: "distinct (addrs (gleft (groot T) T) @ addrs (gright r T)) \<and>
    set (addrs (gleft (groot T) T)) \<union> set (addrs (gright r T)) = insert r (set (addrs T))"
  proof (cases T)
    case (GN a ks ts)
    have cc: "concat (map addrs ts) = concat (map addrs (take 32 ts)) @ concat (map addrs (drop 32 ts))"
      by (simp flip: concat_append map_append)
    then have "distinct (a # concat (map addrs (take 32 ts)) @ concat (map addrs (drop 32 ts)))"
       "r \<notin> set (a # concat (map addrs (take 32 ts)) @ concat (map addrs (drop 32 ts)))"
      using assms GN by simp_all
    moreover have "set (addrs T) = set (a # concat (map addrs (take 32 ts)) @ concat (map addrs (drop 32 ts)))"
      unfolding GN addrs.simps cc by simp
    ultimately show ?thesis unfolding GN gleft.simps gright.simps addrs.simps groot.simps by auto
  qed (use assms in simp)
  then show "distinct (addrs (gleft (groot T) T) @ addrs (gright r T))"
    "set (addrs (gleft (groot T) T)) \<union> set (addrs (gright r T)) = insert r (set (addrs T))" by blast+
qed

lemma trep_same_cells: "trep h d T \<Longrightarrow> (\<And>x. x \<in> set (addrs T) \<Longrightarrow> deref h' x = deref h x) \<Longrightarrow> trep h' d T"
  by (rule trep_frame) (auto simp: same_nodes_def)

lemma trep_split:
  assumes c: "trep h1 d c" "gcount c = 63" "distinct (addrs c)" and kept: "\<forall>t \<in> set (us' @ vs'). trep h1 d t"
    and rg: "deref h1 r = Some rg" "node_shape rg d" and ch: "deref h1 (groot c) = Some ch"
    and pr: "a < length h1" "twig_rep pr' d (ls' @ piv # rs') (map groot us' @ groot c # r # map groot vs')"
    and dist: "distinct (r # a # concat (map addrs us') @ addrs c @ concat (map addrs vs'))"
  defines "h' \<equiv> store (store (store h1 a pr') r (split_right rg ch)) (groot c) (split_left ch r)"
  shows "trep h' d (GN a (ls' @ piv # rs') (us' @ gleft (groot c) c # gright r c # vs'))"
proof -
  have lt: "r < length h1" "groot c < length h1" using rg(1) ch deref_Some_lt by blast+
  have ne: "groot c \<noteq> a" "groot c \<noteq> r" "r \<noteq> a" using dist groot_addrs [of c] by auto
  have get: "deref h' x = (if x = groot c then Some (split_left ch r) else if x = r then Some (split_right rg ch)
      else if x = a then Some pr' else deref h1 x)" for x
    using lt pr(1) by (simp add: h'_def heap_simps)
  have kept': "trep h' d t" if "t \<in> set us' \<union> set vs'" for t
  proof (rule trep_same_cells [of h1])
    show "trep h1 d t" using that kept by auto
    let ?S = "set (concat (map addrs us')) \<union> set (concat (map addrs vs'))"
    have "set (addrs c) \<inter> ?S = {}" "r \<notin> ?S" "a \<notin> ?S" using dist by auto
    then have "groot c \<notin> ?S" "r \<notin> ?S" "a \<notin> ?S" using groot_addrs [of c] by blast+
    moreover have "set (addrs t) \<subseteq> ?S" using that by auto
    ultimately show "deref h' x = deref h1 x" if "x \<in> set (addrs t)" for x using that by (auto simp: get)
  qed
  have kids: "trep h' d t" if "t \<in> set (gkids c)" for t
  proof (rule trep_same_cells [of h1])
    show "trep h1 d t" using trep_sub [OF c(1) that] .
    have "groot c \<notin> set (addrs t)" "set (addrs t) \<subseteq> set (addrs c)" using c(3) that by (cases c; auto)+
    then show "deref h' x = deref h1 x" if "x \<in> set (addrs t)" for x
      using dist that by (auto simp: get)
  qed
  obtain ch' where "deref h1 (groot c) = Some ch'" "node_shape ch' d" using trep_root [OF c(1)] by blast
  then have sh: "node_shape ch d" using ch by simp
  have "trep h' d (gleft (groot c) c)"
    by (rule left_like_rep [OF c(1) ch c(2) _ split_left_like [OF sh]]) (use kids in \<open>simp_all add: get\<close>)
  moreover have "trep h' d (gright r c)"
    by (rule right_like_rep [OF c(1) ch c(2) _ split_right_like [OF sh rg(2)]]) (use kids ne in \<open>simp_all add: get\<close>)
  moreover have "groot (gleft (groot c) c) = groot c" "groot (gright r c) = r" by (cases c; simp)+
  ultimately show ?thesis using kept' pr(2) ne by (auto simp: get)
qed

text \<open>The new parent: child \<open>c\<close> is replaced by its halves.\<close>

abbreviation split_tree :: "btree_t \<Rightarrow> d64 list \<Rightarrow> d64 list \<Rightarrow> gtree list \<Rightarrow> gtree \<Rightarrow> btree_t \<Rightarrow> gtree list \<Rightarrow> gtree" where
  "split_tree a ls rs us c r vs \<equiv> GN a (ls @ gpivot c # rs) (us @ gleft (groot c) c # gright r c # vs)"

lemma split_tree_addrs:
  assumes "distinct (r # a # concat (map addrs us) @ addrs c @ concat (map addrs vs))"
  shows "distinct (addrs (split_tree a ls rs us c r vs))"
    "set (addrs (split_tree a ls rs us c r vs)) = set (r # a # concat (map addrs us) @ addrs c @ concat (map addrs vs))"
proof -
  have dc: "distinct (addrs c)" "r \<notin> set (addrs c)" using assms by auto
  have ad: "addrs (split_tree a ls rs us c r vs) =
      a # concat (map addrs us) @ (addrs (gleft (groot c) c) @ addrs (gright r c)) @ concat (map addrs vs)" by simp
  have st: "set (addrs (gleft (groot c) c) @ addrs (gright r c)) = insert r (set (addrs c))" using halves_addrs(2) [OF dc] by simp
  show "distinct (addrs (split_tree a ls rs us c r vs))"
    using assms halves_addrs(1) [OF dc] st unfolding ad by (simp only: distinct.simps distinct_append set_append set_simps) auto
  show "set (addrs (split_tree a ls rs us c r vs)) = set (r # a # concat (map addrs us) @ addrs c @ concat (map addrs vs))"
    using st unfolding ad by (simp only: set_append set_simps) auto
qed

lemma split_tree_flat:
  assumes c: "gcount c = 63" "trep h d c" and len: "length us = length ls" "length vs = length rs"
  shows "ordered_entries d (A @ weave_left (map flat us) ls @ flat c @ weave_right rs (map flat vs) @ B) \<Longrightarrow>
      ordered_entries d (A @ flat (split_tree a ls rs us c r vs) @ B)"
    and "glevels (split_tree a ls rs us c r vs) = concat (map glevels us) @ glevels c @ concat (map glevels vs)"
proof -
  have fl: "flat (split_tree a ls rs us c r vs) =
      weave_left (map flat us) ls @ flat (gleft (groot c) c) @ sep (gpivot c) # flat (gright r c) @ weave_right rs (map flat vs)"
    using len by (simp add: weave_at)
  show "ordered_entries d (A @ weave_left (map flat us) ls @ flat c @ weave_right rs (map flat vs) @ B) \<Longrightarrow>
      ordered_entries d (A @ flat (split_tree a ls rs us c r vs) @ B)"
    using flat_halves(1) [OF c, of "A @ weave_left (map flat us) ls" "weave_right rs (map flat vs) @ B" "groot c" r] unfolding fl by simp
  have "glevels (split_tree a ls rs us c r vs) =
      concat (map glevels us) @ (glevels (gleft (groot c) c) @ glevels (gright r c)) @ concat (map glevels vs)"
    using len unfolding flat.simps by (subst entry_levels_weave) (simp_all add: o_def)
  then show "glevels (split_tree a ls rs us c r vs) = concat (map glevels us) @ glevels c @ concat (map glevels vs)"
    unfolding flat_halves(2) [OF c] .
qed

text \<open>The effect of \<open>node_split\<close>: a child without levels may be gone, and the list of entries stays in order.\<close>

lemma node_split_spec:
  assumes T: "trep h d T" "distinct (addrs T)" "T = GN a (ls @ rs) (us @ c # vs)" and len: "length us = length ls"
    and n: "length (ls @ rs) \<le> 62" and c: "gcount c = 63" "glevels c \<noteq> []"
  shows "\<exists>h' r ls' rs' us' vs'. node_split h a (length us) = Some h' \<and> set us' \<subseteq> set us \<and> set vs' \<subseteq> set vs \<and>
     length us' = length ls' \<and> becomes h d T h' (split_tree a ls' rs' us' c r vs') \<and>
     (\<forall>A B. ordered_entries d (A @ flat T @ B) \<longrightarrow> ordered_entries d (A @ flat (split_tree a ls' rs' us' c r vs') @ B))"
proof -
  obtain pr where pr: "deref h a = Some pr" "bt_val pr ! length us = UT (groot c)" and cr: "trep h d c"
    using trep_twig [OF T(1) [unfolded T(3)]] by metis
  obtain ch0 where ch0: "deref h (groot c) = Some ch0" "node_shape ch0 d" using trep_root [OF cr] by blast
  obtain m h1 r ls' rs' us' vs' where rd: "find_free h pr 0 = Some m" "spare_node h pr ch0 m = Some (h1, r)"
     "split_ready h d T us c vs m h1 r ls' rs' us' vs'"
    using ready [OF T len n c(2) pr(1), of ch0] ch0(2) by (auto simp: node_shape_def)
  note R = rd(3) [unfolded split_ready_def]
  have same: "same_tree T h h1" and sub: "set us' \<subseteq> set us" "set vs' \<subseteq> set vs" "length us' = length ls'" "length vs' = length rs'"
    and dist: "distinct (r # a # concat (map addrs us') @ addrs c @ concat (map addrs vs'))" using R T(3) by auto
  obtain rg where rg: "deref h1 r = Some rg" "node_shape rg d" using R by blast
  have T1: "trep h1 d T" using T(1) same trep_frame unfolding same_tree_def by blast
  then obtain pr1 where pr1: "deref h1 a = Some pr1" and c1: "trep h1 d c" using T(3) by auto
  obtain ch where ch: "deref h1 (groot c) = Some ch" using trep_root [OF c1] by blast
  have ne: "a \<noteq> groot c" "a \<noteq> r" "groot c \<noteq> r" using dist groot_addrs [of c] by auto
  let ?h' = "store (store (store h1 a (split_parent pr1 (length us) m (gpivot c) r)) r (split_right rg ch)) (groot c) (split_left ch r)"
  let ?T' = "split_tree a ls' rs' us' c r vs'"
  have st: "node_split h a (length us) = Some ?h'"
    using node_split_steps [OF pr(1) _ ch0(1) rd(1,2) pr1 ch rg(1) ne] pr(2) pivot_key [OF c1 ch c(1)] by simp
  have "twig_rep (split_parent pr1 (length us) m (gpivot c) r) d (ls' @ gpivot c # rs') (map groot us' @ groot c # r # map groot vs')"
    using R pr1 T(3) by simp
  then have "trep ?h' d ?T'"
    using sub T1 T(3) dist by (intro trep_split [OF c1 c(1) _ _ rg ch deref_Some_lt [OF pr1]]) auto
  moreover have "deref ?h' x = deref h x" if x: "x < length h" "x \<notin> set (addrs T)" for x
  proof -
    have "x \<noteq> a" "x \<noteq> groot c" "x \<noteq> r" using x R T(3) groot_addrs [of c] by auto
    then show ?thesis using x same deref_Some_lt [OF pr1] deref_Some_lt [OF ch] deref_Some_lt [OF rg(1)]
      by (simp add: heap_simps same_tree_def)
  qed
  moreover have "set (addrs ?T') \<subseteq> set (addrs T) \<union> {length h..<length ?h'}" "length h \<le> length h1"
    using split_tree_addrs(2) [OF dist, of ls' rs'] R sub(1,2) T(3) deref_Some_lt [OF rg(1)] by (auto simp: same_tree_def)
  moreover have "glevels ?T' = glevels T"
    unfolding split_tree_flat(2) [OF c(1) c1 sub(3,4)] using R by blast
  ultimately have "becomes h d T ?h' ?T'"
    using split_tree_addrs(1) [OF dist, of ls' rs'] T(3) unfolding becomes_def by simp
  moreover have "\<forall>A B. ordered_entries d (A @ flat T @ B) \<longrightarrow> ordered_entries d (A @ flat ?T' @ B)"
    using split_tree_flat(1) [OF c(1) c1 sub(3,4)] R by blast
  ultimately show ?thesis using st sub by blast
qed

end
