(* ===== verification/Btree_Tree.thy ===== *)
theory Btree_Tree
  imports Btree_Split
begin

text \<open>
  Insertion, lookup and removal in trees of any height: \<open>twig_add\<close> and \<open>root_split\<close>, the invariant \<open>tree_ok\<close> of
  \<open>btree_put\<close>, the levels of a tree by price, and the one case in which a level is lost.
\<close>

subsection \<open>Insertion\<close>

text \<open>The step that \<open>btree_put\<close> and \<open>twig_add\<close> share: into a leaf or further down.\<close>

definition node_add :: "heap \<Rightarrow> btree_t \<Rightarrow> d64 \<Rightarrow> (heap \<times> val_ptr \<times> bool) option" where
  "node_add h t k = do {
     nd \<leftarrow> deref h t;
     if \<not> bt_innerp nd
     then (case leaf_add nd k of (nd', j, sp) \<Rightarrow> Some (store h t nd', (t, j), sp))
     else twig_add h t k
   }"

lemma twig_add_step:
  "twig_add h t k = do {
     nd \<leftarrow> deref h t;
     (h, r, splitp) \<leftarrow> node_add h (ual_t (bt_val nd ! key_index nd k)) k;
     h \<leftarrow> (if splitp then node_split h t (key_index nd k) else Some h);
     nd \<leftarrow> deref h t;
     Some (h, r, bt_n nd \<ge> 63)
   }"
  by (subst twig_add.simps) (auto simp: node_add_def Let_def countof_key_def split: Option.bind_splits prod.splits)

fun small :: "gtree \<Rightarrow> bool" where
  "small (GL a xs) \<longleftrightarrow> length xs \<le> 62"
| "small (GN a ks ts) \<longleftrightarrow> length ks \<le> 62 \<and> (\<forall>t \<in> set ts. small t)"

text \<open>No leaf is about to be split.\<close>

fun slack :: "gtree \<Rightarrow> bool" where
  "slack (GL a xs) \<longleftrightarrow> length xs \<le> 61"
| "slack (GN a ks ts) \<longleftrightarrow> (\<forall>t \<in> set ts. slack t)"

lemma trep_count: "trep h d T \<Longrightarrow> deref h (groot T) = Some nd \<Longrightarrow> bt_n nd = gcount T \<and> gcount T \<le> 63 \<and> bt_innerp nd = (\<not> is_leaf T)"
  by (cases T) (auto simp: leaf_rep_def twig_rep_def node_shape_def)

lemma trep_bound: "trep h d T \<Longrightarrow> x \<in> set (addrs T) \<Longrightarrow> x < length h"
  using trep_addrs deref_Some_lt by blast

lemma becomes_addr:
  assumes "becomes h d T h' T'" "x \<in> set (addrs T')"
  shows "x \<in> set (addrs T) \<or> length h \<le> x \<and> x < length h'"
proof -
  have "set (addrs T') \<subseteq> set (addrs T) \<union> {length h..<length h'}" using assms(1) unfolding becomes_def by blast
  then show ?thesis using assms(2) by auto
qed

lemma distinct_replace:
  "distinct (xs @ ys @ zs) \<Longrightarrow> distinct ys' \<Longrightarrow> (\<And>y. y \<in> set ys' \<Longrightarrow> y \<in> set ys \<or> y \<notin> set (xs @ zs)) \<Longrightarrow> distinct (xs @ ys' @ zs)"
  by auto

lemma becomes_trans:
  assumes "becomes h d T h1 T1" "becomes h1 d T1 h2 T2"
  shows "becomes h d T h2 T2"
proof -
  have "deref h2 x = deref h x" if x: "x < length h" "x \<notin> set (addrs T)" for x
  proof -
    have "x < length h1" "x \<notin> set (addrs T1)" using x assms(1) unfolding becomes_def by auto
    then show ?thesis using x assms by (simp add: becomes_def)
  qed
  moreover have "length h \<le> length h1" "length h1 \<le> length h2" using assms by (auto simp: becomes_def)
  then have "set (addrs T2) \<subseteq> set (addrs T) \<union> {length h..<length h2}"
    using becomes_addr [OF assms(1)] becomes_addr [OF assms(2)] by fastforce
  ultimately show ?thesis using assms unfolding becomes_def by simp
qed

lemma becomes_child:
  assumes c: "becomes h d c h1 c'" and T: "trep h d (GN a ks (us @ c # vs))" "distinct (addrs (GN a ks (us @ c # vs)))"
  shows "becomes h d (GN a ks (us @ c # vs)) h1 (GN a ks (us @ c' # vs))"
proof -
  let ?T = "GN a ks (us @ c # vs)" and ?T' = "GN a ks (us @ c' # vs)"
  have out: "deref h1 x = deref h x" if "x \<in> set (addrs ?T)" "x \<notin> set (addrs c)" for x
    using c that trep_bound [OF T(1)] unfolding becomes_def by blast
  have "trep h1 d t" if "t \<in> set us \<union> set vs" for t
  proof (rule trep_same_cells [of h])
    show "trep h d t" using T(1) that by auto
    show "deref h1 x = deref h x" if x: "x \<in> set (addrs t)" for x
      using T(2) \<open>t \<in> _\<close> x by (intro out) auto
  qed
  moreover have "deref h1 a = deref h a" using T(2) by (intro out) auto
  ultimately have rep: "trep h1 d ?T'" using c T(1) by (auto simp: becomes_def)
  have "y \<in> set (addrs c) \<or> y \<notin> set (addrs ?T)" if "y \<in> set (addrs c')" for y
    using becomes_addr [OF c that] trep_bound [OF T(1), of y] by linarith
  then have new: "y \<in> set (addrs c) \<or> y \<notin> set ((a # concat (map addrs us)) @ concat (map addrs vs))" if "y \<in> set (addrs c')" for y
    using that by auto
  have "distinct (addrs c')" "distinct ((a # concat (map addrs us)) @ addrs c @ concat (map addrs vs))"
    using c T(2) by (simp_all add: becomes_def)
  then have "distinct ((a # concat (map addrs us)) @ addrs c' @ concat (map addrs vs))"
    using new distinct_replace [of "a # concat (map addrs us)" "addrs c" "concat (map addrs vs)" "addrs c'"] by blast
  then have "distinct (addrs ?T')" by simp
  moreover have "glevels ?T' = glevels ?T"
    using glevels_twig [OF T(1)] glevels_twig [OF rep] c by (simp add: becomes_def del: flat.simps)
  moreover have "deref h1 x = deref h x" if "x < length h" "x \<notin> set (addrs ?T)" for x
    using c that unfolding becomes_def by auto
  moreover have "set (addrs ?T') \<subseteq> set (addrs ?T) \<union> {length h..<length h1}" using becomes_addr [OF c] by fastforce
  moreover have "length h \<le> length h1" using c by (simp add: becomes_def)
  ultimately show ?thesis using rep unfolding becomes_def by simp
qed

text \<open>The leaves of a tree.\<close>

fun gleaf :: "gtree \<Rightarrow> btree_t \<Rightarrow> bool" where
  "gleaf (GL a xs) b \<longleftrightarrow> b = a"
| "gleaf (GN a ks ts) b \<longleftrightarrow> (\<exists>t \<in> set ts. gleaf t b)"

lemma gleaf_halves: "gleaf c b \<Longrightarrow> gleaf (gleft (groot c) c) b \<or> gleaf (gright r c) b"
proof (cases c)
  case (GN a ks ts)
  have "set ts = set (take 32 ts) \<union> set (drop 32 ts)" by (metis append_take_drop_id set_append)
  then show "gleaf c b \<Longrightarrow> ?thesis" using GN by auto
qed auto

lemma gslot_halves:
  assumes "gslot c q x"
  shows "\<exists>q'. (gslot (gleft (groot c) c) q' x \<or> gslot (gright r c) q' x) \<and> (\<not> is_leaf c \<or> snd q < 32 \<longrightarrow> q' = q)"
proof (cases c)
  case (GL a xs)
  show ?thesis
  proof (cases "snd q < 32")
    case True
    then show ?thesis using assms GL by (intro exI [of _ q]) auto
  next
    case False
    then show ?thesis using assms GL by (intro exI [of _ "(r, snd q - 32)"]) auto
  qed
next
  case (GN a ks ts)
  have "set ts = set (take 32 ts) \<union> set (drop 32 ts)" by (metis append_take_drop_id set_append)
  then show ?thesis using assms GN by (intro exI [of _ q]) auto
qed

text \<open>
  What an insertion below a node does: the key has a slot now, and the pointer handed out is the one to it, unless
  a leaf was split at the time and the slot was in its upper half. In any case it points into a leaf.
\<close>

definition added :: "heap \<Rightarrow> bool \<Rightarrow> d64 \<Rightarrow> gtree \<Rightarrow> heap \<Rightarrow> val_ptr \<Rightarrow> bool \<Rightarrow> gtree \<Rightarrow> bool" where
  "added h d k T h' p sp T' \<longleftrightarrow> becomes h d T h' T' \<and> is_leaf T' = is_leaf T \<and> (\<forall>t \<in> set (gkids T'). small t) \<and>
     (is_leaf T \<longrightarrow> gcount T' \<le> Suc (gcount T)) \<and> (sp \<longleftrightarrow> gcount T' = 63) \<and> (sp \<longrightarrow> glevels T \<noteq> []) \<and>
     (\<forall>A B. around d k A B \<longrightarrow> ordered_entries d (A @ flat T @ B) \<longrightarrow> ordered_entries d (A @ flat T' @ B)) \<and>
     (\<exists>q x. gslot T' q x \<and> deq k (fst x) \<and> (is_leaf T \<or> snd p < 32 \<or> slack T \<longrightarrow> q = p)) \<and>
     gleaf T' (fst p) \<and> snd p < 64"

lemma add_leaf:
  assumes T: "trep h d (GL a xs)" "ordered_entries d (map slot xs)" "length xs \<le> 62" and k: "\<not> isnand64 k"
  shows "\<exists>h' p sp T'. node_add h a k = Some (h', p, sp) \<and> added h d k (GL a xs) h' p sp T'"
proof -
  obtain nd where nd: "deref h a = Some nd" "leaf_rep nd d xs" using T(1) by auto
  obtain nd' s sp where add: "leaf_add nd k = (nd', s, sp)" by (rule prod_cases3)
  define ys where "ys = slots nd'"
  let ?h' = "store h a nd'"
  note L = leaf_insert [OF nd(2) T(2) k T(3) add, folded ys_def]
  have a: "a < length h" using nd(1) by (rule deref_Some_lt)
  have "becomes h d (GL a xs) ?h' (GL a ys)"
    using L(1,5) a by (auto simp: becomes_def heap_simps entry_levels_slots)
  moreover have "ordered_entries d (A @ map slot ys @ B)"
    if ab: "around d k A B" "ordered_entries d (A @ map slot xs @ B)" for A B
  proof -
    have "ebefore d x (slot y)" if "x \<in> set A" "y \<in> set ys" for x y
      using L(10) [OF that(2)] ab that(1) unfolding ordered_entries_append around_def by auto
    moreover have "ebefore d (slot y) x" if "x \<in> set B" "y \<in> set ys" for x y
      using L(10) [OF that(2)] ab that(1) unfolding ordered_entries_append around_def by auto
    ultimately show ?thesis using ab(2) L(2) unfolding ordered_entries_append by auto
  qed
  moreover have "gslot (GL a ys) (a, s) (ys ! s)" "deq k (fst (ys ! s))" using L(3,4) by auto
  moreover have "s < 64" using L(1,3) by (auto simp: leaf_rep_def node_shape_def)
  ultimately have "added h d k (GL a xs) ?h' (a, s) sp (GL a ys)"
    using L(6,8,9) unfolding added_def by (auto simp: entry_levels_slots)
  moreover have "node_add h a k = Some (?h', (a, s), sp)"
    using nd(1) add leaf_repD(2) [OF nd(2)] by (simp add: node_add_def)
  ultimately show ?thesis by blast
qed

lemma around_append: "around d k A B \<Longrightarrow> around d k A' B' \<Longrightarrow> around d k (A @ A') (B' @ B)"
  by (auto simp: around_def)

lemma halves_small:
  assumes "gcount c = 63" "\<forall>t \<in> set (gkids c). small t"
  shows "small (gleft l c)" "small (gright r c)"
  using assms by (cases c; auto dest: in_set_takeD in_set_dropD)+

lemma split_slots:
  assumes "gslot c q x"
  shows "\<exists>q'. gslot (split_tree a ls rs us c r vs) q' x \<and> (\<not> is_leaf c \<or> snd q < 32 \<longrightarrow> q' = q)"
  using gslot_halves [OF assms, of r] by auto

text \<open>The second half of \<open>twig_add\<close>: the child was added to, and is split if it is full.\<close>

lemma add_twig_split:
  assumes T: "trep h1 d T1" "distinct (addrs T1)" "T1 = GN a (ls @ rs) (us @ c' # vs)" "length us = length ls" "length (ls @ rs) \<le> 62"
    and c: "gcount c' = 63" "glevels c' \<noteq> []" and sm: "\<forall>t \<in> set us \<union> set vs \<union> set (gkids c'). small t"
    and q: "gslot c' q x"
  shows "\<exists>h2 T2 q'. node_split h1 a (length us) = Some h2 \<and> becomes h1 d T1 h2 T2 \<and> \<not> is_leaf T2 \<and> (\<forall>t \<in> set (gkids T2). small t) \<and>
    (\<forall>A B. ordered_entries d (A @ flat T1 @ B) \<longrightarrow> ordered_entries d (A @ flat T2 @ B)) \<and>
    gslot T2 q' x \<and> (\<not> is_leaf c' \<or> snd q < 32 \<longrightarrow> q' = q) \<and> (\<forall>b. gleaf c' b \<longrightarrow> gleaf T2 b)"
proof -
  obtain h2 r ls' rs' us' vs' where sp: "node_split h1 a (length us) = Some h2" "set us' \<subseteq> set us" "set vs' \<subseteq> set vs"
     "becomes h1 d T1 h2 (split_tree a ls' rs' us' c' r vs')"
     "\<forall>A B. ordered_entries d (A @ flat T1 @ B) \<longrightarrow> ordered_entries d (A @ flat (split_tree a ls' rs' us' c' r vs') @ B)"
    using node_split_spec [OF T c] by blast
  obtain q' where "gslot (split_tree a ls' rs' us' c' r vs') q' x" "\<not> is_leaf c' \<or> snd q < 32 \<longrightarrow> q' = q"
    using split_slots [OF q] by blast
  moreover have "\<forall>t \<in> set (gkids (split_tree a ls' rs' us' c' r vs')). small t"
    using sm sp(2,3) halves_small [OF c(1)] by auto
  moreover have "gleaf (split_tree a ls' rs' us' c' r vs') b" if "gleaf c' b" for b
    using gleaf_halves [OF that, of r] by auto
  ultimately show ?thesis using sp by (intro exI [of _ h2] exI [of _ "split_tree a ls' rs' us' c' r vs'"] exI [of _ q']) simp
qed

lemma small_iff: "small T \<longleftrightarrow> gcount T \<le> 62 \<and> (\<forall>t \<in> set (gkids T). small t)"
  by (cases T) auto

lemma gcount_le: "trep h d T \<Longrightarrow> gcount T \<le> 63"
  by (cases T) (auto simp: leaf_rep_def twig_rep_def node_shape_def)

text \<open>The first half: the search enters child \<open>c\<close>, and the insertion below it is an insertion below the node.\<close>

lemma add_child:
  assumes T: "trep h d T" "distinct (addrs T)" "T = GN a (ls @ rs) (us @ c # vs)" "length us = length ls" "small T"
    and ad: "added h d k c h1 p sp c'" and ar: "around d k (weave_left (map flat us) ls) (weave_right rs (map flat vs))"
  defines "T1 \<equiv> GN a (ls @ rs) (us @ c' # vs)"
  shows "becomes h d T h1 T1"
    "\<forall>t \<in> set us \<union> set vs \<union> set (gkids c'). small t" "\<not> sp \<longrightarrow> small c'"
    "\<forall>A B. around d k A B \<longrightarrow> ordered_entries d (A @ flat T @ B) \<longrightarrow> ordered_entries d (A @ flat T1 @ B)"
    "\<exists>q x. gslot c' q x \<and> deq k (fst x) \<and> (is_leaf c \<or> snd p < 32 \<or> slack T \<longrightarrow> q = p)"
    "is_leaf c' = is_leaf c" "sp \<longrightarrow> gcount c' = 63 \<and> glevels c' \<noteq> []" "sp \<longrightarrow> is_leaf c \<longrightarrow> \<not> slack T"
    "gleaf c' (fst p)" "snd p < 64"
proof -
  note A = ad [unfolded added_def]
  have b: "becomes h d c h1 c'" using A by blast
  show "becomes h d T h1 T1" using becomes_child [OF b] T unfolding T1_def by blast
  have c': "trep h1 d c'" "glevels c' = glevels c" using b by (auto simp: becomes_def)
  show "\<forall>t \<in> set us \<union> set vs \<union> set (gkids c'). small t" using A T(3,5) by auto
  show "\<not> sp \<longrightarrow> small c'" using A gcount_le [OF c'(1)] by (subst small_iff) auto
  show "sp \<longrightarrow> gcount c' = 63 \<and> glevels c' \<noteq> []" "is_leaf c' = is_leaf c" "gleaf c' (fst p)" "snd p < 64"
    using A c'(2) by auto
  show "\<exists>q x. gslot c' q x \<and> deq k (fst x) \<and> (is_leaf c \<or> snd p < 32 \<or> slack T \<longrightarrow> q = p)"
  proof -
    have "slack T \<longrightarrow> slack c" using T(3) by simp
    then show ?thesis using A by blast
  qed
  show "sp \<longrightarrow> is_leaf c \<longrightarrow> \<not> slack T" using A T(3) by (cases c) auto
  show "\<forall>A B. around d k A B \<longrightarrow> ordered_entries d (A @ flat T @ B) \<longrightarrow> ordered_entries d (A @ flat T1 @ B)"
  proof (intro allI impI)
    fix A B
    assume ab: "around d k A B" "ordered_entries d (A @ flat T @ B)"
    have "around d k (A @ weave_left (map flat us) ls) (weave_right rs (map flat vs) @ B)" by (rule around_append [OF ab(1) ar])
    moreover have "flat T = weave_left (map flat us) ls @ flat c @ weave_right rs (map flat vs)"
        "flat T1 = weave_left (map flat us) ls @ flat c' @ weave_right rs (map flat vs)"
      using T(3,4) by (simp_all add: T1_def weave_at)
    ultimately show "ordered_entries d (A @ flat T1 @ B)" using A ab(2) by (metis append_assoc)
  qed
qed

lemma add_twig:
  assumes T: "trep h d T" "distinct (addrs T)" "ordered_entries d (flat T)" "small T" "T = GN a ks ts" and k: "\<not> isnand64 k"
    and IH: "\<And>c. c \<in> set ts \<Longrightarrow> ordered_entries d (flat c) \<Longrightarrow> distinct (addrs c) \<Longrightarrow>
      \<exists>h' p sp T'. node_add h (groot c) k = Some (h', p, sp) \<and> added h d k c h' p sp T'"
  shows "\<exists>h' p sp T'. node_add h a k = Some (h', p, sp) \<and> added h d k T h' p sp T'"
proof -
  obtain us c vs ls rs nd where ds: "ts = us @ c # vs" "ks = ls @ rs" "length us = length ls"
     "deref h a = Some nd" "twig_rep nd d ks (map groot ts)" "key_index nd k = length us" "ual_t (bt_val nd ! length us) = groot c"
     "around d k (weave_left (map flat us) ls) (weave_right rs (map flat vs))"
     "flat T = weave_left (map flat us) ls @ flat c @ weave_right rs (map flat vs)"
    using descend [OF T(1) [unfolded T(5)] T(3) [unfolded T(5)] k] T(5) by metis
  have T5: "T = GN a (ls @ rs) (us @ c # vs)" using T(5) ds(1,2) by simp
  have "ordered_entries d (flat c)" "distinct (addrs c)" using T(2,3,5) ds(1,9) by (auto simp: ordered_entries_append)
  then obtain h1 p sp c' where ad: "node_add h (groot c) k = Some (h1, p, sp)" "added h d k c h1 p sp c'"
    using IH [of c] ds(1) by auto
  let ?T1 = "GN a (ls @ rs) (us @ c' # vs)"
  note C = add_child [OF T(1,2) T5 ds(3) T(4) ad(2) ds(8)]
  obtain q x where q: "gslot c' q x" "deq k (fst x)" "is_leaf c \<or> snd p < 32 \<or> slack T \<longrightarrow> q = p" using C(5) by blast
  have rep1: "trep h1 d ?T1" "distinct (addrs ?T1)" using C(1) by (auto simp: becomes_def)
  have len: "length (ls @ rs) \<le> 62" and leaf: "\<not> is_leaf T" using T(4) T5 by auto
  have "node_add h a k = twig_add h a k" using ds(4,5) by (simp add: node_add_def twig_rep_def)
  then have add: "node_add h a k = do {
      h2 \<leftarrow> (if sp then node_split h1 a (length us) else Some h1); nd \<leftarrow> deref h2 a; Some (h2, p, bt_n nd \<ge> 63) }"
    using ds(4,6,7) ad(1) by (simp add: twig_add_step)
  show ?thesis
  proof (cases sp)
    case False
    obtain nd1 where "deref h1 a = Some nd1" "bt_n nd1 = length (ls @ rs)" using rep1(1) by (auto simp: twig_rep_def)
    then have "node_add h a k = Some (h1, p, False)" using False len add by simp
    moreover have "\<exists>q x. gslot ?T1 q x \<and> deq k (fst x) \<and> (is_leaf T \<or> snd p < 32 \<or> slack T \<longrightarrow> q = p)"
      using q leaf by (intro exI [of _ q] exI [of _ x]) auto
    then have "added h d k T h1 p False ?T1"
      unfolding added_def using C(1-4,9,10) False len leaf by (simp del: flat.simps gslot.simps)
    ultimately show ?thesis by blast
  next
    case True
    then obtain h2 T2 q' where sp: "node_split h1 a (length us) = Some h2" "becomes h1 d ?T1 h2 T2" "\<not> is_leaf T2"
       "\<forall>t \<in> set (gkids T2). small t"
       "\<forall>A B. ordered_entries d (A @ flat ?T1 @ B) \<longrightarrow> ordered_entries d (A @ flat T2 @ B)"
       "gslot T2 q' x" "\<not> is_leaf c' \<or> snd q < 32 \<longrightarrow> q' = q" "gleaf T2 (fst p)"
      using C(9) add_twig_split [OF rep1 refl ds(3) len _ _ C(2) q(1)] C(7) by blast
    have b2: "becomes h d T h2 T2" by (rule becomes_trans [OF C(1) sp(2)])
    then have T2: "trep h2 d T2" "groot T2 = a" using T5 by (auto simp: becomes_def)
    then obtain nd2 where "deref h2 a = Some nd2" using trep_root by blast
    then have "node_add h a k = Some (h2, p, gcount T2 = 63)" using True add sp(1) trep_count [OF T2(1)] T2(2) by auto
    moreover have "glevels T \<noteq> []" using C(7) True twig_at(2) [OF T(1) T5 ds(3)] C(1) ad(2) by (simp add: added_def becomes_def)
    then have "added h d k T h2 p (gcount T2 = 63) T2"
      unfolding added_def using b2 sp(3-8) leaf C(4,6,8,10) True q by metis
    ultimately show ?thesis by blast
  qed
qed

lemma node_add_spec:
  assumes "trep h d T" "distinct (addrs T)" "ordered_entries d (flat T)" "small T" "\<not> isnand64 k"
  shows "\<exists>h' p sp T'. node_add h (groot T) k = Some (h', p, sp) \<and> added h d k T h' p sp T'"
  using assms
proof (induction h d T rule: trep.induct)
  case (1 h d a xs)
  then show ?case using add_leaf [of h d a xs k] by simp
next
  case (2 h d a ks ts)
  have "\<exists>h' p sp T'. node_add h (groot c) k = Some (h', p, sp) \<and> added h d k c h' p sp T'"
    if "c \<in> set ts" "ordered_entries d (flat c)" "distinct (addrs c)" for c
    using 2 that by auto
  from add_twig [OF 2(2-5) refl 2(6) this] show ?case by simp
qed

subsection \<open>Splitting the root\<close>

lemma root_halves_like:
  assumes "node_shape rt d"
  shows "node_shape (root_left rt r) d" "left_like (root_left rt r) rt" "node_shape (root_right rt) d" "right_like (root_right rt) rt"
  using assms
  by (auto simp: node_shape_def left_like_def right_like_def root_left_def root_right_def new_btree_def countof_key_def arr_simps key_fill_nan)

lemma root_top_rep: "node_shape rt d \<Longrightarrow> twig_rep (root_top rt l r) d [bt_key rt ! 31] [l, r]"
  by (auto simp: node_shape_def twig_rep_def root_top_def arr_simps less_Suc_eq nth_list_update le_Suc_eq)

abbreviation root_tree :: "gtree \<Rightarrow> nat \<Rightarrow> gtree" where
  "root_tree T l \<equiv> GN (groot T) [gpivot T] [gleft l T, gright (l + 1) T]"

lemma root_tree_addrs:
  assumes "distinct (addrs T)" "l \<notin> set (addrs T)" "l + 1 \<notin> set (addrs T)"
  shows "distinct (addrs (root_tree T l))" "set (addrs (root_tree T l)) \<subseteq> insert l (insert (l + 1) (set (addrs T)))"
proof -
  have "distinct (addrs (root_tree T l)) \<and> set (addrs (root_tree T l)) \<subseteq> insert l (insert (l + 1) (set (addrs T)))"
  proof (cases T)
    case (GN a ks ts)
    have cc: "concat (map addrs ts) = concat (map addrs (take 32 ts)) @ concat (map addrs (drop 32 ts))"
      by (simp flip: concat_append map_append)
    show ?thesis using assms unfolding GN addrs.simps cc by auto
  qed (use assms in auto)
  then show "distinct (addrs (root_tree T l))" "set (addrs (root_tree T l)) \<subseteq> insert l (insert (l + 1) (set (addrs T)))" by blast+
qed

lemma root_split_spec:
  assumes T: "trep h d T" "distinct (addrs T)" "ordered_entries d (flat T)" and n: "gcount T = 63" and sm: "\<forall>t \<in> set (gkids T). small t"
  shows "\<exists>h'. root_split h (groot T) = Some h' \<and> becomes h d T h' (root_tree T (length h)) \<and>
    ordered_entries d (flat (root_tree T (length h))) \<and> small (root_tree T (length h))"
proof -
  let ?l = "length h" and ?T' = "root_tree T (length h)"
  obtain rt where rt: "deref h (groot T) = Some rt" "node_shape rt d" using trep_root [OF T(1)] by blast
  obtain h' where h': "root_split h (groot T) = Some h'" "length h' = length h + 2"
    "\<And>x. deref h' x = (if x = groot T then Some (root_top rt ?l (?l + 1)) else if x = ?l then Some (root_left rt (?l + 1))
      else if x = ?l + 1 then Some (root_right rt) else deref h x)"
    using root_split_nodes [OF rt(1)] by blast
  have lt: "x < ?l" if "x \<in> set (addrs T)" for x by (rule trep_bound [OF T(1) that])
  then have g: "groot T \<noteq> ?l" "groot T \<noteq> ?l + 1" using groot_addrs [of T] by fastforce+
  have kids: "\<forall>t \<in> set (gkids T). trep h' d t"
  proof
    fix t
    assume t: "t \<in> set (gkids T)"
    have "groot T \<notin> set (addrs t)" "set (addrs t) \<subseteq> set (addrs T)" using T(2) t by (cases T; auto)+
    then show "trep h' d t" using lt by (intro trep_same_cells [OF trep_sub [OF T(1) t]]) (auto simp: h'(3) dest!: subsetD lt)
  qed
  note like = root_halves_like [OF rt(2)]
  have "trep h' d (gleft ?l T)" by (rule left_like_rep [OF T(1) rt(1) n _ like(1,2) kids]) (use g in \<open>simp add: h'(3)\<close>)
  moreover have "trep h' d (gright (?l + 1) T)" by (rule right_like_rep [OF T(1) rt(1) n _ like(3,4) kids]) (use g in \<open>simp add: h'(3)\<close>)
  moreover have "groot (gleft ?l T) = ?l" "groot (gright (?l + 1) T) = ?l + 1" by (cases T; simp)+
  ultimately have "trep h' d ?T'"
    using root_top_rep [OF rt(2), of ?l "?l + 1"] pivot_key [OF T(1) rt(1) n] by (simp add: h'(3))
  moreover have "?l \<notin> set (addrs T)" "?l + 1 \<notin> set (addrs T)" using lt by fastforce+
  note ad = root_tree_addrs [OF T(2) this]
  moreover have fl: "flat ?T' = [] @ flat (gleft ?l T) @ sep (gpivot T) # flat (gright (?l + 1) T) @ []" by simp
  then have "glevels ?T' = glevels T" using flat_halves(2) [OF n T(1), of ?l "?l + 1"] by simp
  moreover have "deref h' x = deref h x" if "x < length h" "x \<notin> set (addrs T)" for x
    using that groot_addrs [of T] by (auto simp: h'(3))
  ultimately have "becomes h d T h' ?T'" using h'(2) ad unfolding becomes_def by auto
  moreover have "ordered_entries d (flat ?T')"
    unfolding fl by (rule flat_halves(1) [OF n T(1)]) (use T(3) in simp)
  moreover have "small ?T'" using halves_small [OF n sm] by simp
  ultimately show ?thesis using h'(1) by blast
qed

subsection \<open>The tree as a whole\<close>

text \<open>The invariant of \<open>btree_put\<close>: a full root, and only a full root, is flagged to be split by the next insertion.\<close>

definition tree_ok :: "heap \<Rightarrow> bool \<Rightarrow> btree_t \<Rightarrow> gtree \<Rightarrow> bool" where
  "tree_ok h d t T \<longleftrightarrow> tree_wf h d T \<and> groot T = t \<and> (\<forall>s \<in> set (gkids T). small s) \<and>
     (\<exists>nd. deref h t = Some nd \<and> bt_splitp nd = (gcount T = 63))"

lemma becomes_flag:
  assumes "becomes h d T h' T'" "deref h' (groot T) = Some nd"
  shows "becomes h d T (store h' (groot T) (nd\<lparr>bt_splitp := b\<rparr>)) T'"
proof -
  have T': "trep h' d T'" "groot T' = groot T" using assms(1) by (auto simp: becomes_def)
  have "same_tree T' h' (store h' (groot T) (nd\<lparr>bt_splitp := b\<rparr>))"
    using assms(2) T'(2) groot_addrs [of T'] by (intro same_tree_store) auto
  then have "trep (store h' (groot T) (nd\<lparr>bt_splitp := b\<rparr>)) d T'" using trep_frame [OF T'(1)] unfolding same_tree_def by blast
  moreover have "deref (store h' (groot T) (nd\<lparr>bt_splitp := b\<rparr>)) x = deref h' x" if "x \<notin> set (addrs T)" for x
    using that groot_addrs [of T] deref_Some_lt [OF assms(2)] by (auto simp: heap_simps)
  ultimately show ?thesis using assms(1) unfolding becomes_def by simp
qed

lemma halves_slack: "gcount T = 63 \<Longrightarrow> is_leaf T \<or> slack T \<Longrightarrow> slack (gleft l T) \<and> slack (gright r T)"
  by (cases T) (auto dest: in_set_takeD in_set_dropD)

lemma put_prepared:
  assumes "tree_ok h d t T"
  obtains h1 T1 nd where "deref h t = Some nd" "(if bt_splitp nd then root_split h t else Some h) = Some h1" "becomes h d T h1 T1"
    "ordered_entries d (flat T1)" "small T1" "is_leaf T \<or> slack T \<longrightarrow> is_leaf T1 \<or> slack T1"
proof -
  obtain nd where nd: "deref h t = Some nd" "bt_splitp nd = (gcount T = 63)" using assms by (auto simp: tree_ok_def)
  have T: "trep h d T" "distinct (addrs T)" "ordered_entries d (flat T)" "groot T = t" "\<forall>s \<in> set (gkids T). small s"
    using assms by (auto simp: tree_ok_def tree_wf_def)
  show thesis
  proof (cases "bt_splitp nd")
    case True
    then have n: "gcount T = 63" using nd(2) by simp
    obtain h1 where h1: "root_split h t = Some h1" "becomes h d T h1 (root_tree T (length h))"
       "ordered_entries d (flat (root_tree T (length h)))" "small (root_tree T (length h))"
      using root_split_spec [OF T(1-3) n T(5)] T(4) by auto
    moreover have "is_leaf T \<or> slack T \<longrightarrow> slack (root_tree T (length h))" using halves_slack [OF n] by simp
    ultimately show thesis using that [OF nd(1) _ h1(2,3,4)] True by simp
  next
    case False
    then have "small T" using nd(2) T(5) gcount_le [OF T(1)] by (subst small_iff) auto
    moreover have "becomes h d T h T" using T by (simp add: becomes_def)
    ultimately show thesis using that [OF nd(1), of h T] False T(3) by simp
  qed
qed

text \<open>\<open>btree_put\<close> on any tree: no level changes, and the key has a slot now.\<close>

lemma btree_put_spec:
  assumes ok: "tree_ok h d t T" and k: "\<not> isnand64 k"
  shows "\<exists>h' p T'. btree_put h t k = Some (h', p) \<and> tree_ok h' d t T' \<and> glevels T' = glevels T \<and>
    (\<exists>q x. gslot T' q x \<and> deq k (fst x) \<and> (is_leaf T \<or> snd p < 32 \<or> slack T \<longrightarrow> q = p)) \<and>
    gleaf T' (fst p) \<and> snd p < 64"
proof -
  obtain h1 T1 nd where pre: "deref h t = Some nd" "(if bt_splitp nd then root_split h t else Some h) = Some h1" "becomes h d T h1 T1"
    "ordered_entries d (flat T1)" "small T1" "is_leaf T \<or> slack T \<longrightarrow> is_leaf T1 \<or> slack T1"
    using put_prepared [OF ok] by metis
  have T1: "trep h1 d T1" "distinct (addrs T1)" "groot T1 = t" "glevels T1 = glevels T"
    using pre(3) ok by (auto simp: becomes_def tree_ok_def)
  obtain h2 p sp T2 where ad: "node_add h1 t k = Some (h2, p, sp)" "added h1 d k T1 h2 p sp T2"
    using node_add_spec [OF T1(1,2) pre(4,5) k] T1(3) by auto
  note A = ad(2) [unfolded added_def]
  have b: "becomes h1 d T1 h2 T2" using A by blast
  then have T2: "trep h2 d T2" "groot T2 = t" "glevels T2 = glevels T" using T1 by (auto simp: becomes_def)
  obtain nd1 nd2 where nd: "deref h1 t = Some nd1" "deref h2 t = Some nd2" using trep_root T1 T2 by metis
  let ?h' = "store h2 t (nd2\<lparr>bt_splitp := sp\<rparr>)"
  have "btree_put h t k = do { (h, vp, splitp) \<leftarrow> node_add h1 t k; nd \<leftarrow> deref h t; Some (store h t (nd\<lparr>bt_splitp := splitp\<rparr>), vp) }"
    using pre(1,2) nd(1) by (simp add: btree_put_def node_add_def)
  then have put: "btree_put h t k = Some (?h', p)" using ad(1) nd(2) by simp
  have "becomes h1 d T1 ?h' T2" using becomes_flag [OF b] nd(2) T1(3) by simp
  then have rep: "trep ?h' d T2" "distinct (addrs T2)" by (auto simp: becomes_def)
  moreover have "around d k [] []" by (simp add: around_def)
  then have "ordered_entries d ([] @ flat T2 @ [])" using A pre(4) by (metis append_Nil append_Nil2)
  ultimately have "tree_ok ?h' d t T2"
    using A T2(2) deref_Some_lt [OF nd(2)] by (auto simp: tree_ok_def tree_wf_def heap_simps)
  moreover have "\<exists>q x. gslot T2 q x \<and> deq k (fst x) \<and> (is_leaf T \<or> snd p < 32 \<or> slack T \<longrightarrow> q = p)"
    using A pre(6) by blast
  ultimately show ?thesis using put T2(3) A by blast
qed

subsection \<open>Storing through a pointer\<close>

fun gupd :: "val_ptr \<Rightarrow> btree_val \<Rightarrow> gtree \<Rightarrow> gtree" where
  "gupd p v (GL a xs) = (if a = fst p then GL a (xs[snd p := (fst (xs ! snd p), v)]) else GL a xs)"
| "gupd p v (GN a ks ts) = GN a ks (map (gupd p v) ts)"

lemma gupd_groot [simp]: "groot (gupd p v T) = groot T"
  by (cases T) auto

lemma gupd_addrs [simp]: "addrs (gupd p v T) = addrs T"
proof (induction T)
  case (GN a ks ts)
  then show ?case by (simp add: o_def cong: map_cong)
qed simp

lemma gupd_gcount [simp]: "gcount (gupd p v T) = gcount T"
  by (cases T) auto

lemma gupd_small [simp]: "small (gupd p v T) = small T"
  by (induction T) auto

lemma gupd_kids: "(\<forall>t \<in> set (gkids (gupd p v T)). small t) \<longleftrightarrow> (\<forall>t \<in> set (gkids T). small t)"
  by (cases T) auto

lemma gupd_other: "fst p \<notin> set (addrs T) \<Longrightarrow> gupd p v T = T"
proof (induction T)
  case (GN a ks ts)
  then have "map (gupd p v) ts = ts" by (intro map_idI) auto
  then show ?case by simp
qed auto

text \<open>The slot is in one of the children, and the others do not know its address.\<close>

lemma gslot_child:
  assumes "gslot (GN a ks ts) p x" "distinct (addrs (GN a ks ts))"
  obtains us t vs where "ts = us @ t # vs" "gslot t p x" "distinct (addrs t)" "fst p \<noteq> a"
    "\<And>v. map (gupd p v) us = us" "\<And>v. map (gupd p v) vs = vs" "\<And>s. s \<in> set us \<union> set vs \<Longrightarrow> fst p \<notin> set (addrs s)"
proof -
  obtain t where "t \<in> set ts" "gslot t p x" using assms(1) by auto
  then obtain us vs where ts: "ts = us @ t # vs" by (meson split_list)
  have "fst p \<in> set (addrs t)" by (rule gslot_addr [OF \<open>gslot t p x\<close>])
  then have out: "fst p \<notin> set (addrs s)" if "s \<in> set us \<union> set vs" for s using assms(2) that ts by auto
  then have "map (gupd p v) us = us" "map (gupd p v) vs = vs" for v by (auto intro!: map_idI gupd_other)
  moreover have "fst p \<noteq> a" "distinct (addrs t)" using assms(2) \<open>fst p \<in> _\<close> ts by auto
  ultimately show thesis using that ts \<open>gslot t p x\<close> out by blast
qed

lemma flat_gupd:
  assumes "trep h d T" "distinct (addrs T)" "gslot T p (k, w)"
  shows "\<exists>A B. flat T = A @ (k, Some w) # B \<and> flat (gupd p v T) = A @ (k, Some v) # B"
  using assms
proof (induction h d T rule: trep.induct)
  case (1 h d a xs)
  then have "snd p < length xs" "xs ! snd p = (k, w)" "fst p = a" by auto
  moreover have "map slot xs = map slot (take (snd p) xs @ xs ! snd p # drop (Suc (snd p)) xs)" if "snd p < length xs"
    by (rule arg_cong [OF id_take_nth_drop [OF that]])
  ultimately have "flat (GL a xs) = map slot (take (snd p) xs) @ (k, Some w) # map slot (drop (Suc (snd p)) xs)"
     "flat (gupd p v (GL a xs)) = map slot (take (snd p) xs) @ (k, Some v) # map slot (drop (Suc (snd p)) xs)"
    by (simp_all add: upd_conv_take_nth_drop)
  then show ?case by blast
next
  case (2 h d a ks ts)
  obtain us t vs where c: "ts = us @ t # vs" "gslot t p (k, w)" "distinct (addrs t)" "map (gupd p v) us = us" "map (gupd p v) vs = vs"
    using gslot_child [OF 2(4,3)] by metis
  obtain A B where t: "flat t = A @ (k, Some w) # B" "flat (gupd p v t) = A @ (k, Some v) # B" using 2(1) [of t] 2(2) c by auto
  have "length us \<le> length ks" using trep_lengths [OF 2(2)] c(1) by simp
  then have "ks = take (length us) ks @ drop (length us) ks" "length (take (length us) ks) = length us" by auto
  then have fl: "flat (GN a ks (us @ s # vs)) = weave_left (map flat us) (take (length us) ks) @ flat s @ weave_right (drop (length us) ks) (map flat vs)" for s
    using weave_at [of "map flat us" "take (length us) ks" "flat s" "map flat vs" "drop (length us) ks"] by simp
  have "gupd p v (GN a ks ts) = GN a ks (us @ gupd p v t # vs)" using c by simp
  then show ?case using fl [of t] fl [of "gupd p v t"] unfolding t c(1) by (metis append.assoc append_Cons)
qed

lemma trep_gupd:
  assumes "trep h d T" "distinct (addrs T)" "gslot T p x" "store_val h p v = Some h'"
  shows "trep h' d (gupd p v T)"
proof -
  obtain nd where nd: "deref h (fst p) = Some nd" "h' = store h (fst p) (nd\<lparr>bt_val := (bt_val nd)[snd p := UV v]\<rparr>)"
    using assms(4) by (auto simp: store_val_def split: Option.bind_splits)
  have get: "deref h' y = (if y = fst p then Some (nd\<lparr>bt_val := (bt_val nd)[snd p := UV v]\<rparr>) else deref h y)" for y
    using deref_Some_lt [OF nd(1)] nd(2) by (simp add: heap_simps)
  show ?thesis using assms(1-3)
  proof (induction T)
    case (GL a xs)
    then show ?case using nd(1) by (auto simp: get leaf_rep_def node_shape_def nth_list_update)
  next
    case (GN a ks ts)
    obtain us t vs where c: "ts = us @ t # vs" "gslot t p x" "distinct (addrs t)" "fst p \<noteq> a" "map (gupd p v) us = us" "map (gupd p v) vs = vs"
      "\<And>s. s \<in> set us \<union> set vs \<Longrightarrow> fst p \<notin> set (addrs s)"
      using gslot_child [OF GN(4,3)] by metis
    have "trep h' d s" if s: "s \<in> set us \<union> set vs" for s
    proof (rule trep_same_cells [of h d s])
      show "trep h d s" using GN(2) s c(1) by auto
      show "deref h' y = deref h y" if "y \<in> set (addrs s)" for y using that c(7) [OF s] by (auto simp: get)
    qed
    moreover have "trep h' d (gupd p v t)" using GN(1) [of t] GN(2) c(1-3) by auto
    moreover have "map groot (map (gupd p v) ts) = map groot ts" by simp
    ultimately show ?case using GN(2) c(1,4,5,6) by (auto simp: get)
  qed
qed

subsection \<open>Levels by price\<close>

primrec level_at :: "(d64 \<times> btree_val) list \<Rightarrow> d64 \<Rightarrow> btree_val option" where
  "level_at [] k = None"
| "level_at (x # xs) k = (if deq k (fst x) then Some (snd x) else level_at xs k)"

lemma level_at_append: "level_at (xs @ ys) k = (case level_at xs k of None \<Rightarrow> level_at ys k | Some v \<Rightarrow> Some v)"
  by (induction xs) auto

lemma level_at_None: "level_at xs k = None \<longleftrightarrow> (\<forall>x \<in> set xs. \<not> deq k (fst x))"
  by (induction xs) auto

lemma entry_levels_mem: "x \<in> set (entry_levels es) \<Longrightarrow> slot x \<in> set es"
  by (auto simp: entry_levels_def split: option.splits)

lemma ebefore_not_deq: "ebefore d x y \<Longrightarrow> snd y \<noteq> None \<Longrightarrow> \<not> deq (fst x) (fst y) \<and> \<not> deq (fst y) (fst x)"
  using px.eq_not_lt by (auto simp: ebefore_def)

lemma level_at_slot:
  assumes "ordered_entries d (A @ (k, Some v) # B)"
  shows "level_at (entry_levels (A @ (k, Some v) # B)) k' = (if deq k k' then nonnil v else level_at (entry_levels A @ entry_levels B) k')"
proof (cases "deq k k'")
  case True
  have "\<not> deq k' (fst x)" if "x \<in> set (entry_levels A) \<union> set (entry_levels B)" for x
  proof
    assume "deq k' (fst x)"
    then have "deq k (fst x)" by (rule px.eq_trans [OF True])
    moreover have "ebefore d (slot x) (k, Some v) \<or> ebefore d (k, Some v) (slot x)"
      using that entry_levels_mem [of x] assms by (auto simp: ordered_entries_simps)
    ultimately show False using ebefore_not_deq by fastforce
  qed
  then have "level_at (entry_levels A) k' = None" "level_at (entry_levels B) k' = None" by (auto simp: level_at_None)
  then show ?thesis using True px.eq_sym [OF True] by (auto simp: level_at_append nonnil_def)
next
  case False
  then have "\<not> deq k' k" using px.eq_sym by blast
  then show ?thesis using False by (auto simp: level_at_append split: option.splits)
qed

text \<open>A price has one slot only.\<close>

lemma gslot_flat: "trep h d T \<Longrightarrow> distinct (addrs T) \<Longrightarrow> gslot T p x \<Longrightarrow> slot x \<in> set (flat T)"
  using flat_gupd [of h d T p "fst x" "snd x" "snd x"] by auto

lemma weave_right_mem: "length xss = length ks \<Longrightarrow> xs \<in> set xss \<Longrightarrow> x \<in> set xs \<Longrightarrow> x \<in> set (weave_right ks xss)"
  by (induction xss ks rule: list_induct2) auto

lemma weave_left_mem: "length xss = length ks \<Longrightarrow> xs \<in> set xss \<Longrightarrow> x \<in> set xs \<Longrightarrow> x \<in> set (weave_left xss ks)"
  by (induction xss ks rule: list_induct2) auto

lemma gslot_unique:
  assumes "trep h d T" "distinct (addrs T)" "ordered_entries d (flat T)" "gslot T p x" "gslot T q y" "deq (fst x) (fst y)"
  shows "p = q"
  using assms
proof (induction h d T rule: trep.induct)
  case (1 h d a xs)
  let ?i = "snd p" and ?j = "snd q"
  have "ebefore d (slot (xs ! i)) (slot (xs ! j))" if "i < j" "j < length xs" for i j
    using 1(3) that by (auto simp: ordered_entries_def sorted_wrt_iff_nth_less)
  then have "\<not> ?i < ?j" "\<not> ?j < ?i" using ebefore_not_deq [of d "slot x" "slot y"] ebefore_not_deq [of d "slot y" "slot x"] 1 by auto
  then show ?case using 1 by (simp add: prod_eq_iff)
next
  case (2 h d a ks ts)
  obtain us t vs where c: "ts = us @ t # vs" "gslot t p x" "distinct (addrs t)" using gslot_child [OF 2(5,3)] by metis
  obtain s where s: "s \<in> set ts" "gslot s q y" using 2(6) by auto
  let ?ls = "take (length us) ks" and ?rs = "drop (length us) ks"
  have len: "length us = length ?ls" "length vs = length ?rs" using trep_lengths [OF 2(2)] c(1) by auto
  have fl: "flat (GN a ks ts) = weave_left (map flat us) ?ls @ flat t @ weave_right ?rs (map flat vs)"
    using weave_at [of "map flat us" ?ls "flat t" "map flat vs" ?rs] len c(1) by simp
  have reps: "trep h d t" "trep h d s" "distinct (addrs s)" using 2(2,3) c(1) s(1) by (auto dest!: split_list)
  have xy: "slot x \<in> set (flat t)" "slot y \<in> set (flat s)" using gslot_flat reps c(2,3) s(2) by blast+
  have "s \<notin> set us" 
  proof
    assume "s \<in> set us"
    then have "slot y \<in> set (weave_left (map flat us) ?ls)" using xy(2) len by (intro weave_left_mem [of _ _ "flat s"]) auto
    then have "ebefore d (slot y) (slot x)" using 2(4) xy(1) unfolding fl ordered_entries_append by auto
    then show False using ebefore_not_deq 2(7) by fastforce
  qed
  moreover have "s \<notin> set vs"
  proof
    assume "s \<in> set vs"
    then have "slot y \<in> set (weave_right ?rs (map flat vs))" using xy(2) len by (intro weave_right_mem [of _ _ "flat s"]) auto
    then have "ebefore d (slot x) (slot y)" using 2(4) xy(1) unfolding fl ordered_entries_append by auto
    then show False using ebefore_not_deq 2(7) by fastforce
  qed
  ultimately have "s = t" using s(1) c(1) by auto
  moreover have "ordered_entries d (flat t)" using 2(4) unfolding fl by (simp add: ordered_entries_append)
  ultimately show ?case using 2(1) [of t] reps(1) c s(2) 2(7) by auto
qed

text \<open>A store through a pointer to a slot changes the level at its price and no other.\<close>

lemma store_level:
  assumes ok: "tree_ok h d t T" and p: "gslot T p x"
  shows "\<exists>h'. store_val h p v = Some h' \<and> tree_ok h' d t (gupd p v T) \<and>
    (\<forall>k'. level_at (glevels (gupd p v T)) k' = (if deq (fst x) k' then nonnil v else level_at (glevels T) k'))"
proof -
  have T: "trep h d T" "distinct (addrs T)" "ordered_entries d (flat T)" "groot T = t" "\<forall>s \<in> set (gkids T). small s"
    using ok by (auto simp: tree_ok_def tree_wf_def)
  obtain nd where nd: "deref h t = Some nd" "bt_splitp nd = (gcount T = 63)" using ok by (auto simp: tree_ok_def)
  obtain np where np: "deref h (fst p) = Some np" using trep_addrs [OF T(1) gslot_addr [OF p]] by blast
  let ?h' = "store h (fst p) (np\<lparr>bt_val := (bt_val np)[snd p := UV v]\<rparr>)"
  have st: "store_val h p v = Some ?h'" using np by (simp add: store_val_def)
  obtain A B where f: "flat T = A @ (fst x, Some (snd x)) # B" "flat (gupd p v T) = A @ (fst x, Some v) # B"
    using flat_gupd [OF T(1,2), of p "fst x" "snd x" v] p by auto
  have ord: "ordered_entries d (flat (gupd p v T))"
    using T(3) unfolding f by (auto simp: ordered_entries_simps ebefore_def)
  have "\<exists>nd'. deref ?h' t = Some nd' \<and> bt_splitp nd' = (gcount T = 63)"
    using nd np deref_Some_lt [OF np] by (auto simp: heap_simps)
  then have "tree_ok ?h' d t (gupd p v T)"
    using trep_gupd [OF T(1,2) p st] T(2,4,5) ord by (simp add: tree_ok_def tree_wf_def gupd_kids)
  moreover have "level_at (glevels (gupd p v T)) k' = (if deq (fst x) k' then nonnil v else level_at (glevels T) k')" for k'
    using level_at_slot [of d A "fst x" v B k'] level_at_slot [of d A "fst x" "snd x" B k'] ord T(3) unfolding f by auto
  ultimately show ?thesis using st by blast
qed

lemma get_level:
  assumes ok: "tree_ok h d t T" and k: "\<not> isnand64 k"
  shows "\<exists>r. btree_get h t k = Some r \<and> (case r of None \<Rightarrow> level_at (glevels T) k = None
    | Some p \<Rightarrow> \<exists>x. gslot T p x \<and> deq k (fst x) \<and> load_val h p = Some (snd x) \<and> level_at (glevels T) k = nonnil (snd x))"
proof -
  have T: "trep h d T" "distinct (addrs T)" "ordered_entries d (flat T)" "groot T = t" using ok by (auto simp: tree_ok_def tree_wf_def)
  obtain r where r: "btree_get h t k = Some r" "case r of None \<Rightarrow> \<forall>x. slot x \<in> set (flat T) \<longrightarrow> \<not> deq k (fst x)
     | Some p \<Rightarrow> \<exists>x. gslot T p x \<and> deq k (fst x)"
    using btree_get_finds [OF T(1,3) k] T(4) by auto
  show ?thesis
  proof (cases r)
    case None
    then have "\<forall>x. slot x \<in> set (flat T) \<longrightarrow> \<not> deq k (fst x)" using r(2) by (simp only: option.case)
    then have "level_at (glevels T) k = None" unfolding level_at_None using entry_levels_mem by blast
    then show ?thesis using r(1) None by simp
  next
    case (Some p)
    then obtain x where x: "gslot T p x" "deq k (fst x)" using r(2) by auto
    obtain A B where "flat T = A @ (fst x, Some (snd x)) # B" using flat_gupd [OF T(1,2), of p "fst x" "snd x" "snd x"] x(1) by auto
    then have "level_at (glevels T) k = nonnil (snd x)"
      using level_at_slot [of d A "fst x" "snd x" B k] T(3) px.eq_sym [OF x(2)] by auto
    then have "\<exists>x. gslot T p x \<and> deq k (fst x) \<and> load_val h p = Some (snd x) \<and> level_at (glevels T) k = nonnil (snd x)"
      using x gslot_load [OF T(1) x(1)] by blast
    then show ?thesis using r(1) Some by simp
  qed
qed

subsection \<open>A slot that moved\<close>

text \<open>Writing behind the last slot of a leaf does not change the tree.\<close>

lemma trep_store_behind:
  assumes "deref h b = Some nb" "\<not> bt_innerp nb" "bt_n nb \<le> s"
  shows "trep h d T \<Longrightarrow> trep (store h b (nb\<lparr>bt_val := (bt_val nb)[s := u]\<rparr>)) d T"
proof (induction T)
  case (GL a xs)
  then show ?case using assms deref_Some_lt [OF assms(1)] by (auto simp: heap_simps leaf_rep_def node_shape_def)
next
  case (GN a ks ts)
  then show ?case using assms deref_Some_lt [OF assms(1)] by (auto simp: heap_simps twig_rep_def)
qed

text \<open>A leaf with 62 levels takes another key in its upper half: it is full and the pointer is behind the lower half.\<close>

lemma crowded_leaf_add:
  assumes T: "trep h d (GL b xs)" "ordered_entries d (map slot xs)" "length xs = 62" "\<forall>x \<in> set xs. has_qty x" and k: "\<not> isnand64 k"
    and nb: "deref h b = Some nb" "leaf_get nb k = None" "32 \<le> key_index nb k"
  shows "\<exists>h' s ys. node_add h b k = Some (h', (b, s), True) \<and> 32 \<le> s \<and> s < 64 \<and> added h d k (GL b xs) h' (b, s) True (GL b ys)"
proof -
  have rep: "leaf_rep nb d xs" using T(1) nb(1) by simp
  note ok = leaf_rep_ok [OF rep T(2)] and D = leaf_repD [OF rep]
  have room: "leaf_room nb k" using D(3) T(3) by (simp add: leaf_room_def)
  have "live nb i" if "i < 62" for i using T(3,4) D(3) D(4) [of i] that by (metis has_qty_def nth_mem snd_conv)
  then have nul: "nul_index nb = bt_n nb" using D(3) T(3) unfolding nul_index_def by (intro scan_while_eqI) auto
  obtain nb' s sp where add: "leaf_add nb k = (nb', s, sp)" by (rule prod_cases3)
  have i: "key_index nb k \<le> bt_n nb" by (rule key_index_le)
  have "s = key_index nb k" "sp"
    using add nb(2) leaf_add_new [of k nb] leaf_get_index [of nb k] nul D(3) T(3) i by (auto simp: ins_n_def ins_slot_def)
  then have "node_add h b k = Some (store h b nb', (b, s), True)" "32 \<le> s" "s < 64"
    using nb add D(2,3) T(3) i by (auto simp: node_add_def)
  moreover obtain h' p sp' T' where "node_add h b k = Some (h', p, sp')" "added h d k (GL b xs) h' p sp' T'"
    using add_leaf [OF T(1,2) _ k] T(3) by auto
  moreover from this obtain ys where "T' = GL b ys" by (cases T') (auto simp: added_def becomes_def)
  ultimately show ?thesis by auto
qed

lemma put_small_root:
  assumes "tree_ok h d t T" "gcount T \<le> 62" "node_add h t k = Some (h2, p, sp)" "becomes h d T h2 T2" "sp \<longleftrightarrow> gcount T2 = 63"
    "ordered_entries d (flat T2)" "\<forall>s \<in> set (gkids T2). small s"
  shows "\<exists>h'. btree_put h t k = Some (h', p) \<and> tree_ok h' d t T2 \<and> (\<forall>x. x \<noteq> t \<longrightarrow> deref h' x = deref h2 x)"
proof -
  obtain nd where nd: "deref h t = Some nd" "\<not> bt_splitp nd" using assms(1,2) by (auto simp: tree_ok_def)
  have T2: "trep h2 d T2" "groot T2 = t" "groot T = t" using assms(1,4) by (auto simp: becomes_def tree_ok_def)
  obtain nd2 where nd2: "deref h2 t = Some nd2" using trep_root [OF T2(1)] T2(2) by blast
  let ?h' = "store h2 t (nd2\<lparr>bt_splitp := sp\<rparr>)"
  have "btree_put h t k = Some (?h', p)"
    using nd nd2 assms(3) by (simp add: btree_put_def node_add_def split: if_splits)
  moreover have "becomes h d T ?h' T2" using becomes_flag [OF assms(4)] nd2 T2(3) by simp
  then have "tree_ok ?h' d t T2"
    using assms(5-7) T2(2) deref_Some_lt [OF nd2] by (auto simp: tree_ok_def tree_wf_def becomes_def heap_simps)
  ultimately show ?thesis using deref_Some_lt [OF nd2] by (auto simp: heap_simps)
qed

lemma descend_at:
  assumes T: "trep h d T" "T = GN a (ls @ rs) (us @ c # vs)" "length us = length ls" and ord: "ordered_entries d (flat T)" and k: "\<not> isnand64 k"
    and nd: "deref h a = Some nd" "key_index nd k = length us"
  shows "around d k (weave_left (map flat us) ls) (weave_right rs (map flat vs))" "ual_t (bt_val nd ! length us) = groot c"
proof -
  obtain us' c' vs' ls' rs' nd' where D: "us @ c # vs = us' @ c' # vs'" "ls @ rs = ls' @ rs'" "length us' = length ls'"
    "length vs' = length rs'" "deref h a = Some nd'" "twig_rep nd' d (ls @ rs) (map groot (us @ c # vs))" "key_index nd' k = length us'"
    "ual_t (bt_val nd' ! length us') = groot c'" "trep h d c'"
    "around d k (weave_left (map flat us') ls') (weave_right rs' (map flat vs'))"
    "flat (GN a (ls @ rs) (us @ c # vs)) = weave_left (map flat us') ls' @ flat c' @ weave_right rs' (map flat vs')"
    by (rule descend [OF T(1) [unfolded T(2)] ord [unfolded T(2)] k])
  have len: "length us' = length us" using D(5,7) nd by simp
  then have "us' = us \<and> c' # vs' = c # vs" using D(1) append_eq_append_conv [of us' us] by metis
  moreover have "ls' = ls \<and> rs' = rs" using D(2,3) len T(3) append_eq_append_conv [of ls' ls] by metis
  ultimately have "us' = us" "c' = c" "vs' = vs" "ls' = ls" "rs' = rs" by simp_all
  then show "around d k (weave_left (map flat us) ls) (weave_right rs (map flat vs))" "ual_t (bt_val nd ! length us) = groot c"
    using D(5,8,10) nd(1) by auto
qed

lemma put_stale:
  assumes ok: "tree_ok h d t T" and T: "T = GN t (ls @ rs) (us @ GL b xs # vs)" "length us = length ls" "length (ls @ rs) \<le> 62"
    and k: "\<not> isnand64 k" and nd: "deref h t = Some nd" "key_index nd k = length us" and nb: "deref h b = Some nb"
    and full: "length xs = 62" "\<forall>x \<in> set xs. has_qty x" "leaf_get nb k = None" "32 \<le> key_index nb k"
  shows "\<exists>h' s T' nb'. btree_put h t k = Some (h', (b, s)) \<and> tree_ok h' d t T' \<and> glevels T' = glevels T \<and>
    deref h' b = Some nb' \<and> \<not> bt_innerp nb' \<and> bt_n nb' \<le> s \<and> b \<noteq> t"
proof -
  have wf: "trep h d T" "distinct (addrs T)" "ordered_entries d (flat T)" "\<forall>s \<in> set (gkids T). small s" using ok by (auto simp: tree_ok_def tree_wf_def)
  have sm: "small T" using wf(4) T by (subst small_iff) auto
  note D = descend_at [OF wf(1) T(1,2) wf(3) k nd]
  have lf: "trep h d (GL b xs)" "ordered_entries d (map slot xs)" "b \<noteq> t"
    using wf(1-3) twig_at(1) [OF wf(1) T(1,2)] by (auto simp: T(1) ordered_entries_append)
  obtain h1 s ys where ad: "node_add h b k = Some (h1, (b, s), True)" "32 \<le> s" "added h d k (GL b xs) h1 (b, s) True (GL b ys)"
    using crowded_leaf_add [OF lf(1,2) full(1,2) k nb full(3,4)] by blast
  note C = add_child [OF wf(1,2) T(1,2) sm ad(3) D(1)]
  let ?T1 = "GN t (ls @ rs) (us @ GL b ys # vs)"
  have rep1: "trep h1 d ?T1" "distinct (addrs ?T1)" using C(1) by (auto simp: becomes_def)
  obtain h2 r ls' rs' us' vs' where sp: "node_split h1 t (length us) = Some h2" "set us' \<subseteq> set us" "set vs' \<subseteq> set vs"
     "becomes h1 d ?T1 h2 (split_tree t ls' rs' us' (GL b ys) r vs')"
     "\<forall>A B. ordered_entries d (A @ flat ?T1 @ B) \<longrightarrow> ordered_entries d (A @ flat (split_tree t ls' rs' us' (GL b ys) r vs') @ B)"
    using node_split_spec [OF rep1 refl T(2,3)] C(7) by blast
  let ?T2 = "split_tree t ls' rs' us' (GL b ys) r vs'"
  have b2: "becomes h d T h2 ?T2" by (rule becomes_trans [OF C(1) sp(4)])
  then have rep2: "trep h2 d ?T2" "glevels ?T2 = glevels T" by (auto simp: becomes_def)
  have "around d k [] []" by (simp add: around_def)
  then have "ordered_entries d ([] @ flat ?T1 @ [])" using C(4) wf(3) by (metis append_Nil append_Nil2)
  then have ord2: "ordered_entries d (flat ?T2)" using sp(5) by (metis append_Nil append_Nil2)
  have small2: "\<forall>s \<in> set (gkids ?T2). small s" using C(2,7) sp(2,3) halves_small [of "GL b ys"] by auto
  obtain nd2 where nd2: "deref h2 t = Some nd2" "bt_n nd2 = gcount ?T2" using rep2(1) by (auto simp: twig_rep_def)
  have "node_add h t k = Some (h2, (b, s), gcount ?T2 = 63)"
  proof -
    have "node_add h t k = twig_add h t k" using nd(1) wf(1) T(1) by (auto simp: node_add_def twig_rep_def)
    then show ?thesis using nd D(2) ad(1) sp(1) nd2 gcount_le [OF rep2(1)] by (simp add: twig_add_step)
  qed
  from put_small_root [OF ok _ this b2 refl ord2 small2] T obtain h' where h': "btree_put h t k = Some (h', (b, s))" "tree_ok h' d t ?T2"
      "\<forall>x. x \<noteq> t \<longrightarrow> deref h' x = deref h2 x" by auto
  obtain nb' where nb': "deref h2 b = Some nb'" "leaf_rep nb' d (take 32 ys)" using rep2(1) by auto
  have "deref h' b = Some nb'" "\<not> bt_innerp nb'" "bt_n nb' \<le> s"
    using nb'(1) h'(3) lf(3) ad(2) leaf_repD(2,3) [OF nb'(2)] by auto
  then show ?thesis using h'(1,2) rep2(2) lf(3) by blast
qed

text \<open>
  What is written through the pointer that \<open>btree_put\<close> returns is written to a leaf, in bounds, and to a slot or behind the slots:
  the tree stays in order whatever is written.
\<close>

lemma gleaf_slot:
  assumes "trep h d T" "gleaf T b"
  shows "\<exists>nb. deref h b = Some nb \<and> \<not> bt_innerp nb \<and> length (bt_val nb) = 64 \<and> (bt_n nb \<le> s \<or> (\<exists>x. gslot T (b, s) x))"
  using assms
proof (induction h d T rule: trep.induct)
  case (1 h d a xs)
  then show ?case by (auto simp: leaf_rep_def node_shape_def)
qed fastforce

lemma store_anywhere:
  assumes ok: "tree_ok h d t T" and p: "gleaf T (fst p)" "snd p < 64"
  shows "\<exists>w h' T'. load_val h p = Some w \<and> store_val h p v = Some h' \<and> tree_ok h' d t T'"
proof -
  have T: "trep h d T" using ok by (simp add: tree_ok_def tree_wf_def)
  obtain nb where nb: "deref h (fst p) = Some nb" "\<not> bt_innerp nb" "bt_n nb \<le> snd p \<or> (\<exists>x. gslot T p x)"
    using gleaf_slot [OF T p(1), of "snd p"] by auto
  let ?h' = "store h (fst p) (nb\<lparr>bt_val := (bt_val nb)[snd p := UV v]\<rparr>)"
  have st: "store_val h p v = Some ?h'" "load_val h p = Some (ual_v (bt_val nb ! snd p))"
    using nb(1) by (simp_all add: store_val_def load_val_def)
  show ?thesis
  proof (cases "bt_n nb \<le> snd p")
    case True
    then have "tree_ok ?h' d t T"
      using ok trep_store_behind [OF nb(1,2) True T] nb(1) deref_Some_lt [OF nb(1)] by (auto simp: tree_ok_def tree_wf_def heap_simps)
    then show ?thesis using st by blast
  next
    case False
    then show ?thesis using nb(3) store_level [OF ok] st by metis
  qed
qed

lemma put_store_ok:
  assumes "tree_ok h d t T" "\<not> isnand64 k"
  shows "\<exists>h' p w. btree_put h t k = Some (h', p) \<and> load_val h' p = Some w \<and> (\<forall>v. \<exists>h'' T''. store_val h' p v = Some h'' \<and> tree_ok h'' d t T'')"
  using btree_put_spec [OF assms] store_anywhere by (metis option.inject)

lemma put_found:
  assumes "tree_ok h d t T" "\<not> isnand64 k"
  shows "\<exists>h' p T' q x. btree_put h t k = Some (h', p) \<and> tree_ok h' d t T' \<and> glevels T' = glevels T \<and>
    btree_get h' t k = Some (Some q) \<and> gslot T' q x \<and> deq k (fst x) \<and> (is_leaf T \<or> slack T \<or> snd p < 32 \<longrightarrow> p = q)"
proof -
  obtain h' p T' q x where put: "btree_put h t k = Some (h', p)" "tree_ok h' d t T'" "glevels T' = glevels T" "gslot T' q x" "deq k (fst x)"
    "is_leaf T \<or> snd p < 32 \<or> slack T \<longrightarrow> q = p" using btree_put_spec [OF assms] by blast
  have T': "trep h' d T'" "distinct (addrs T')" "ordered_entries d (flat T')" "groot T' = t" using put(2) by (auto simp: tree_ok_def tree_wf_def)
  obtain r where r: "btree_get h' t k = Some r" "case r of None \<Rightarrow> \<forall>x. slot x \<in> set (flat T') \<longrightarrow> \<not> deq k (fst x)
     | Some p \<Rightarrow> \<exists>x. gslot T' p x \<and> deq k (fst x)" using btree_get_finds [OF T'(1,3) assms(2)] T'(4) by auto
  have "r \<noteq> None"
  proof
    assume "r = None"
    then show False using r(2) gslot_flat [OF T'(1,2) put(4)] put(5) by (simp only: option.case)
  qed
  then obtain q' y where q': "r = Some q'" "gslot T' q' y" "deq k (fst y)" using r(2) by auto
  have "q' = q" using gslot_unique [OF T'(1-3) q'(2) put(4)] px.eq_trans [OF px.eq_sym [OF q'(3)] put(5)] by blast
  then show ?thesis using put r(1) q'(1) by blast
qed

subsection \<open>Sample trees\<close>

text \<open>A root with two leaves, the first one empty; the second one holds prices above 1.\<close>

definition two_leaves :: "btree_s \<Rightarrow> heap" where
  "two_leaves nd =
     [Some ((new_btree False)\<lparr>bt_n := 1, bt_innerp := True, bt_key := (bt_key (new_btree False))[0 := dd 1 0],
        bt_val := (bt_val (new_btree False))[0 := UT 1, 1 := UT 2]\<rparr>),
      Some ((new_btree False)\<lparr>bt_next := Some 2\<rparr>), Some nd]"

abbreviation two_leaves_tree :: "btree_s \<Rightarrow> gtree" where
  "two_leaves_tree nd \<equiv> GN 0 [dd 1 0] [GL 1 [], GL 2 (slots nd)]"

lemma two_leaves_ok:
  assumes nd: "leaf_ok nd" "\<not> bt_descp nd" "bt_n nd \<le> 62" and above: "\<forall>i < bt_n nd. kbefore False (dd 1 0) (bt_key nd ! i)"
  shows "tree_ok (two_leaves nd) False 0 (two_leaves_tree nd)"
proof -
  let ?h = "two_leaves nd"
  have cells: "deref ?h 0 = Some ((new_btree False)\<lparr>bt_n := 1, bt_innerp := True, bt_key := (bt_key (new_btree False))[0 := dd 1 0],
        bt_val := (bt_val (new_btree False))[0 := UT 1, 1 := UT 2]\<rparr>)" (is "_ = Some ?rt")
    "deref ?h 1 = Some ((new_btree False)\<lparr>bt_next := Some 2\<rparr>)" "deref ?h 2 = Some nd"
    by (simp_all add: two_leaves_def deref_def)
  have "twig_rep ?rt False [dd 1 0] [1, 2]"
    by (auto simp: twig_rep_def node_shape_def new_btree_def countof_key_def less_Suc_eq le_Suc_eq nth_list_update)
  moreover have "leaf_rep (new_btree False\<lparr>bt_next := Some 2\<rparr>) False []"
    by (auto simp: leaf_rep_def node_shape_def new_btree_def countof_key_def key_fill_nan)
  moreover have "leaf_rep nd False (slots nd)" "ordered_entries False (map slot (slots nd))"
    using leaf_rep_leaf_ok [OF nd(1)] leaf_ok_ordered [OF nd(1)] nd(2) by simp_all
  moreover have "\<not> isnand64 (dd 1 0)" by (simp add: isnand64_def dec_of_dd)
  ultimately show ?thesis
    using cells nd(3) above by (auto simp: tree_ok_def tree_wf_def ordered_entries_Cons ebefore_def new_btree_def)
qed

lemma dd_before: "0 \<le> c \<Longrightarrow> c < c' \<Longrightarrow> c' < 1000 \<Longrightarrow> kbefore False (dd c 0) (dd c' 0)"
  by (simp add: kbefore_def less_d64_def dec_of_dd scaled_def)

lemma sample_tree_ok: "tree_ok (two_leaves sample_leaf) False 0 (two_leaves_tree sample_leaf)" "slack (two_leaves_tree sample_leaf)"
proof -
  have "bt_key sample_leaf ! 0 = dd 100 0" "bt_key sample_leaf ! 1 = dd 101 0"
    by (simp_all add: sample_leaf_def new_btree_def countof_key_def)
  then have "kbefore False (dd 1 0) (bt_key sample_leaf ! i)" if "i < 2" for i
  proof -
    have "i = 0 \<or> i = 1" using that by linarith
    then show ?thesis using \<open>bt_key sample_leaf ! 0 = _\<close> \<open>bt_key sample_leaf ! 1 = _\<close> dd_before [of 1 100] dd_before [of 1 101] by auto
  qed
  then show "tree_ok (two_leaves sample_leaf) False 0 (two_leaves_tree sample_leaf)"
    using sample_leaf_shape sample_leaf_facts(1) by (intro two_leaves_ok) auto
  show "slack (two_leaves_tree sample_leaf)" using sample_leaf_shape(1) by simp
qed

text \<open>A leaf with 62 levels: the prices 2, 3, \<open>\<dots>\<close>, 63.\<close>

definition crowded_leaf :: btree_s where
  "crowded_leaf = (new_btree False)\<lparr>bt_n := 62, bt_used := 0x3FFFFFFFFFFFFFFF,
     bt_key := map (\<lambda>i. dd (int i + 2) 0) [0..<62] @ [key_fill, key_fill],
     bt_val := replicate 64 (UV (sample_val 1))\<rparr>"

lemma crowded_leaf_shape:
  "bt_n crowded_leaf = 62" "\<not> bt_descp crowded_leaf" "\<not> bt_innerp crowded_leaf"
  "i < 62 \<Longrightarrow> bt_key crowded_leaf ! i = dd (int i + 2) 0" "i < 64 \<Longrightarrow> leaf_val crowded_leaf i = sample_val 1"
  by (simp_all add: crowded_leaf_def new_btree_def nth_append)

lemma crowded_leaf_ok: "leaf_ok crowded_leaf"
proof -
  have "kbefore False (dd (int i + 2) 0) (dd (int j + 2) 0)" if "i < j" "j < 62" for i j using that by (intro dd_before) auto
  moreover have "\<not> isnand64 (dd (int i + 2) 0)" if "i < 62" for i using that by (simp add: isnand64_def dec_of_dd)
  moreover have "isnand64 ([key_fill, key_fill] ! (i - 62))" if "62 \<le> i" "i < 64" for i
    using that key_fill_nan by (cases "i = 62") (auto simp: nth_Cons')
  ultimately show ?thesis by (auto simp: leaf_ok_def crowded_leaf_def new_btree_def nth_append)
qed

lemma crowded_tree_ok: "tree_ok (two_leaves crowded_leaf) False 0 (two_leaves_tree crowded_leaf)"
  using crowded_leaf_shape dd_before by (intro two_leaves_ok crowded_leaf_ok) auto

lemma not_nan_100: "\<not> isnand64 (dd 100 0)"
  by (simp add: isnand64_def dec_of_dd)

subsection \<open>Properties\<close>

text \<open>
  C9: A tree of any height is a map from prices to levels, and \<open>btree_get\<close> reads it: the search ends, with no pointer if no level
  has the price, and otherwise with a pointer to the value at the price (the level, if it has a quantity).
\<close>

theorem btree_get_levels:
  assumes "tree_ok h d t T" "\<not> isnand64 k"
  shows "\<exists>r. btree_get h t k = Some r \<and>
    (case r of None \<Rightarrow> level_at (glevels T) k = None
     | Some p \<Rightarrow> \<exists>v. load_val h p = Some v \<and> level_at (glevels T) k = nonnil v)"
proof -
  obtain r where r: "btree_get h t k = Some r" "case r of None \<Rightarrow> level_at (glevels T) k = None
    | Some p \<Rightarrow> \<exists>x. gslot T p x \<and> deq k (fst x) \<and> load_val h p = Some (snd x) \<and> level_at (glevels T) k = nonnil (snd x)"
    using get_level [OF assms] by blast
  show ?thesis using r by (cases r) auto
qed

theorem btree_get_levels_witness:
  "\<exists>r. btree_get (two_leaves sample_leaf) 0 (dd 100 0) = Some r \<and>
    (case r of None \<Rightarrow> level_at (glevels (two_leaves_tree sample_leaf)) (dd 100 0) = None
     | Some p \<Rightarrow> \<exists>v. load_val (two_leaves sample_leaf) p = Some v \<and>
         level_at (glevels (two_leaves_tree sample_leaf)) (dd 100 0) = nonnil v)"
  by (rule btree_get_levels [OF sample_tree_ok(1) not_nan_100])

text \<open>
  C7: \<open>btree_put\<close> keeps the order of a tree of any height, splits included (of leaves, of inner nodes and of the root,
  with new nodes or recycled ones): it ends, all levels stay what they are, and afterwards \<open>btree_get\<close> finds the
  price. The pointer handed out is the one \<open>btree_get\<close> finds if the tree is a leaf, if no leaf was about to be
  split, or if the slot is in the lower half of its leaf.
\<close>

theorem btree_put_keeps_levels:
  assumes "tree_ok h d t T" "\<not> isnand64 k"
  shows "\<exists>h' p T' q. btree_put h t k = Some (h', p) \<and> tree_ok h' d t T' \<and> glevels T' = glevels T \<and>
    btree_get h' t k = Some (Some q) \<and> (is_leaf T \<or> slack T \<or> snd p < 32 \<longrightarrow> p = q)"
  using put_found [OF assms] by blast

theorem btree_put_keeps_levels_witness:
  "\<exists>h' p T'. btree_put (two_leaves crowded_leaf) 0 (dd 100 0) = Some (h', p) \<and> tree_ok h' False 0 T' \<and>
    glevels T' = glevels (two_leaves_tree crowded_leaf)"
  using btree_put_keeps_levels [OF crowded_tree_ok not_nan_100] by blast



text \<open>
  C10: \<open>btree_rem\<close> on a tree of any height returns what was at the price (nil if nothing was) and leaves the price without a
  level and every other price as it was.
\<close>

theorem btree_rem_levels:
  assumes "tree_ok h d t T" "\<not> isnand64 k"
  shows "\<exists>h' w T'. btree_rem h t k = Some (h', w) \<and> tree_ok h' d t T' \<and> nonnil w = level_at (glevels T) k \<and>
    (\<forall>k'. level_at (glevels T') k' = (if deq k k' then None else level_at (glevels T) k'))"
proof -
  obtain r where r: "btree_get h t k = Some r" "case r of None \<Rightarrow> level_at (glevels T) k = None
    | Some p \<Rightarrow> \<exists>x. gslot T p x \<and> deq k (fst x) \<and> load_val h p = Some (snd x) \<and> level_at (glevels T) k = nonnil (snd x)"
    using get_level [OF assms] by blast
  show ?thesis
  proof (cases r)
    case None
    then have "level_at (glevels T) k' = None" if "deq k k'" for k'
      using r(2) that px.eq_trans [OF that] by (auto simp: level_at_None)
    then show ?thesis using r None assms(1) by (auto simp: btree_rem_def nonnil_def)
  next
    case (Some p)
    then obtain x where x: "gslot T p x" "deq k (fst x)" "load_val h p = Some (snd x)" "level_at (glevels T) k = nonnil (snd x)" using r(2) by auto
    obtain h' where h': "store_val h p btree_val_nil = Some h'" "tree_ok h' d t (gupd p btree_val_nil T)"
      "\<forall>k'. level_at (glevels (gupd p btree_val_nil T)) k' = (if deq (fst x) k' then nonnil btree_val_nil else level_at (glevels T) k')"
      using store_level [OF assms(1) x(1)] by blast
    moreover have "deq (fst x) k' = deq k k'" for k' using x(2) px.eq_trans px.eq_sym by blast
    moreover have "btree_rem h t k = Some (h', snd x)" using r(1) Some x(3) h'(1) by (simp add: btree_rem_def)
    ultimately show ?thesis using x(4) by (auto simp: nonnil_def)
  qed
qed

theorem btree_rem_levels_witness:
  "\<exists>h' w T'. btree_rem (two_leaves sample_leaf) 0 (dd 100 0) = Some (h', w) \<and> tree_ok h' False 0 T' \<and>
    level_at (glevels T') (dd 100 0) = None"
  using btree_rem_levels [OF sample_tree_ok(1) not_nan_100] not_nan_100 by (metis px.eq_refl)

text \<open>
  C28: When an insertion below an inner node fills a leaf and the new slot is in its upper half, the level is lost: the leaf is split
  before the caller gets to write, and what it then writes through the pointer goes behind the end of the lower
  half. The levels of the tree stay what they were, whatever is written.
\<close>

theorem btree_put_loses_level:
  assumes "tree_ok h d t T" "T = GN t (ls @ rs) (us @ GL b xs # vs)" "length us = length ls" "length (ls @ rs) \<le> 62"
    and "\<not> isnand64 k" "deref h t = Some nd" "key_index nd k = length us" "deref h b = Some nb"
    and "length xs = 62" "\<forall>x \<in> set xs. has_qty x" "leaf_get nb k = None" "32 \<le> key_index nb k"
  shows "\<exists>h' p T'. btree_put h t k = Some (h', p) \<and> glevels T' = glevels T \<and>
    (\<forall>v. \<exists>h''. store_val h' p v = Some h'' \<and> tree_ok h'' d t T')"
proof -
  obtain h' s T' nb' where st: "btree_put h t k = Some (h', (b, s))" "tree_ok h' d t T'" "glevels T' = glevels T"
    "deref h' b = Some nb'" "\<not> bt_innerp nb'" "bt_n nb' \<le> s" "b \<noteq> t"
    using put_stale [OF assms] by blast
  have "store_val h' (b, s) v = Some (store h' b (nb'\<lparr>bt_val := (bt_val nb')[s := UV v]\<rparr>)) \<and>
      tree_ok (store h' b (nb'\<lparr>bt_val := (bt_val nb')[s := UV v]\<rparr>)) d t T'" for v
    using st(2,4,7) trep_store_behind [OF st(4-6), of d T' "UV v"] deref_Some_lt [OF st(4)]
    by (auto simp: store_val_def tree_ok_def tree_wf_def heap_simps)
  then show ?thesis using st(1,3) by blast
qed

theorem btree_put_loses_level_witness:
  "\<exists>h' p T'. btree_put (two_leaves crowded_leaf) 0 (dd 100 0) = Some (h', p) \<and> glevels T' = glevels (two_leaves_tree crowded_leaf) \<and>
    (\<forall>v. \<exists>h''. store_val h' p v = Some h'' \<and> tree_ok h'' False 0 T')"
proof (rule btree_put_loses_level [where ls = "[dd 1 0]" and rs = "[]" and us = "[GL 1 []]" and vs = "[]" and b = 2 and xs = "slots crowded_leaf",
      OF crowded_tree_ok _ _ _ not_nan_100])
  note sh = crowded_leaf_shape
  have before: "kbefore False (bt_key crowded_leaf ! i) (dd 100 0)" if "i < 62" for i using that sh(4) dd_before by auto
  have idx: "key_index crowded_leaf (dd 100 0) = 62"
    unfolding key_index_pos px.pos_def sh(1) using before sh(2) by (intro scan_while_eqI) auto
  then show "32 \<le> key_index crowded_leaf (dd 100 0)" by simp
  show "leaf_get crowded_leaf (dd 100 0) = None"
    unfolding leaf_get_None [OF crowded_leaf_ok] sh(1) using before px.eq_not_lt(2) by blast
  have "\<not> dd 1 0 \<le> 0" by code_simp
  then show "\<forall>x \<in> set (slots crowded_leaf). has_qty x"
    using sh(1,5) by (auto simp: has_qty_def btree_val_nil_p_def sample_val_def)
  show "deref (two_leaves crowded_leaf) 0 = Some (the (deref (two_leaves crowded_leaf) 0))"
    "deref (two_leaves crowded_leaf) 2 = Some crowded_leaf" by (simp_all add: two_leaves_def deref_def)
  show "key_index (the (deref (two_leaves crowded_leaf) 0)) (dd 100 0) = length [GL 1 []]"
    using dd_before [of 1 100] by (simp add: two_leaves_def deref_def key_index_def kbefore_def new_btree_def countof_key_def scan_while.simps)
qed (use crowded_leaf_shape in auto)

end
