(* ===== verification/Books_Trees.thy ===== *)
theory Books_Trees
  imports Books_Run Btree_Tree
begin

text \<open>
  Books of any size: freeing a tree frees each of its nodes once, and adding level-2 and level-3 quotes to a book
  whose sides are trees in order never gets stuck and keeps them so.
\<close>

subsection \<open>Freeing a tree\<close>

definition freed :: "btree_t set \<Rightarrow> heap \<Rightarrow> heap \<Rightarrow> bool" where
  "freed A h h' \<longleftrightarrow> length h' = length h \<and> (\<forall>x. deref h' x = (if x \<in> A then None else deref h x))"

lemma freed_trans: "freed A h h1 \<Longrightarrow> freed B h1 h2 \<Longrightarrow> freed (A \<union> B) h h2"
  by (auto simp: freed_def)

lemma freed_one: "freed {t} h (h[t := None])"
  by (auto simp: freed_def deref_def)

text \<open>The loop over the children, from child \<open>i\<close> on.\<close>

lemma free_from_children:
  assumes nd: "twig_rep nd d ks (map groot ts)"
    and IH: "\<And>t h. t \<in> set ts \<Longrightarrow> trep h d t \<Longrightarrow> distinct (addrs t) \<Longrightarrow> \<exists>h'. free_from h (groot t) 0 = Some h' \<and> freed (set (addrs t)) h h'"
  shows "ts = us @ vs \<Longrightarrow> deref h a = Some nd \<Longrightarrow> \<forall>t \<in> set vs. trep h d t \<Longrightarrow> distinct (a # concat (map addrs vs)) \<Longrightarrow>
    \<exists>h'. free_from h a (length us) = Some h' \<and> freed (set (a # concat (map addrs vs))) h h'"
proof (induction vs arbitrary: us h)
  case Nil
  then show ?case using nd freed_one [of a h] by (subst free_from.simps) (auto simp: twig_rep_def dest!: arg_cong [of _ _ length])
next
  case (Cons t vs)
  obtain h1 where h1: "free_from h (groot t) 0 = Some h1" "freed (set (addrs t)) h h1"
    using IH [of t h] Cons.prems by auto
  have "trep h1 d s" if "s \<in> set vs" for s
  proof (rule trep_same_cells [of h d s])
    show "trep h d s" using Cons.prems(3) that by simp
    show "deref h1 x = deref h x" if "x \<in> set (addrs s)" for x
      using Cons.prems(4) that \<open>s \<in> set vs\<close> h1(2) by (auto simp: freed_def)
  qed
  moreover have "deref h1 a = Some nd" using Cons.prems(2,4) h1(2) by (simp add: freed_def)
  ultimately obtain h2 where h2: "free_from h1 a (length (us @ [t])) = Some h2" "freed (set (a # concat (map addrs vs))) h1 h2"
    using Cons.IH [of "us @ [t]" h1] Cons.prems(1,4) by auto
  have "length us \<le> bt_n nd" "bt_innerp nd" "bt_val nd ! length us = UT (groot t)"
    using nd Cons.prems(1) by (auto simp: twig_rep_def nth_append)
  then have "free_from h a (length us) = Some h2"
    using Cons.prems(2) h1(1) h2(1) by (subst free_from.simps) simp
  moreover have "freed (set (a # concat (map addrs (t # vs)))) h h2"
    using freed_trans [OF h1(2) h2(2)] by (simp add: Un_commute insert_commute)
  ultimately show ?case by blast
qed

lemma free_from_tree:
  "trep h d T \<Longrightarrow> distinct (addrs T) \<Longrightarrow> \<exists>h'. free_from h (groot T) 0 = Some h' \<and> freed (set (addrs T)) h h'"
proof (induction T arbitrary: h)
  case (GL a xs)
  then show ?case using freed_one [of a h] by (subst free_from.simps) (auto simp: leaf_rep_def)
next
  case (GN a ks ts)
  then obtain nd where nd: "deref h a = Some nd" "twig_rep nd d ks (map groot ts)" by auto
  have "\<exists>h'. free_from h a (length ([] :: gtree list)) = Some h' \<and> freed (set (a # concat (map addrs ts))) h h'"
    using GN.prems by (intro free_from_children [OF nd(2) GN.IH _ nd(1)]) simp_all
  then show ?case by simp
qed

subsection \<open>Books whose sides are trees\<close>

definition tree_side :: "book_t \<Rightarrow> book_side_t \<Rightarrow> bool" where
  "tree_side b s \<longleftrightarrow> (\<exists>h t T. BOOK b s = Some (h, t) \<and> tree_ok h (s = BOOK_SIDE_BID) t T)"

definition tree_book :: "book_t \<Rightarrow> bool" where
  "tree_book b \<longleftrightarrow> tree_side b BOOK_SIDE_ASK \<and> tree_side b BOOK_SIDE_BID"


lemma new_tree_ok: "tree_ok [Some (new_btree d)] d 0 (GL 0 [])"
  by (simp add: tree_ok_def tree_wf_def deref_def leaf_rep_def node_shape_def new_btree_def countof_key_def key_fill_nan)

lemma make_book_trees: "tree_book make_book"
  using new_tree_ok by (auto simp: tree_book_def tree_side_def make_book_def make_btree_def BOOK_def nth_opt_def)

lemma tree_side_set:
  assumes "BOOK b s = Some (h, t)" "tree_ok h' (s = BOOK_SIDE_BID) t T" "tree_book b"
  shows "tree_book (set_side b s h')"
proof -
  have "tree_side (set_side b s h') s'" if "tree_side b s'" for s'
    using assms(2) that by (auto simp: tree_side_def BOOK_set_side [OF assms(1)])
  then show ?thesis using assms(3) by (simp add: tree_book_def)
qed

lemma swap_level_trees:
  assumes "tree_book b" "q_s q = BOOK_SIDE_ASK \<or> q_s q = BOOK_SIDE_BID" "\<not> isnand64 (q_p q)"
  shows "\<exists>b' (v :: btree_val). swap_level b q f = Some (b', q\<lparr>q_q := val_q v, q_t := val_t v\<rparr>) \<and> tree_book b'"
proof -
  obtain h t T where h: "BOOK b (q_s q) = Some (h, t)" "tree_ok h (q_s q = BOOK_SIDE_BID) t T"
    using assms(1,2) by (auto simp: tree_book_def tree_side_def)
  obtain h1 p w where p: "btree_put h t (q_p q) = Some (h1, p)" "load_val h1 p = Some w"
     "\<And>v. \<exists>h'' T''. store_val h1 p v = Some h'' \<and> tree_ok h'' (q_s q = BOOK_SIDE_BID) t T''"
    using put_store_ok [OF h(2) assms(3)] by blast
  obtain h2 T2 where h2: "store_val h1 p (f w) = Some h2" "tree_ok h2 (q_s q = BOOK_SIDE_BID) t T2" using p(3) by blast
  then have "swap_level b q f = Some (set_side b (q_s q) h2, q\<lparr>q_q := val_q w, q_t := val_t w\<rparr>)"
    using h(1) p(1,2) by (simp add: swap_level_def)
  then show ?thesis using tree_side_set [OF h(1) h2(2) assms(1)] by blast
qed

text \<open>Quotes that set or change a single level.\<close>

lemma book_add_trees:
  assumes "tree_book b" "q_s q = BOOK_SIDE_ASK \<or> q_s q = BOOK_SIDE_BID" "q_f q = BOOK_LVL_2 \<or> q_f q = BOOK_LVL_3" "\<not> isnand64 (q_p q)"
  shows "\<exists>b' (v :: btree_val). book_add b q = Some (b', q\<lparr>q_q := val_q v, q_t := val_t v\<rparr>) \<and> tree_book b'"
proof -
  obtain f where "book_add b q = swap_level b q f" using assms(2,3) by (auto simp: book_add_def)
  then show ?thesis using swap_level_trees [OF assms(1,2,4), of f] by simp
qed

lemma free_book_trees:
  assumes "tree_book b"
  shows "\<exists>r. free_book b = Some r"
proof -
  obtain h t T where a: "BOOK b BOOK_SIDE_ASK = Some (h, t)" "tree_ok h False t T" using assms by (auto simp: tree_book_def tree_side_def)
  obtain h' t' T' where b: "BOOK b BOOK_SIDE_BID = Some (h', t')" "tree_ok h' True t' T'" using assms by (auto simp: tree_book_def tree_side_def)
  obtain g g' where "free_btree h t = Some g" "free_btree h' t' = Some g'"
    using a(2) b(2) free_from_tree unfolding tree_ok_def tree_wf_def free_btree_def by blast
  then show ?thesis using a(1) b(1) by (simp add: free_book_def BOOK_def)
qed

subsection \<open>Properties\<close>

text \<open>
  C11: \<open>free_btree\<close> on a tree of any height ends and frees every node of the tree exactly once: no node is visited after it was
  freed, all of them are gone, and no other memory is touched.
\<close>

theorem free_btree_frees:
  assumes "tree_ok h d t T"
  shows "\<exists>h'. free_btree h t = Some h' \<and> (\<forall>x. deref h' x = (if x \<in> set (addrs T) then None else deref h x))"
  using assms free_from_tree [of h d T] by (auto simp: tree_ok_def tree_wf_def free_btree_def freed_def)

theorem free_btree_frees_witness:
  "\<exists>h'. free_btree (two_leaves crowded_leaf) 0 = Some h' \<and> deref h' 0 = None \<and> deref h' 1 = None \<and> deref h' 2 = None"
  using free_btree_frees [OF crowded_tree_ok] by auto

text \<open>
  C12: Well-formedness is kept, without a bound on the number of levels: a level-2 or level-3 quote at a price that is a number is taken by
  a book whose sides are trees in order, of any height, and leaves it such a book; the quote handed back is for
  the same side and price.
\<close>

theorem book_add_keeps_trees:
  assumes "tree_book b" "q_s q = BOOK_SIDE_ASK \<or> q_s q = BOOK_SIDE_BID" "q_f q = BOOK_LVL_2 \<or> q_f q = BOOK_LVL_3" "\<not> isnand64 (q_p q)"
  shows "\<exists>b' old. book_add b q = Some (b', old) \<and> tree_book b' \<and> q_s old = q_s q \<and> q_f old = q_f q \<and> q_p old = q_p q"
  using book_add_trees [OF assms] by force

theorem book_add_keeps_trees_witness:
  "\<exists>b' old. book_add make_book \<lparr>q_s = BOOK_SIDE_BID, q_f = BOOK_LVL_2, q_p = dd 100 0, q_q = dd 10 0, q_t = 5\<rparr> = Some (b', old) \<and>
    tree_book b' \<and> q_p old = dd 100 0"
  using book_add_keeps_trees [OF make_book_trees, of "\<lparr>q_s = BOOK_SIDE_BID, q_f = BOOK_LVL_2, q_p = dd 100 0, q_q = dd 10 0, q_t = 5\<rparr>"]
    not_nan_100 by auto

end
