(* ===== verification/Dfp754_Strings.thy ===== *)
theory Dfp754_Strings
  imports Dfp754_d64
begin

text \<open>
  Decimals as text: what \<open>strtod64\<close> reads from a string of digits, what \<open>d64tostr\<close> writes, and that the
  one undoes the other. Both go through packed BCD, one digit per nibble; \<open>pack_digits\<close> is its meaning.
\<close>

subsection \<open>Packed digits\<close>

text \<open>The lowest \<open>n\<close> decimal digits of a number, one per nibble.\<close>

fun pack_digits :: "nat \<Rightarrow> nat \<Rightarrow> nat" where
  "pack_digits 0 c = 0"
| "pack_digits (Suc n) c = c mod 10 + 16 * pack_digits n (c div 10)"

lemma pack_digits_0 [simp]: "pack_digits n 0 = 0"
  by (induction n) auto

lemma pack_digits_less: "pack_digits n c < 16 ^ n"
proof (induction n arbitrary: c)
  case (Suc n)
  have "c mod 10 < 16" by (rule less_trans [of _ 10]) simp_all
  then show ?case using Suc [of "c div 10"] by simp
qed simp

lemma pack_digits_zero_iff: "c < 10 ^ n \<Longrightarrow> pack_digits n c = 0 \<longleftrightarrow> c = 0"
proof (induction n arbitrary: c)
  case (Suc n)
  from Suc.prems have "c div 10 < 10 ^ n" by (simp add: less_mult_imp_div_less mult.commute)
  then show ?case using Suc.IH by simp presburger
qed simp

lemma pack_digits_div: "pack_digits (k + n) c div 16 ^ k = pack_digits n (c div 10 ^ k)"
proof (induction k arbitrary: c)
  case (Suc k)
  have "(c mod 10 + 16 * z) div 16 = z" for z by simp
  then show ?case using Suc [of "c div 10"] by (simp add: div_mult2_eq)
qed simp

lemma pack_digits_nibble: "k < n \<Longrightarrow> pack_digits n c div 16 ^ k mod 16 = c div 10 ^ k mod 10"
proof -
  assume "k < n"
  then obtain m where "n = k + Suc m" using less_imp_Suc_add by fastforce
  then have "pack_digits n c div 16 ^ k = c div 10 ^ k mod 10 + 16 * pack_digits m (c div 10 ^ k div 10)"
    using pack_digits_div [of k "Suc m" c] by (simp only: pack_digits.simps)
  moreover have "c div 10 ^ k mod 10 < 16" by (rule less_trans [of _ 10]) simp_all
  ultimately show ?thesis by simp
qed

lemma unat_nibble: "unat ((w :: 64 word) AND 0b1111) = unat w mod 16"
proof -
  have "w AND 0b1111 = w mod 16" using take_bit_eq_mask [of 4 w] by (simp add: take_bit_eq_mod mask_eq_exp_minus_1)
  then show ?thesis by (simp add: unat_mod)
qed

lemma unat_drop_nibbles: "unat (drop_bit (4 * k) (w :: 64 word)) = unat w div 16 ^ k"
proof -
  have "(2 :: nat) ^ (4 * k) = 16 ^ k" by (simp add: power_mult)
  moreover have "take_bit LENGTH(64) (unat w) = unat w" using unsigned_less [where ?'a = nat, of w] by (simp add: take_bit_nat_eq_self)
  ultimately show ?thesis by (simp only: unsigned_drop_bit_eq drop_bit_eq_div [where ?'a = nat])
qed

lemmas unat_drop_nibble = unat_drop_nibbles [of 1, simplified]

text \<open>Adding a nibble at the lower end.\<close>

lemma unat_push_nibble:
  fixes m d :: "64 word"
  assumes "unat m < 16 ^ 15" "unat d < 16"
  shows "unat (push_bit 4 m OR d) = 16 * unat m + unat d"
proof -
  have d: "\<not> bit d n" if "4 \<le> n" for n
  proof -
    have "take_bit 4 (unat d) = unat d" using assms(2) by (simp add: take_bit_eq_mod)
    then have "\<not> bit (unat d) n" using that by (metis bit_take_bit_iff not_less)
    then show ?thesis by (simp add: bit_unsigned_iff bit_imp_le_length)
  qed
  have "push_bit 4 m OR d = push_bit 4 m + d"
    by (rule disjunctive_add_eq_or [symmetric], rule bit_word_eqI) (use d in \<open>auto simp: bit_and_iff bit_push_bit_iff\<close>)
  also have "\<dots> = of_nat (16 * unat m + unat d)" by (simp add: push_bit_eq_mult)
  finally show ?thesis using assms by (simp only: unat_of_nat) (simp add: take_bit_eq_mod)
qed

text \<open>Encoding: each step shifts a digit in from the upper end.\<close>

lemma unat_shift_in:
  fixes b d :: "64 word"
  assumes "unat d < 16"
  shows "unat (drop_bit 4 b XOR push_bit 60 d) = unat b div 16 + 16 ^ 15 * unat d"
proof -
  have disj: "\<not> (bit (drop_bit 4 b) n \<and> bit (push_bit 60 d) n)" for n
    by (auto simp: bit_push_bit_iff bit_drop_bit_eq dest: bit_imp_le_length)
  have "drop_bit 4 b XOR push_bit 60 d = drop_bit 4 b OR push_bit 60 d"
    by (rule bit_word_eqI, unfold bit_xor_iff bit_or_iff) (use disj in blast)
  also have "\<dots> = drop_bit 4 b + push_bit 60 d"
    by (rule disjunctive_add_eq_or [symmetric], rule bit_word_eqI, unfold bit_and_iff bit_0_eq) (use disj in simp)
  also have "\<dots> = of_nat (unat b div 16 + 16 ^ 15 * unat d)"
    by (simp add: push_bit_eq_mult of_nat_mult flip: unat_drop_nibble)
  finally have eq: "drop_bit 4 b XOR push_bit 60 d = of_nat (unat b div 16 + 16 ^ 15 * unat d)" .
  have "unat b div 16 < 16 ^ 15" using unsigned_less [where ?'a = nat, of b] by simp
  then have "unat b div 16 + 16 ^ 15 * unat d < 2 ^ 64" using assms by simp
  then show ?thesis unfolding eq by (simp only: unat_of_nat) (simp add: take_bit_eq_mod)
qed

lemma bcd_encode_packs:
  "i \<le> 16 \<Longrightarrow> unat (bcd_encode i b m) = unat b div 16 ^ i + 16 ^ (16 - i) * pack_digits i (unat m)"
proof (induction i arbitrary: b m)
  case (Suc i)
  have d: "unat (m mod 10) = unat m mod 10" by (simp add: unat_mod)
  have "(16 :: nat) ^ 15 = 16 ^ i * 16 ^ (15 - i)" using Suc.prems by (simp flip: power_add)
  then have s: "(x + 16 ^ 15 * y) div 16 ^ i = x div 16 ^ i + 16 ^ (15 - i) * y" for x y :: nat
    by (simp only: mult.assoc) (simp add: div_mult_self2)
  have "(16 :: nat) ^ (16 - i) = 16 * 16 ^ (15 - i)" using Suc.prems by (simp flip: power_Suc add: Suc_diff_le)
  moreover have "unat (drop_bit 4 b XOR push_bit 60 (m mod 10)) = unat b div 16 + 16 ^ 15 * (unat m mod 10)"
    using unat_shift_in [of "m mod 10" b] by (simp add: d)
  moreover have "unat (m div 10) = unat m div 10" by (simp add: unat_div)
  ultimately show ?case using Suc
    by (simp only: bcd_encode.simps pack_digits.simps s Suc_leD) (simp add: div_mult2_eq algebra_simps)
qed simp

lemma bcd_encode_16: "unat (bcd_encode 16 0 m) = pack_digits 16 (unat m)"
  using bcd_encode_packs [of 16 0 m] by simp

subsection \<open>From packed digits to a number\<close>

lemma bits64_eq_iff:
  "(\<forall>n < 64 :: nat. P n) \<longleftrightarrow> list_all P
     [0, 1, 2, 3, 4, 5, 6, 7, 8, 9, 10, 11, 12, 13, 14, 15, 16, 17, 18, 19, 20, 21, 22, 23, 24, 25, 26, 27, 28, 29, 30, 31,
      32, 33, 34, 35, 36, 37, 38, 39, 40, 41, 42, 43, 44, 45, 46, 47, 48, 49, 50, 51, 52, 53, 54, 55, 56, 57, 58, 59, 60, 61, 62, 63]"
  (is "_ \<longleftrightarrow> list_all _ ?ns")
proof -
  have "?ns = [0..<64]" by (simp add: upt_rec)
  then show ?thesis by (simp only: list_all_iff set_upt) auto
qed

lemma mirror_nibbles_bit: "\<forall>n < 64. bit (mirror_nibbles m) n = bit m (60 - n div 4 * 4 + n mod 4)"
  unfolding bits64_eq_iff mirror_nibbles_def Let_def by (simp add: bit_simps) (simp only: numeral_2_eq_2 numeral_3_eq_3 simp_thms)

lemma mirror_nibbles_nibble:
  assumes "k < 16"
  shows "drop_bit (4 * k) (mirror_nibbles m) AND 0b1111 = drop_bit (4 * (15 - k)) m AND 0b1111"
proof (rule bit_word_eqI)
  fix n :: nat
  have "bit (mirror_nibbles m) (4 * k + n) = bit m (4 * (15 - k) + n)" if "n < 4"
  proof -
    have "60 - (4 * k + n) div 4 * 4 + (4 * k + n) mod 4 = 4 * (15 - k) + n" "4 * k + n < 64" using that assms by auto
    then show ?thesis using mirror_nibbles_bit [of m] by metis
  qed
  moreover have "bit (0b1111 :: 64 word) n \<longleftrightarrow> n < 4"
    using bit_mask_iff [where ?'a = "64 word", of 4 n] by (simp add: mask_eq_exp_minus_1) linarith
  ultimately show "bit (drop_bit (4 * k) (mirror_nibbles m) AND 0b1111) n = bit (drop_bit (4 * (15 - k)) m AND 0b1111) n"
    by (simp only: bit_and_iff bit_drop_bit_eq comp_apply) blast
qed

lemma horner_nibbles_value:
  assumes "\<And>k. k < n \<Longrightarrow> unat (drop_bit (4 * k) b AND 0b1111) = c div 10 ^ (n - 1 - k) mod 10"
  shows "horner_nibbles n b m = m * 10 ^ n + of_nat (c mod 10 ^ n)"
  using assms
proof (induction n arbitrary: b m)
  case (Suc n)
  have "b AND 0b1111 = of_nat (c div 10 ^ n mod 10)"
    using arg_cong [OF Suc.prems [of 0], of "of_nat :: nat \<Rightarrow> 64 word"] by simp
  moreover have "unat (drop_bit (4 * k) (drop_bit 4 b) AND 0b1111) = c div 10 ^ (n - 1 - k) mod 10" if "k < n" for k
    using Suc.prems [of "Suc k"] that by (simp add: add.commute)
  moreover have "c mod 10 ^ Suc n = 10 ^ n * (c div 10 ^ n mod 10) + c mod 10 ^ n"
    by (metis add.commute mod_mult2_eq mult.commute power_Suc)
  ultimately show ?case using Suc.IH [of "drop_bit 4 b"] by (simp only: horner_nibbles.simps) (simp add: algebra_simps)
qed simp

lemma bcd64tobid_value:
  assumes m: "unat (bcd_mant b) = pack_digits 15 c" and c: "c < 10 ^ 15"
  shows "horner_nibbles 15 (drop_bit 4 (mirror_nibbles (bcd_mant b))) 0 = of_nat c"
proof -
  have "unat (drop_bit (4 * k) (drop_bit 4 (mirror_nibbles (bcd_mant b))) AND 0b1111) = c div 10 ^ (15 - 1 - k) mod 10"
    if "k < 15" for k
  proof -
    have "drop_bit (4 * k) (drop_bit 4 (mirror_nibbles (bcd_mant b))) = drop_bit (4 * Suc k) (mirror_nibbles (bcd_mant b))"
      by (simp add: add.commute)
    then show ?thesis using that mirror_nibbles_nibble [of "Suc k" "bcd_mant b"]
      by (simp only: unat_nibble unat_drop_nibbles m) (simp add: unat_nibble unat_drop_nibbles m pack_digits_nibble)
  qed
  then show ?thesis using horner_nibbles_value [of 15 _ c 0] c by simp
qed

lemma assemble_sign: "assemble_bid m e (- 1) = assemble_bid m e 1"
proof -
  have "push_bit 63 (- 1) = (push_bit 63 1 :: 64 word)" by (simp add: push_bit_eq_mult)
  then show ?thesis by (simp only: assemble_bid_def)
qed

lemma bcd64tobid_encodes:
  assumes "unat (bcd_mant b) = pack_digits 15 c" "c < 10 ^ 15" "- 398 \<le> bcd_expo b" "bcd_expo b \<le> 369"
    and s: "bcd_sign b = (if s then 1 else 0)"
  shows "bcd64tobid b = d64_of_dec (DFin s (int c) (bcd_expo b))"
proof -
  have "of_nat c = (word_of_int (int c) :: 64 word)" by simp
  then have "bcd64tobid b = assemble_bid (word_of_int (int c)) (word_of_int (bcd_expo b + 398)) (if s then 1 else 0)"
    using s unfolding bcd64tobid_def bcd64tobid_value [OF assms(1,2)] by simp
  also have "\<dots> = assemble_bid (word_of_int (int c)) (word_of_int (bcd_expo b + 398)) (if s then - 1 else 0)"
    by (simp add: assemble_sign)
  also have "\<dots> = d64_of_dec (DFin s (int c) (bcd_expo b))"
    by (rule assemble_bid_encodes) (use assms in auto)
  finally show ?thesis .
qed

subsection \<open>Reading\<close>

definition dig :: "char \<Rightarrow> nat" where
  "dig c = cval c - 48"

definition dec_value :: "string \<Rightarrow> nat" where
  "dec_value ds = foldl (\<lambda>a c. 10 * a + dig c) 0 ds"

definition hex_value :: "nat \<Rightarrow> string \<Rightarrow> nat" where
  "hex_value a ds = foldl (\<lambda>a c. 16 * a + dig c) a ds"

lemma dig_less: "isdig c \<Longrightarrow> dig c < 10"
  by (auto simp: isdig_def dig_def)

lemma unat_digU: "isdig c \<Longrightarrow> unat (digU c) = dig c"
  using dig_less [of c] by (simp add: digU_def unat_of_nat take_bit_eq_mod flip: dig_def)

lemma dec_value_less: "list_all isdig ds \<Longrightarrow> dec_value ds < 10 ^ length ds"
proof (induction ds rule: rev_induct)
  case (snoc c ds)
  then show ?case using dig_less [of c] by (simp add: dec_value_def)
qed (simp add: dec_value_def)

lemma hex_value_packs: "list_all isdig ds \<Longrightarrow> length ds \<le> n \<Longrightarrow> hex_value 0 ds = pack_digits n (dec_value ds)"
proof (induction ds arbitrary: n rule: rev_induct)
  case (snoc c ds)
  then obtain m where "n = Suc m" "length ds \<le> m" by (cases n) auto
  then show ?case using snoc dig_less [of c] by (simp add: hex_value_def dec_value_def)
qed (simp add: hex_value_def dec_value_def)

lemma hex_value_less: "list_all isdig ds \<Longrightarrow> length ds \<le> n \<Longrightarrow> hex_value 0 ds < 16 ^ n"
  using hex_value_packs [of ds n] pack_digits_less by simp

lemma hex_value_snoc [simp]: "hex_value a (ds @ [c]) = 16 * hex_value a ds + dig c"
  by (simp add: hex_value_def)

text \<open>Both scans read digits that come after the digits \<open>ps\<close>, up to the end of the number.\<close>

definition no_digit :: "string \<Rightarrow> bool" where
  "no_digit sp \<longleftrightarrow> \<not> isdig (deref_c sp)"

lemma push_digit:
  assumes "unat mant = hex_value 0 ps" "list_all isdig ps" "length ps < 15" "isdig c"
  shows "unat (push_bit 4 mant OR digU c) = hex_value 0 (ps @ [c])"
  using assms hex_value_less [of ps 14] dig_less [of c]
  by (subst unat_push_nibble) (simp_all add: unat_digU)

lemma scan_digits_reads:
  assumes "list_all isdig (ps @ ds)" "length (ps @ ds) \<le> 15" "nd = 15 - length ps" "unat mant = hex_value 0 ps" "no_digit sp"
  shows "\<exists>mant'. scan_digits nd (ds @ sp) mant = (15 - length (ps @ ds), sp, mant') \<and> unat mant' = hex_value 0 (ps @ ds)"
  using assms
proof (induction ds arbitrary: ps nd mant)
  case Nil
  then show ?case by (cases sp) (auto simp: no_digit_def deref_c_def)
next
  case (Cons c ds)
  have "unat (push_bit 4 mant OR digU c) = hex_value 0 (ps @ [c])" using Cons.prems by (intro push_digit) auto
  then show ?case using Cons.IH [of "ps @ [c]" "nd - 1"] Cons.prems by simp
qed

lemma scan_fraction_reads:
  assumes "list_all isdig (ps @ ds)" "length (ps @ ds) \<le> 15" "nd = 15 - length ps" "unat mant = hex_value 0 ps" "no_digit sp"
  shows "\<exists>mant'. scan_fraction nd (ds @ sp) mant e = (15 - length (ps @ ds), sp, mant', e - int (length ds)) \<and>
    unat mant' = hex_value 0 (ps @ ds)"
  using assms
proof (induction ds arbitrary: ps nd mant e)
  case Nil
  then show ?case by (cases sp) (auto simp: no_digit_def deref_c_def)
next
  case (Cons c ds)
  have "unat (push_bit 4 mant OR digU c) = hex_value 0 (ps @ [c])" using Cons.prems by (intro push_digit) auto
  then show ?case using Cons.IH [of "ps @ [c]" "nd - 1" _ "e - 1"] Cons.prems by (simp add: algebra_simps)
qed

lemma no_digit_stops:
  assumes "no_digit sp"
  shows "half_up sp = 0" "skip_digits sp e = (sp, e)" "dropWhile isdig sp = sp" "dropWhile (\<lambda>c. c = CHR ''0'') sp = sp"
  using assms by (cases sp; auto simp: no_digit_def deref_c_def half_up_def isdig_def cval_def)+

lemma dec_value_zeros: "dec_value (dropWhile (\<lambda>c. c = CHR ''0'') ip @ fp) = dec_value (ip @ fp)"
  by (induction ip) (auto simp: dec_value_def dig_def cval_def)

text \<open>A number as text: a sign, digits, and perhaps a point and more digits.\<close>

definition sign_text :: "string \<Rightarrow> bool \<Rightarrow> bool" where
  "sign_text sg s \<longleftrightarrow> (if s then sg = ''-'' else sg = [] \<or> sg = ''+'')"

definition point :: "string option \<Rightarrow> string" where
  "point fp = (case fp of None \<Rightarrow> [] | Some ds \<Rightarrow> CHR ''.'' # ds)"

definition fraction :: "string option \<Rightarrow> string" where
  "fraction fp = (case fp of None \<Rightarrow> [] | Some ds \<Rightarrow> ds)"

definition number_ends :: "string option \<Rightarrow> string \<Rightarrow> bool" where
  "number_ends fp rest \<longleftrightarrow> no_digit rest \<and> (fp = None \<longrightarrow> deref_c rest \<noteq> CHR ''.'')"

lemma dropWhile_zeros_append:
  "no_digit sp \<Longrightarrow> dropWhile (\<lambda>c. c = CHR ''0'') (ip @ sp) = dropWhile (\<lambda>c. c = CHR ''0'') ip @ sp"
  by (induction ip) (simp_all add: no_digit_stops)

lemma no_digit_point: "number_ends fp rest \<Longrightarrow> no_digit (point fp @ rest)"
  by (cases fp) (auto simp: number_ends_def point_def no_digit_def deref_c_def isdig_def cval_def)

lemma sign_read:
  assumes "sign_text sg s" "list_all isdig ip" "ip \<noteq> []"
  shows "(if deref_c (sg @ ip @ sp) = CHR ''-'' then (1 :: int, tl (sg @ ip @ sp))
     else if deref_c (sg @ ip @ sp) = CHR ''+'' then (0, tl (sg @ ip @ sp)) else (0, sg @ ip @ sp)) =
     (if s then 1 else 0, ip @ sp)"
  using assms by (cases ip) (auto simp: sign_text_def deref_c_def isdig_def cval_def split: if_splits)

lemma strtobcd64_reads:
  assumes sg: "sign_text sg s" and ip: "list_all isdig ip" "ip \<noteq> []" and fp: "list_all isdig (fraction fp)"
    and len: "length (dropWhile (\<lambda>c. c = CHR ''0'') ip) + length (fraction fp) \<le> 15"
    and rest: "number_ends fp rest"
  shows "\<exists>mant. strtobcd64 (sg @ ip @ point fp @ rest) =
      Some (\<lparr>bcd_mant = mant, bcd_expo = - int (length (fraction fp)), bcd_sign = (if s then 1 else 0)\<rparr>, rest) \<and>
    unat mant = pack_digits 15 (dec_value (ip @ fraction fp))"
proof -
  let ?ip = "dropWhile (\<lambda>c. c = CHR ''0'') ip"
  have ds: "list_all isdig ?ip" using ip(1) by (auto simp: list_all_iff dest: set_dropWhileD)
  note tail = no_digit_point [OF rest]
  obtain mant where m: "scan_digits 15 (?ip @ point fp @ rest) 0 = (15 - length ?ip, point fp @ rest, mant)"
     "unat mant = hex_value 0 ?ip"
    using scan_digits_reads [of "[]" ?ip 15 0 "point fp @ rest"] ds len tail by (auto simp: hex_value_def)
  obtain mant' where m': "scan_fraction (15 - length ?ip) (fraction fp @ rest) mant 0 =
       (15 - length (?ip @ fraction fp), rest, mant', 0 - int (length (fraction fp)))"
     "unat mant' = hex_value 0 (?ip @ fraction fp)"
    using scan_fraction_reads [of ?ip "fraction fp" "15 - length ?ip" mant rest 0] ds fp len rest m(2)
    by (auto simp: number_ends_def)
  have packed: "hex_value 0 (?ip @ fraction fp) = pack_digits 15 (dec_value (ip @ fraction fp))"
    using hex_value_packs [of "?ip @ fraction fp" 15] ds fp len by (simp add: dec_value_zeros)
  have nd: "no_digit rest" using rest by (simp add: number_ends_def)
  note read = strtobcd64_def sign_read [OF sg ip] dropWhile_zeros_append [OF tail] m(1) no_digit_stops [OF tail] Let_def prod.case
  show ?thesis
  proof (cases fp)
    case None
    then have "deref_c (point fp @ rest) \<noteq> CHR ''.''" using rest by (simp add: point_def number_ends_def)
    then show ?thesis using m(2) packed
      by (simp only: read) (simp add: None point_def fraction_def)
  next
    case (Some f)
    then have "deref_c (point fp @ rest) = CHR ''.''" "tl (point fp @ rest) = fraction fp @ rest"
      by (simp_all add: point_def fraction_def deref_c_def)
    moreover have "fraction fp = [] \<and> mant' = mant" if "length ?ip = 15"
      using that len m'(1) nd by (cases rest) (simp_all add: no_digit_def deref_c_def)
    ultimately show ?thesis using m(2) m' packed len
      by (cases "length ?ip = 15"; simp only: read; simp add: no_digit_stops [OF nd])
  qed
qed

lemma strtod64_number:
  assumes "sign_text sg s" "list_all isdig ip" "ip \<noteq> []" "list_all isdig (fraction fp)"
    and len: "length (dropWhile (\<lambda>c. c = CHR ''0'') ip) + length (fraction fp) \<le> 15"
    and "number_ends fp rest"
  shows "strtod64 (sg @ ip @ point fp @ rest) =
    Some (d64_of_dec (DFin s (int (dec_value (ip @ fraction fp))) (- int (length (fraction fp)))), rest)"
proof -
  let ?ip = "dropWhile (\<lambda>c. c = CHR ''0'') ip"
  obtain mant where m: "strtobcd64 (sg @ ip @ point fp @ rest) =
      Some (\<lparr>bcd_mant = mant, bcd_expo = - int (length (fraction fp)), bcd_sign = (if s then 1 else 0)\<rparr>, rest)"
    "unat mant = pack_digits 15 (dec_value (ip @ fraction fp))"
    using strtobcd64_reads [OF assms] by blast
  have "list_all isdig ?ip" using assms(2) by (auto simp: list_all_iff dest: set_dropWhileD)
  then have "dec_value (?ip @ fraction fp) < 10 ^ length (?ip @ fraction fp)" using assms(4) by (intro dec_value_less) simp
  also have "\<dots> \<le> 10 ^ 15" using len by (intro power_increasing) auto
  finally have "dec_value (ip @ fraction fp) < 10 ^ 15" by (simp add: dec_value_zeros)
  then show ?thesis using m len by (simp add: strtod64_def strtobid64_def bcd64tobid_encodes)
qed

subsection \<open>Writing\<close>

definition dchar :: "nat \<Rightarrow> char" where
  "dchar d = char_of (d + 48)"

text \<open>The lowest \<open>k\<close> digits of a number, and all its digits, the lowest first.\<close>

fun low_digits :: "nat \<Rightarrow> nat \<Rightarrow> string" where
  "low_digits 0 c = []"
| "low_digits (Suc k) c = dchar (c mod 10) # low_digits k (c div 10)"

fun all_digits :: "nat \<Rightarrow> string" where
  "all_digits c = (if c = 0 then [] else dchar (c mod 10) # all_digits (c div 10))"

declare all_digits.simps [simp del]

lemma all_digits_simps [simp]:
  "all_digits 0 = []" "c \<noteq> 0 \<Longrightarrow> all_digits c = dchar (c mod 10) # all_digits (c div 10)"
  by (simp_all add: all_digits.simps [of 0] all_digits.simps [of c])

lemma dchar_digit: "d < 10 \<Longrightarrow> isdig (dchar d)" "d < 10 \<Longrightarrow> dig (dchar d) = d"
  by (simp_all add: isdig_def dig_def cval_def dchar_def)

lemma low_digits_ok: "list_all isdig (low_digits k c)" "length (low_digits k c) = k"
  by (induction k arbitrary: c) (simp_all add: dchar_digit)

lemma all_digits_ok: "list_all isdig (all_digits c)"
proof (induction c rule: all_digits.induct)
  case (1 c)
  then show ?case by (cases "c = 0") (simp_all add: dchar_digit)
qed

lemma all_digits_length: "c < 10 ^ n \<Longrightarrow> length (all_digits c) \<le> n"
proof (induction n arbitrary: c)
  case (Suc n)
  then have "c div 10 < 10 ^ n" by (simp add: less_mult_imp_div_less mult.commute)
  then show ?case using Suc.IH by (cases "c = 0") simp_all
qed simp

lemma low_digits_value: "foldl (\<lambda>a c. 10 * a + dig c) a (rev (low_digits k c)) = a * 10 ^ k + c mod 10 ^ k"
proof (induction k arbitrary: c)
  case (Suc k)
  have "c mod 10 ^ Suc k = c mod 10 + 10 * (c div 10 mod 10 ^ k)" by (simp add: mod_mult2_eq)
  then show ?case using Suc [of "c div 10"] by (simp add: dchar_digit algebra_simps)
qed simp

lemma all_digits_value: "foldl (\<lambda>a c. 10 * a + dig c) 0 (rev (all_digits c)) = c"
proof (induction c rule: all_digits.induct)
  case (1 c)
  then show ?case by (cases "c = 0") (simp_all add: dchar_digit)
qed

lemma Cchr_nibble: "unat mant = pack_digits (Suc n) c \<Longrightarrow> Cchr (mant AND 0b1111) = dchar (c mod 10)"
  using pack_digits_nibble [of 0 "Suc n" c] by (simp only: Cchr_def unat_nibble dchar_def) simp

lemma drop_nibble: "unat mant = pack_digits (Suc n) c \<Longrightarrow> unat (drop_bit 4 (mant :: 64 word)) = pack_digits n (c div 10)"
  using pack_digits_div [of 1 n c] by (simp add: unat_drop_nibble)

lemma bcd_frac_writes:
  assumes "unat mant = pack_digits n c" "k \<le> room" "k \<le> n"
  shows "bcd_frac room (- int k) mant = (low_digits k c, room - k, 0, drop_bit (4 * k) mant)"
  using assms
proof (induction k arbitrary: n c room mant)
  case 0
  then show ?case by (cases room) auto
next
  case (Suc k)
  then obtain n' room' where n: "n = Suc n'" "room = Suc room'" by (metis Suc_le_D)
  have "bcd_frac room' (- int k) (drop_bit 4 mant) =
      (low_digits k (c div 10), room' - k, 0, drop_bit (4 * k) (drop_bit 4 mant))"
    using Suc n by (intro Suc.IH [of _ n']) (auto intro: drop_nibble)
  then show ?case using Suc.prems Cchr_nibble [of mant n' c] n by (simp add: add.commute)
qed

lemma bcd_mants_writes:
  assumes "unat mant = pack_digits n c" "c < 10 ^ n" "length (all_digits c) \<le> room"
  shows "bcd_mants room mant = (all_digits c, room - length (all_digits c))"
  using assms
proof (induction n arbitrary: c room mant)
  case 0
  then show ?case by (cases room) (auto simp: unat_eq_0)
next
  case (Suc n)
  show ?case
  proof (cases "c = 0")
    case True
    then show ?thesis using Suc.prems(1) by (cases room) (auto simp: unat_eq_0)
  next
    case False
    then obtain room' where r: "room = Suc room'" using Suc.prems(3) by (cases room) auto
    have "mant \<noteq> 0" using Suc.prems False pack_digits_zero_iff [of c "Suc n"] by (metis unsigned_0)
    moreover have "c div 10 < 10 ^ n" using Suc.prems(2) by (simp add: less_mult_imp_div_less mult.commute)
    ultimately show ?thesis
      using Suc.IH [of "drop_bit 4 mant" "c div 10" room'] Suc.prems r False drop_nibble [of mant n c] Cchr_nibble [of mant n c]
      by simp
  qed
qed

text \<open>The text of a significand \<open>c\<close> with \<open>k\<close> digits after the point.\<close>

definition int_part :: "nat \<Rightarrow> nat \<Rightarrow> string" where
  "int_part k c = (if c < 10 ^ k then ''0'' else rev (all_digits (c div 10 ^ k)))"

definition frac_part :: "nat \<Rightarrow> nat \<Rightarrow> string option" where
  "frac_part k c = (if k = 0 then None else Some (rev (low_digits k c)))"

definition decimal_text :: "bool \<Rightarrow> nat \<Rightarrow> nat \<Rightarrow> string" where
  "decimal_text s k c = (if s then ''-'' else []) @ int_part k c @ point (frac_part k c)"

lemma int_part_length:
  assumes "c < 10 ^ n" "k \<le> n"
  shows "length (all_digits (c div 10 ^ k)) + k \<le> n"
proof -
  have "c div 10 ^ k < 10 ^ (n - k)" using assms by (simp add: less_mult_imp_div_less flip: power_add)
  then show ?thesis using all_digits_length assms(2) by fastforce
qed

lemma bcd64tostr_writes:
  assumes m: "unat mant = pack_digits 16 c" and c: "c < 10 ^ 16" and k: "k \<le> 16" and bsz: "19 \<le> bsz"
    and sg: "sg \<noteq> 0 \<longleftrightarrow> s"
  shows "bcd64tostr bsz \<lparr>bcd_mant = mant, bcd_expo = - int k, bcd_sign = sg\<rparr> = decimal_text s k c"
proof -
  let ?hi = "drop_bit (4 * k) mant"
  let ?w = "if k = 0 then [] else ''.''"
  have hi: "unat ?hi = pack_digits (16 - k) (c div 10 ^ k)"
    using pack_digits_div [of k "16 - k" c] k by (simp only: unat_drop_nibbles m) simp
  have c': "c div 10 ^ k < 10 ^ (16 - k)" using c k by (simp add: less_mult_imp_div_less flip: power_add)
  have zero: "?hi = 0 \<longleftrightarrow> c < 10 ^ k"
    using hi pack_digits_zero_iff [OF c'] by (metis div_eq_0_iff less_numeral_extra(3) power_eq_0_iff unat_eq_zero zero_neq_numeral)
  have zs: "bcd_zeros room 0 = ([], room)" for room by (cases room) simp_all
  have fr: "bcd_frac bsz (- int k) mant = (low_digits k c, bsz - k, 0, ?hi)"
    using bcd_frac_writes [OF m, of k bsz] k bsz by simp
  have mn: "bcd_mants room ?hi = (all_digits (c div 10 ^ k), room - length (all_digits (c div 10 ^ k)))"
    if "17 - k \<le> room" for room
    using bcd_mants_writes [OF hi c'] all_digits_length [OF c'] that by simp
  have "low_digits k c = [] \<longleftrightarrow> k = 0" using low_digits_ok(2) [of k c] by (metis length_0_conv)
  then show ?thesis
    using k bsz sg int_part_length [OF c k] mn
    by (simp only: bcd64tostr_def Let_def bcd64.select_convs fr zs prod.case zero not_not)
      (cases "k = 0"; cases "c < 10 ^ k"; simp add: zs decimal_text_def int_part_def frac_part_def point_def)
qed

lemma d64tostr_number:
  assumes s: "c = 0 \<longrightarrow> \<not> s" and c: "c < 2 ^ 53" and k: "k \<le> 16" and bsz: "19 \<le> bsz"
  shows "d64tostr bsz (d64_of_dec (DFin s (int c) (- int k))) = decimal_text s k c"
proof -
  let ?x = "d64_of_dec (DFin s (int c) (- int k))"
  have c': "0 \<le> int c" "int c < 2 ^ 53" and e: "- 398 \<le> - int k" "- int k \<le> 369" using c k by auto
  have m: "mant_bid64 ?x = of_nat c" "quantexpbid64 ?x = - int k" "sign_bid64 ?x = (if s then - 1 else 0)"
    using decomp_fin [OF c' e] k by simp_all
  have u: "unat (of_nat c :: 64 word) = c" using c by (simp add: unat_of_nat take_bit_eq_mod)
  have nz: "(of_nat c :: 64 word) = 0 \<longleftrightarrow> c = 0" using unat_eq_0 [of "of_nat c :: 64 word"] unfolding u by (rule sym)
  have sg: "(if (of_nat c :: 64 word) \<noteq> 0 then sign_bid64 ?x else 0) = (if s then - 1 else 0)"
    using s unfolding nz m(3) by simp
  have "unat (bcd_encode 16 0 (of_nat c)) = pack_digits 16 c" by (simp only: bcd_encode_16 u)
  moreover have "c < 10 ^ 16" using c by simp
  ultimately have "bid64tostr bsz ?x = decimal_text s k c"
    unfolding bid64tostr_def Let_def m(1,2) sg using k bsz by (intro bcd64tostr_writes) simp_all
  then show ?thesis by (simp add: d64tostr_def isnand64_def isinfd64_def dec_of_d64_fin [OF c' e])
qed

lemma int_part_ok: "list_all isdig (int_part k c)" "int_part k c \<noteq> []"
  using all_digits_ok [of "c div 10 ^ k"]
  by (auto simp: int_part_def isdig_def cval_def list_all_iff div_eq_0_iff)

lemma frac_part_ok: "list_all isdig (fraction (frac_part k c))" "length (fraction (frac_part k c)) = k"
  using low_digits_ok [of k c] by (auto simp: frac_part_def fraction_def list_all_iff)

lemma int_part_significant:
  assumes "c < 10 ^ n" "k \<le> n"
  shows "length (dropWhile (\<lambda>c. c = CHR ''0'') (int_part k c)) + k \<le> n"
proof (cases "c < 10 ^ k")
  case False
  have "length (dropWhile (\<lambda>c. c = CHR ''0'') (int_part k c)) \<le> length (int_part k c)" by (rule length_dropWhile_le)
  then show ?thesis using int_part_length [OF assms] False by (simp add: int_part_def)
qed (use assms in \<open>simp add: int_part_def\<close>)

lemma decimal_text_value: "dec_value (int_part k c @ fraction (frac_part k c)) = c"
proof -
  have "dig (CHR ''0'') = 0" by (simp add: dig_def cval_def)
  then have "dec_value (int_part k c @ rev (low_digits k c)) = c div 10 ^ k * 10 ^ k + c mod 10 ^ k"
    using all_digits_value [of "c div 10 ^ k"]
    by (simp add: dec_value_def low_digits_value int_part_def)
  moreover have "fraction (frac_part k c) = rev (low_digits k c)" by (simp add: frac_part_def fraction_def)
  ultimately show ?thesis by (simp only: div_mult_mod_eq)
qed

lemma text_read_back:
  assumes s: "c = 0 \<longrightarrow> \<not> s" and c: "c < 10 ^ 15" and k: "k \<le> 15" and bsz: "19 \<le> bsz" and rest: "number_ends None rest"
  shows "strtod64 (d64tostr bsz (d64_of_dec (DFin s (int c) (- int k))) @ rest) = Some (d64_of_dec (DFin s (int c) (- int k)), rest)"
proof -
  have "sign_text (if s then ''-'' else []) s" by (simp add: sign_text_def)
  moreover have "number_ends (frac_part k c) rest" using rest by (auto simp: number_ends_def)
  moreover have "length (dropWhile (\<lambda>c. c = CHR ''0'') (int_part k c)) + length (fraction (frac_part k c)) \<le> 15"
    using int_part_significant [OF c k] by (simp add: frac_part_ok)
  ultimately have "strtod64 (decimal_text s k c @ rest) = Some (d64_of_dec (DFin s (int c) (- int k)), rest)"
    using strtod64_number [OF _ int_part_ok frac_part_ok(1)] by (simp add: decimal_text_def frac_part_ok decimal_text_value)
  moreover have "d64tostr bsz (d64_of_dec (DFin s (int c) (- int k))) = decimal_text s k c"
    using s c k bsz by (intro d64tostr_number) auto
  ultimately show ?thesis by simp
qed

subsection \<open>A loop without end\<close>

text \<open>Rounding down borrows from the next nibble, and from nothing if all of them are zero.\<close>

lemma round_bcd64_borrows:
  assumes "round_bcd64_loop mant roff sh = Some r"
  shows "\<not> (mant = 0 \<and> roff = - 1)"
proof (rule round_bcd64_loop.raw_induct [of "\<lambda>mant roff sh r. \<not> (mant = 0 \<and> roff = - 1)", OF _ assms], goal_cases)
  case (1 f mant roff sh r)
  have "(0 :: 64 word) + word_of_int (- 1) > 9" by simp
  then show ?case using 1(1) [of "drop_bit 4 mant" roff "sh + 4" r] 1(2) by (auto simp: Let_def)
qed

lemma round_bcd64_zero: "round_bcd64 0 (- 1) = None"
  using round_bcd64_borrows [of 0 "- 1" 0] by (cases "round_bcd64_loop 0 (- 1) 0") (auto simp: round_bcd64_def)

lemmas text_defs = sign_text_def isdig_def cval_def fraction_def point_def number_ends_def no_digit_def deref_c_def
  dec_value_def dig_def

subsection \<open>Properties\<close>

text \<open>
  C31: Printing a decimal and reading the text gives the same decimal, bit by bit, and stops where the text ends: for finite
  numbers of up to 15 digits whose exponent is between -15 and 0, with zero unsigned, a buffer of at least 19 bytes,
  and any text behind that does not continue the number. Outside these bounds the encoding may change: 5E3 is printed as
  5000 and minus zero as 0, and both are read as another encoding.
\<close>

theorem decimal_text_round_trip:
  fixes c k :: nat and s :: bool
  defines "x \<equiv> d64_of_dec (DFin s (int c) (- int k))"
  assumes "c = 0 \<longrightarrow> \<not> s" "c < 10 ^ 15" "k \<le> 15" "19 \<le> bsz" "number_ends None rest"
  shows "strtod64 (d64tostr bsz x @ rest) = Some (x, rest)"
  unfolding x_def by (rule text_read_back [OF assms(2-)])

theorem decimal_text_round_trip_witness:
  "strtod64 (d64tostr 24 (d64_of_dec (DFin True 1250 (- 2))) @ '' 7'') = Some (d64_of_dec (DFin True 1250 (- 2)), '' 7'')"
  using decimal_text_round_trip [of 1250 True 2 24 "'' 7''"] by (simp add: text_defs)

text \<open>
  C32: \<open>strtod64\<close> reads an optional sign, digits, and an optional point with more digits after it as the number they denote, with
  the digits after the point as its scale, and hands back what follows: for up to 15 digits, before and after the
  point together, leading zeros before the point not counted. Longer texts are rounded, and for some the
  reading does not end: C40.
\<close>

theorem strtod64_reads:
  assumes "sign_text sg s" "list_all isdig ip" "ip \<noteq> []" "list_all isdig (fraction fp)"
    and "length (dropWhile (\<lambda>c. c = CHR ''0'') ip) + length (fraction fp) \<le> 15"
    and "number_ends fp rest"
  shows "strtod64 (sg @ ip @ point fp @ rest) =
    Some (d64_of_dec (DFin s (int (dec_value (ip @ fraction fp))) (- int (length (fraction fp)))), rest)"
  by (rule strtod64_number [OF assms])

theorem strtod64_reads_witness: "strtod64 ''+0012.50 x'' = Some (d64_of_dec (DFin False 1250 (- 2)), '' x'')"
  using strtod64_reads [of "''+''" False "''0012''" "Some ''50''" "'' x''"] by (simp add: text_defs)

text \<open>
  C40: Reading a negative number whose first fifteen digits are zero and whose next one rounds up does not end:
  rounding borrows from a mantissa that has nothing to borrow from.
\<close>

theorem strtod64_hangs: "round_bcd64 0 (- 1) = None \<and> strtod64 ''-0.0000000000000005'' = None"
  by (simp add: round_bcd64_zero strtod64_def strtobid64_def strtobcd64_def half_up_def digU_def text_defs)

end
