(* ===== verification/Book2book_Run.thy ===== *)
theory Book2book_Run
  imports Book2book Books_Trees Dfp754_Strings
begin

text \<open>
  Runs of \<open>book2book\<close> from the command line to the output: reading a line, finding the book, adding the quote,
  printing it and freeing the books at the end, composed. What the tool prints at level 2 it reads back, and a stream of
  level-2 quotes passes through it unchanged, up to the selection of instruments.
\<close>

subsection \<open>Numbers that survive printing\<close>

text \<open>Finite decimals of up to 15 digits, up to 15 of them after the point; zero without a sign.\<close>

definition plain :: "d64 \<Rightarrow> bool" where
  "plain x \<longleftrightarrow>
     (case dec_of_d64 x of
        DFin s c e \<Rightarrow> x = d64_of_dec (DFin s c e) \<and> 0 \<le> c \<and> c < 10 ^ 15 \<and> - 15 \<le> e \<and> e \<le> 0 \<and> (c = 0 \<longrightarrow> \<not> s)
      | _ \<Rightarrow> False)"

lemma plainE:
  assumes "plain x"
  obtains s c k where "x = d64_of_dec (DFin s (int c) (- int k))" "c < 10 ^ 15" "k \<le> 15" "c = 0 \<longrightarrow> \<not> s"
proof -
  obtain s c e where d: "dec_of_d64 x = DFin s c e" "x = d64_of_dec (DFin s c e)" "0 \<le> c" "c < 10 ^ 15" "- 15 \<le> e" "e \<le> 0" "c = 0 \<longrightarrow> \<not> s"
    using assms by (auto simp: plain_def split: dec.splits)
  then show thesis by (intro that [of s "nat c" "nat (- e)"]) auto
qed

lemma plain_not_nan: "plain x \<Longrightarrow> \<not> isnand64 x"
  by (auto simp: plain_def isnand64_def)

lemma plain_read:
  assumes "plain x" "19 \<le> bsz" "number_ends None rest"
  shows "strtod64 (d64tostr bsz x @ rest) = Some (x, rest)"
  using assms(1) by (rule plainE) (use assms(2,3) in \<open>simp add: text_read_back\<close>)

lemma plain_text:
  assumes "plain x" "19 \<le> bsz"
  shows "d64tostr bsz x = d64tostr BUFSZ x" "length (d64tostr bsz x) \<le> 18" "d64tostr bsz x \<noteq> []"
    "TAB \<notin> set (d64tostr bsz x)"
proof -
  obtain s c k where x: "x = d64_of_dec (DFin s (int c) (- int k))" "c < 10 ^ 15" "k \<le> 15" "c = 0 \<longrightarrow> \<not> s"
    using assms(1) by (rule plainE)
  have t: "d64tostr b x = decimal_text s k c" if "19 \<le> b" for b
    unfolding x(1) by (rule d64tostr_number) (use x that in auto)
  show "d64tostr bsz x = d64tostr BUFSZ x" using t assms(2) by simp
  have p: "point (frac_part k c) = (if k = 0 then [] else CHR ''.'' # rev (low_digits k c))"
    by (simp add: point_def frac_part_def)
  have "length (int_part k c) + k \<le> 16"
    using int_part_length [OF x(2,3)] x(3) by (simp add: int_part_def)
  then show "length (d64tostr bsz x) \<le> 18"
    unfolding t [OF assms(2)] decimal_text_def p by (auto simp: low_digits_ok(2))
  show "d64tostr bsz x \<noteq> []" using int_part_ok(2) [of k c] by (simp add: t [OF assms(2)] decimal_text_def)
  have "\<not> isdig TAB" by (simp add: isdig_def cval_def)
  then have "TAB \<notin> set (int_part k c)" "TAB \<notin> set (low_digits k c)"
    using int_part_ok(1) [of k c] low_digits_ok(1) [of k c] by (auto simp: list_all_iff)
  then show "TAB \<notin> set (d64tostr bsz x)" unfolding t [OF assms(2)] decimal_text_def p by auto
qed

subsection \<open>The line of a quote\<close>

definition side_letter :: "book_side_t \<Rightarrow> char" where
  "side_letter s = char_of (unat ((of_nat s :: 8 word) XOR 0x40))"

text \<open>What is printed behind the prefix, for level \<open>l\<close>.\<close>

definition quote_text :: "book_side_t \<Rightarrow> char \<Rightarrow> px_t \<Rightarrow> qx_t \<Rightarrow> string" where
  "quote_text s l p q = [side_letter s, l, TAB] @ d64tostr BUFSZ p @ [TAB] @ d64tostr BUFSZ q @ [NL]"

lemma putfield_plain:
  assumes "b \<Longrightarrow> plain x" "length buf \<le> 200"
  shows "putfield b x ch buf = Some (buf @ (if b then d64tostr BUFSZ x else []) @ [ch])"
proof (cases b)
  case True
  note t = plain_text(1,2) [OF assms(1) [OF True], of "BUFSZ - length buf"]
  have "19 \<le> BUFSZ - length buf" using assms(2) by simp
  from t [OF this] show ?thesis using True assms(2) by (simp add: putfield_def putdec_def putc_def)
qed (use assms(2) in \<open>simp add: putfield_def putc_def\<close>)

lemma quote_buf_plain:
  assumes "plain p" "plain q"
  shows "quote_buf s l p q = Some (quote_text s l p q)"
proof -
  have start: "putcs [] [side_letter s, l] = Some [side_letter s, l]" "putc [side_letter s, l] TAB = Some [side_letter s, l, TAB]"
    by (simp_all add: putc_def)
  have "length (d64tostr BUFSZ p) \<le> 18" using plain_text(2) [OF assms(1)] by simp
  then show ?thesis
    unfolding quote_buf_def side_letter_def [symmetric] start bind.bind_lunit using assms
    by (simp add: putfield_plain quote_text_def)
qed

text \<open>A whole line: time, instrument and quote.\<close>

definition quote_prefix :: "tv \<Rightarrow> string \<Rightarrow> string" where
  "quote_prefix t ins = tvtostr 32 t @ [TAB] @ ins @ [TAB]"

definition line_of :: "char \<Rightarrow> string \<Rightarrow> book_quo_t \<Rightarrow> string" where
  "line_of l ins q = quote_prefix (q_t q) ins @ quote_text (q_s q) l (q_p q) (q_q q)"

lemma side_letter_reads:
  assumes "s \<in> {1, 2, 3, 4}"
  shows "of_char (side_letter s) mod 16 = s" "side_letter s \<noteq> TAB"
proof -
  show *: "of_char (side_letter s) mod 16 = s" using assms by (auto simp: side_letter_def)
  show "side_letter s \<noteq> TAB"
  proof
    assume "side_letter s = TAB"
    then show False using * assms by simp
  qed
qed

text \<open>Reading a printed line gives the quote back.\<close>

lemma read_line:
  assumes q: "plain (q_p q)" "plain (q_q q)" "NSECS \<le> q_t q" "q_s q \<in> {1, 2, 3, 4}" and ins: "TAB \<notin> set ins" and l: "l \<noteq> TAB"
  shows "read_xquo (line_of l ins q) (length (line_of l ins q)) =
    Some \<lparr>xq_q = q\<lparr>q_f := flavour l\<rparr>, xq_ins = Some (length (tvtostr 32 (q_t q)) + 1), xq_inz = length ins\<rparr>"
proof -
  let ?p = "d64tostr BUFSZ (q_p q)" and ?q = "d64tostr BUFSZ (q_q q) @ [NL]" and ?s = "side_letter (q_s q)"
  have line: "line_of l ins q = quote_line (tvtostr 32 (q_t q)) ins ?s l ?p ?q"
    by (simp add: line_of_def quote_line_def quote_text_def quote_prefix_def)
  have ends: "number_ends None [NL]" "number_ends None (TAB # ?q)" by (simp_all add: text_defs)
  have rq: "strtod64 ?q = Some (q_q q, [NL])" and rp: "strtod64 (?p @ TAB # ?q) = Some (q_p q, TAB # ?q)"
    using plain_read [OF q(2) _ ends(1)] plain_read [OF q(1) _ ends(2)] by simp_all
  have tabs: "TAB \<notin> set ins \<union> {?s, l} \<union> set ?p \<union> set ?q"
    using ins l side_letter_reads(2) [OF q(4)] plain_text(4) q(1,2) by auto
  have "strtotv (line_of l ins q) = (q_t q, Some (length (tvtostr 32 (q_t q))))"
    using tvtostr_strtotv [OF q(3), of 32 "TAB # ins @ TAB # quote_text (q_s q) l (q_p q) (q_q q)"]
    by (simp add: line_of_def quote_prefix_def isdigit_def)
  moreover have "?p \<noteq> []" using plain_text(3) [OF q(1)] by simp
  moreover have "0 < q_s q" using q(4) by auto
  moreover have rec: "q\<lparr>q_f := flavour l\<rparr> = \<lparr>q_s = q_s q, q_f = flavour l, q_p = q_p q, q_q = q_q q, q_t = q_t q\<rparr>" by simp
  ultimately show ?thesis
    using read_xquo_fields [OF tabs rq rp, of "tvtostr 32 (q_t q)"] side_letter_reads(1) [OF q(4)]
    by (simp add: line rec)
qed

subsection \<open>One line\<close>

text \<open>A level-2 quote for a side, with an instrument.\<close>

definition plain_quote :: "string \<times> book_quo_t \<Rightarrow> bool" where
  "plain_quote x \<longleftrightarrow> (case x of (ins, q) \<Rightarrow>
     ins \<noteq> [] \<and> TAB \<notin> set ins \<and> NSECS \<le> q_t q \<and> q_s q \<in> {BOOK_SIDE_ASK, BOOK_SIDE_BID} \<and> q_f q = BOOK_LVL_2 \<and>
     plain (q_p q) \<and> plain (q_q q))"

definition level2_line :: "string \<times> book_quo_t \<Rightarrow> string" where
  "level2_line x = (case x of (ins, q) \<Rightarrow> line_of (CHR ''2'') ins q)"

text \<open>Which instruments have a book or get one.\<close>

definition takes :: "shelf \<Rightarrow> string \<Rightarrow> bool" where
  "takes sh ins \<longleftrightarrow> sh_zbook sh \<noteq> 0 \<or> sh_nctch sh \<noteq> 0 \<or> hash ins \<in> set (take (sh_nbook sh) (sh_conx sh))"

definition desk :: "shelf \<Rightarrow> bool" where
  "desk sh \<longleftrightarrow> shelf_ok sh \<and> (sh_nbook sh \<noteq> 0 \<or> sh_nctch sh = 0) \<and> (\<forall>xb \<in> set (sh_book sh). tree_book (xb_book xb))"

lemma make_xbook_trees: "tree_book (xb_book (make_xbook n))"
  using make_book_trees by (simp add: make_xbook_def Let_def)

lemma find_book_desk:
  assumes "desk sh"
  shows "\<exists>sh' r. find_book n sh ins = Some (sh', r) \<and> desk sh' \<and> takes sh' = takes sh \<and>
    (if takes sh ins then \<exists>k. r = Found k \<and> k < length (sh_book sh') else r = NotForUs \<and> sh' = sh)"
proof -
  have ok: "shelf_ok sh" "sh_nbook sh \<noteq> 0 \<or> sh_nctch sh = 0" using assms by (auto simp: desk_def)
  obtain sh' r where f: "find_book n sh ins = Some (sh', r)" "shelf_ok sh'"
    "case r of Found k \<Rightarrow> k < length (sh_book sh') \<and> (sh_conx sh' ! k = hash ins \<or>
          k = sh_nbook sh' \<and> sh_nctch sh' \<noteq> 0 \<and> (\<forall>j < sh_nbook sh. sh_conx sh ! j \<noteq> hash ins))
       | NotForUs \<Rightarrow> sh' = sh \<and> sh_zbook sh = 0 \<and> (\<forall>j < sh_nbook sh. sh_conx sh ! j \<noteq> hash ins)"
    using find_book_spec [OF ok] by blast
  let ?k = "scan_while (\<lambda>k. sh_conx sh ! k \<noteq> hash ins) 0 (sh_nbook sh)"
  note k = scan_hash [where sh = sh and hx = "hash ins"]
  have len: "length (sh_conx sh) = sh_nbook sh + sh_nctch sh" using ok by (simp add: shelf_ok_def)
  have mem: "hash ins \<in> set (take (sh_nbook sh) (sh_conx sh)) \<longleftrightarrow> ?k < sh_nbook sh"
  proof
    assume "hash ins \<in> set (take (sh_nbook sh) (sh_conx sh))"
    then obtain j where "j < sh_nbook sh" "sh_conx sh ! j = hash ins" using len by (auto simp: in_set_conv_nth)
    then show "?k < sh_nbook sh" using k(3) by blast
  next
    assume *: "?k < sh_nbook sh"
    then have "take (sh_nbook sh) (sh_conx sh) ! ?k = hash ins" using k(2) by simp
    then show "hash ins \<in> set (take (sh_nbook sh) (sh_conx sh))" using * len by (metis length_take min.absorb2 le_add1 nth_mem)
  qed
  consider (kept) "sh' = sh" "r = NotForUs \<longleftrightarrow> \<not> takes sh ins"
    | (new) "sh_zbook sh \<noteq> 0" "sh_zbook sh' \<noteq> 0" "sh_book sh' = sh_book sh @ [make_xbook n]" "sh_nbook sh' \<noteq> 0" "r = Found ?k"
    using f(1) ok(2) mem by (auto simp: find_book_def takes_def Let_def split: if_splits)
  then show ?thesis
  proof cases
    case kept
    then show ?thesis using f assms by (cases r) auto
  next
    case new
    then have "takes sh' = takes sh" "takes sh ins" by (auto simp: takes_def)
    moreover have "desk sh'" using new f(2) assms make_xbook_trees by (auto simp: desk_def)
    ultimately show ?thesis using f new(5) by auto
  qed
qed

lemma on_quote_level2:
  assumes "tree_book (xb_book xb)" "cf_prq cf = PRQ2" "plain_quote (ins, q)"
  shows "\<exists>xb'. on_quote cf (quote_prefix (q_t q) ins) xb q = Some (xb', level2_line (ins, q)) \<and> tree_book (xb_book xb')"
proof -
  have q: "q_s q = BOOK_SIDE_ASK \<or> q_s q = BOOK_SIDE_BID" "q_f q = BOOK_LVL_2" "plain (q_p q)" "plain (q_q q)"
    using assms(3) by (auto simp: plain_quote_def)
  obtain b' old where b': "book_add (xb_book xb) q = Some (b', old)" "tree_book b'"
    using book_add_trees [OF assms(1) q(1)] q(2) plain_not_nan [OF q(3)] by blast
  have "prq cf (quote_prefix (q_t q) ins) (xb\<lparr>xb_book := b'\<rparr>) q old = Some (xb\<lparr>xb_book := b'\<rparr>, level2_line (ins, q))"
    by (simp add: prq_def assms(2) prq2_def quote_buf_plain [OF q(3,4)] level2_line_def line_of_def)
  then have "on_quote cf (quote_prefix (q_t q) ins) xb q = Some (xb\<lparr>xb_book := b'\<rparr>, level2_line (ins, q))"
    using q(1,2) b'(1) by (auto simp: on_quote_def Let_def)
  then show ?thesis using b'(2) by auto
qed

lemma on_line_level2:
  assumes "desk sh" "cf_prq cf = PRQ2" "plain_quote (ins, q)"
  shows "\<exists>sh'. on_line cf sh (level2_line (ins, q)) = Some (sh', if takes sh ins then level2_line (ins, q) else []) \<and>
    desk sh' \<and> takes sh' = takes sh"
proof -
  let ?l = "level2_line (ins, q)" and ?n = "length (tvtostr 32 (q_t q))"
  have q: "plain (q_p q)" "plain (q_q q)" "NSECS \<le> q_t q" "q_s q \<in> {1, 2, 3, 4}" "TAB \<notin> set ins" "ins \<noteq> []" "q_f q = BOOK_LVL_2"
    using assms(3) by (auto simp: plain_quote_def)
  have "q\<lparr>q_f := flavour (CHR ''2'')\<rparr> = q" using q(7) by (simp add: flavour_cases)
  then have rd: "read_xquo ?l (length ?l) = Some \<lparr>xq_q = q, xq_ins = Some (?n + 1), xq_inz = length ins\<rparr>"
    using read_line [OF q(1-5), of "CHR ''2''"] by (simp add: level2_line_def)
  have pre: "take (?n + 1 + length ins + 1) ?l = quote_prefix (q_t q) ins" "take (length ins) (drop (?n + 1) ?l) = ins"
    by (simp_all add: level2_line_def line_of_def quote_prefix_def)
  have nq: "\<not> NOT_A_XQUO_P \<lparr>xq_q = q, xq_ins = Some (?n + 1), xq_inz = length ins\<rparr>"
    using q(4) by (auto simp: NOT_A_XQUO_P_def NOT_A_QUO_P_def)
  have ol: "on_line cf sh ?l = do {
       (sh, r) \<leftarrow> find_book (cf_ntop cf) sh ins;
       case r of NotForUs \<Rightarrow> Some (sh, [])
       | Found k \<Rightarrow> do {
           xb \<leftarrow> nth_opt (sh_book sh) k;
           (xb, out) \<leftarrow> on_quote cf (quote_prefix (q_t q) ins) xb q;
           Some (sh\<lparr>sh_book := (sh_book sh)[k := xb]\<rparr>, out) } }"
    using nq pre q(6) by (simp add: on_line_def rd Let_def cong: option.case_cong)
  obtain sh' r where f: "find_book (cf_ntop cf) sh ins = Some (sh', r)" "desk sh'" "takes sh' = takes sh"
     "if takes sh ins then \<exists>k. r = Found k \<and> k < length (sh_book sh') else r = NotForUs \<and> sh' = sh"
    using find_book_desk [OF assms(1)] by blast
  show ?thesis
  proof (cases "takes sh ins")
    case False
    then show ?thesis using f assms(1) by (simp add: ol)
  next
    case True
    then obtain k where k: "r = Found k" "k < length (sh_book sh')" using f(4) by auto
    then have "tree_book (xb_book (sh_book sh' ! k))" using f(2) by (simp add: desk_def)
    from on_quote_level2 [OF this assms(2,3)] obtain xb' where
      xb': "on_quote cf (quote_prefix (q_t q) ins) (sh_book sh' ! k) q = Some (xb', ?l)" "tree_book (xb_book xb')" by blast
    let ?sh = "sh'\<lparr>sh_book := (sh_book sh')[k := xb']\<rparr>"
    have "on_line cf sh ?l = Some (?sh, ?l)" using f(1) k xb'(1) by (simp add: ol nth_opt_def)
    moreover have "desk ?sh" "takes ?sh = takes sh'"
      using f(2) xb'(2) by (auto simp: desk_def shelf_ok_def takes_def dest!: subsetD [OF set_update_subset_insert])
    ultimately show ?thesis using True f(3) by simp
  qed
qed

subsection \<open>A run\<close>

lemma on_lines_level2:
  assumes "cf_prq cf = PRQ2"
  shows "desk sh \<Longrightarrow> \<forall>x \<in> set xs. plain_quote x \<Longrightarrow>
    \<exists>sh'. on_lines cf sh (map level2_line xs) = Some (sh', concat (map level2_line (filter (\<lambda>x. takes sh (fst x)) xs))) \<and> desk sh'"
proof (induction xs arbitrary: sh)
  case (Cons x xs)
  obtain ins q where x: "x = (ins, q)" by fastforce
  obtain sh1 where 1: "on_line cf sh (level2_line x) = Some (sh1, if takes sh ins then level2_line x else [])" "desk sh1" "takes sh1 = takes sh"
    using on_line_level2 [OF Cons.prems(1) assms, of ins q] Cons.prems(2) x by auto
  obtain sh2 where "on_lines cf sh1 (map level2_line xs) = Some (sh2, concat (map level2_line (filter (\<lambda>x. takes sh1 (fst x)) xs)))" "desk sh2"
    using Cons.IH [OF 1(2)] Cons.prems(2) by auto
  then show ?case using 1(1,3) x by auto
qed simp

lemma free_books_trees: "\<forall>xb \<in> set xbs. tree_book (xb_book xb) \<Longrightarrow> free_books xbs = Some ()"
proof (induction xbs)
  case (Cons xb xbs)
  obtain r where "free_book (xb_book xb) = Some r" using free_book_trees Cons.prems by auto
  then show ?case using Cons by (simp add: free_xbook_def)
qed simp

text \<open>The instruments asked for on the command line; none means all.\<close>

definition wanted :: "string list \<Rightarrow> string \<Rightarrow> bool" where
  "wanted args ins \<longleftrightarrow> args = [] \<or> (\<exists>a \<in> set args. catchall a \<or> hash a = hash ins)"

lemma shelf_init_desk:
  assumes "args = [] \<or> (\<exists>a \<in> set args. \<not> catchall a)"
  shows "desk (shelf_init n args)" "takes (shelf_init n args) = wanted args"
proof -
  let ?cs = "filter (\<lambda>s. \<not> catchall s) args"
  have "length ?cs < length args \<longleftrightarrow> (\<exists>a \<in> set args. catchall a)"
    by (metis (no_types, lifting) length_filter_less length_filter_le filter_True less_irrefl le_neq_implies_less)
  then show "takes (shelf_init n args) = wanted args"
    by (intro ext) (auto simp: takes_def wanted_def shelf_init_def Let_def intro: rev_image_eqI)
  have "args \<noteq> [] \<Longrightarrow> ?cs \<noteq> []" using assms by (auto simp: filter_empty_conv)
  then show "desk (shelf_init n args)"
    using shelf_init_ok make_xbook_trees by (auto simp: desk_def shelf_init_def Let_def)
qed

lemma book2book_level2:
  assumes "options argi = Some (Inr cf)" "cf_prq cf = PRQ2"
    and "instr_args argi = [] \<or> (\<exists>a \<in> set (instr_args argi). \<not> catchall a)" and "\<forall>x \<in> set xs. plain_quote x"
  shows "book2book argi (map level2_line xs) =
    Some (Inr (concat (map level2_line (filter (\<lambda>x. wanted (instr_args argi) (fst x)) xs))))"
proof -
  note d = shelf_init_desk [OF assms(3), of "cf_ntop cf"]
  obtain sh where sh: "on_lines cf (shelf_init (cf_ntop cf) (instr_args argi)) (map level2_line xs) =
      Some (sh, concat (map level2_line (filter (\<lambda>x. wanted (instr_args argi) (fst x)) xs)))" "desk sh"
    using on_lines_level2 [OF assms(2) d(1) assms(4)] d(2) by auto
  moreover have "free_books (take (sh_nbook sh + sh_nctch sh) (sh_book sh)) = Some ()"
    using sh(2) by (intro free_books_trees) (auto simp: desk_def dest: in_set_takeD)
  ultimately show ?thesis by (simp add: book2book_def assms(1))
qed

subsection \<open>Properties\<close>

text \<open>
  C14: What is printed at level 2 is read back, for quotes within these bounds: price and quantity are \<open>plain\<close> (a finite number
  of at most 15 digits whose exponent is between -15 and 0, zero without a sign), the time is at least one second, the side is
  ask, bid, clear or delete, and there is no tab in the instrument. Then the line that \<open>prq2\<close> prints behind the time stamp and
  the instrument fits into its buffer, and \<open>read_xquo\<close> reads it as the same quote at level 2, to the bit and to the nanosecond,
  and finds the instrument. Other numbers are not covered: one with a positive exponent is printed with zeros appended and
  read as another encoding, and a large exponent overruns the buffer.
\<close>

theorem printed_quote_read_back:
  assumes "plain (q_p q)" "plain (q_q q)" "NSECS \<le> q_t q"
    and "q_s q \<in> {BOOK_SIDE_ASK, BOOK_SIDE_BID, BOOK_SIDE_CLR, BOOK_SIDE_DEL}" "TAB \<notin> set ins"
  shows "\<exists>out. prq2 (tvtostr 32 (q_t q) @ [TAB] @ ins @ [TAB]) xb q = Some (xb, out) \<and>
    read_xquo out (length out) =
      Some \<lparr>xq_q = q\<lparr>q_f := BOOK_LVL_2\<rparr>, xq_ins = Some (length (tvtostr 32 (q_t q)) + 1), xq_inz = length ins\<rparr>"
proof -
  have s: "q_s q \<in> {1, 2, 3, 4}" using assms(4) by simp
  have "prq2 (quote_prefix (q_t q) ins) xb q = Some (xb, line_of (CHR ''2'') ins q)"
    by (simp add: prq2_def quote_buf_plain [OF assms(1,2)] line_of_def)
  then show ?thesis
    using read_line [OF assms(1-3) s assms(5), of "CHR ''2''"] by (simp add: quote_prefix_def flavour_cases)
qed

definition sample_quote :: book_quo_t where
  "sample_quote = \<lparr>q_s = BOOK_SIDE_BID, q_f = BOOK_LVL_2, q_p = dd 125 (- 2), q_q = dd 10 0, q_t = 1500000000123456789\<rparr>"

lemma sample_plain: "plain (dd 125 (- 2))" "plain (dd 10 0)"
  by code_simp+

theorem printed_quote_read_back_witness:
  "\<exists>out. prq2 (tvtostr 32 1500000000123456789 @ [TAB] @ ''EURUSD'' @ [TAB]) (make_xbook 0) sample_quote = Some (make_xbook 0, out) \<and>
    read_xquo out (length out) =
      Some \<lparr>xq_q = sample_quote\<lparr>q_f := BOOK_LVL_2\<rparr>, xq_ins = Some (length (tvtostr 32 1500000000123456789) + 1), xq_inz = length ''EURUSD''\<rparr>"
  using printed_quote_read_back [of sample_quote "''EURUSD''" "make_xbook 0"] sample_plain by (simp add: sample_quote_def)



end
