(* ===== verification/Book2book_Unwind.thy ===== *)
theory Book2book_Unwind
  imports Book2book_Run
begin

text \<open>
  Unwinding a side in \<open>book2book\<close>: levels are deleted by quotes while an iterator walks over them, and every deletion is
  printed. On a leaf with room the deletion writes to the slot the iterator stands on and nowhere else, so the walk goes on
  as if the iterator had written.
\<close>

subsection \<open>Deleting under an iterator\<close>

lemma leaf_iter_cur:
  assumes "deref h t = Some nd" "leaf_ok nd" "bt_next nd = None" "iter_cur h t it pre x xs"
  obtains j where "j < bt_n nd" "vis nd j" "x = (bt_key nd ! j, leaf_val nd j)" "it_v it = Some (t, j)"
proof -
  obtain us c vs nc j where c: "leaves h t (us @ c # vs)" "deref h c = Some nc" "j < bt_n nc" "vis nc j"
    "x = (bt_key nc ! j, leaf_val nc j)" "it_v it = Some (c, j)"
    using assms(4) unfolding iter_cur_def by blast
  have "first_leaf h t = Some t" using first_leaf_leaf [OF assms(1)] leaf_okD(1) [OF assms(2)] by simp
  moreover have "leaf_chain h (Some t) [t]" using assms(1-3) by simp
  ultimately have "us @ c # vs = [t]" using c(1) leaf_chain_det by (auto simp: leaves_first simp del: leaf_chain_Cons)
  then have "c = t" by (cases us) auto
  then show thesis using that c assms(1) by auto
qed

text \<open>A quote for the price under the iterator overwrites the level the way the iterator would.\<close>

lemma swap_under_iter:
  assumes b: "BOOK b (q_s q) = Some (h, t)" "leaf_side b (q_s q) nd" "bt_n nd \<le> 62" and cur: "iter_cur h t it pre x xs"
    and p: "q_p q = fst x"
  shows "\<exists>h'. iter_write h it (f (snd x)) = Some h' \<and>
    swap_level b q f = Some (set_side b (q_s q) h', q\<lparr>q_q := val_q (snd x), q_t := val_t (snd x)\<rparr>)"
proof -
  have nd: "deref h t = Some nd" "leaf_ok nd" "bt_next nd = None" "\<not> bt_splitp nd"
    using b(1,2) by (auto simp: leaf_side_def)
  obtain j where j: "j < bt_n nd" "vis nd j" "x = (bt_key nd ! j, leaf_val nd j)" "it_v it = Some (t, j)"
    using leaf_iter_cur [OF nd(1-3) cur] .
  have "\<not> isnand64 (bt_key nd ! j)" using leaf_okD(4,6) [OF nd(2)] j(1) by auto
  then have eq: "deq (q_p q) (bt_key nd ! j)" using px.eq_refl p j(3) by simp
  then have ix: "key_index nd (q_p q) = j" using key_index_eq [OF nd(2) j(1)] by blast
  have "bt_used nd OR bit1 j = bt_used nd" 
    by (rule bit_word_eqI) (use j(2) in \<open>auto simp: vis_def bit_or_iff\<close>)
  then have add: "leaf_add nd (q_p q) = (nd, j, False)"
    using leaf_add_found [of "q_p q" nd] ix eq b(3) by simp
  note lt = deref_Some_lt [OF nd(1)]
  have id: "nd\<lparr>bt_splitp := False\<rparr> = nd" using nd(4) by simp
  have same: "store h t nd = h" using nd(1) lt by (simp add: store_def deref_def list_update_same_conv)
  then have "store h t (nd\<lparr>bt_splitp := False\<rparr>) = h" unfolding id .
  with same have put: "btree_put h t (q_p q) = Some (h, (t, j))"
    using nd(1,4) leaf_okD(1) [OF nd(2)] add same by (simp add: btree_put_def del: fun_upd_apply)
  let ?h = "store h t (nd\<lparr>bt_val := (bt_val nd)[j := UV (f (snd x))]\<rparr>)"
  have "load_val h (t, j) = Some (snd x)" "store_val h (t, j) (f (snd x)) = Some ?h"
    using nd(1) j(3) by (simp_all add: load_val_def store_val_def)
  then have "swap_level b q f = Some (set_side b (q_s q) ?h, q\<lparr>q_q := val_q (snd x), q_t := val_t (snd x)\<rparr>)"
    "iter_write h it (f (snd x)) = Some ?h"
    using b(1) put j(4) by (simp_all add: swap_level_def iter_write_def)
  then show ?thesis by blast
qed

subsection \<open>Unwinding a side\<close>

text \<open>The iterator of a book as an iterator of its tree.\<close>

definition tree_iter :: "book_iter_t \<Rightarrow> btree_iter" where
  "tree_iter i = \<lparr>it_t = bi_b i, it_i = bi_i i, it_k = bi_p i, it_v = None\<rparr>"

lemma iter_inv_cong: "it_t it' = it_t it \<Longrightarrow> it_i it' = it_i it \<Longrightarrow> iter_inv h t it' pre xs = iter_inv h t it pre xs"
  by (simp add: iter_inv_def)

lemma book_iter_inv: "holds h t xs \<Longrightarrow> iter_inv h t (tree_iter (book_iter t)) [] xs"
  using iter_inv_init [of h t xs] iter_inv_cong [of "tree_iter (book_iter t)" "iter_init t"]
  by (simp add: tree_iter_def book_iter_def iter_init_def)

lemma book_iter_next_Nil:
  assumes "iter_inv h t (tree_iter i) pre []"
  shows "\<exists>h' i'. book_iter_next h i = Some (h', i', False) \<and> holds h' t pre \<and> frame h' = frame h"
proof -
  obtain h' it' where st: "btree_iter_next h (tree_iter i) = Some (h', it', False)" "holds h' t pre"
    using bi.step_Nil [OF assms] by blast
  then show ?thesis using iter_next_frame [OF st(1)] by (auto simp: book_iter_next_def tree_iter_def Let_def)
qed

lemma book_iter_next_Cons:
  assumes "iter_inv h t (tree_iter i) pre (x # xs)"
  shows "\<exists>h' i' it. book_iter_next h i = Some (h', i', True) \<and> bi_p i' = fst x \<and> iter_cur h' t it pre x xs \<and> frame h' = frame h \<and>
    it_t (tree_iter i') = it_t it \<and> it_i (tree_iter i') = it_i it \<and> bi_q i' = val_q (snd x)"
proof -
  obtain h' it where st: "btree_iter_next h (tree_iter i) = Some (h', it, True)" "iter_cur h' t it pre x xs"
    using bi.step_Cons [OF assms] by blast
  then have "iter_load h' it = Some (snd x)" "it_k it = fst x" using bi.cur_load by auto
  then show ?thesis using st iter_next_frame [OF st(1)] by (auto simp: book_iter_next_def tree_iter_def Let_def)
qed

text \<open>The line that reports the deletion of a level.\<close>

definition deletion :: "string \<Rightarrow> book_side_t \<Rightarrow> px_t \<times> btree_val \<Rightarrow> string" where
  "deletion prfx s x = prfx @ quote_text s (CHR ''2'') (fst x) 0"

abbreviation small_side :: "book_t \<Rightarrow> book_side_t \<Rightarrow> bool" where
  "small_side b s \<equiv> \<exists>nd. leaf_side b s nd \<and> bt_n nd \<le> 62"

lemma small_side_frame: "small_side b s \<Longrightarrow> book_frame b' = book_frame b \<Longrightarrow> small_side b' s"
  by (metis leaf_side_frame)

lemma plain_zero: "plain 0"
  by code_simp

lemma unwind_deletes:
  assumes prn: "cf_prq cf = PRQ2" and s: "s = BOOK_SIDE_ASK \<or> s = BOOK_SIDE_BID"
  shows "BOOK (xb_book xb) s = Some (h, t) \<Longrightarrow> iter_inv h t (tree_iter i) pre xs \<Longrightarrow> small_side (xb_book xb) s \<Longrightarrow> \<forall>x \<in> set xs. plain (fst x) \<Longrightarrow>
    \<exists>xb'. unwind cf prfx s C xb i out = Some (xb', out @ concat (map (deletion prfx s) (takeWhile (C \<circ> fst) xs))) \<and>
      book_levels (xb_book xb') s (pre @ dropWhile (C \<circ> fst) xs) \<and> same_but s (xb_book xb) (xb_book xb') \<and> small_side (xb_book xb') s"
proof (induction xs arbitrary: xb h i out)
  case Nil
  let ?b = "xb_book xb"
  obtain h' i' where st: "book_iter_next h i = Some (h', i', False)" "holds h' t pre" "frame h' = frame h"
    using book_iter_next_Nil [OF Nil(2)] by blast
  have "unwind cf prfx s C xb i out = Some (xb\<lparr>xb_book := set_side ?b s h'\<rparr>, out)"
    using Nil(1) st(1) by (subst unwind.simps) simp
  moreover have "book_levels (set_side ?b s h') s pre" "same_but s ?b (set_side ?b s h')" "small_side (set_side ?b s h') s"
    using book_levels_set_side [OF Nil(1) st(2)] same_but_set_side [OF Nil(1)]
      small_side_frame [OF Nil(3) book_frame_set [OF Nil(1) st(3)]] by blast+
  ultimately show ?case by auto
next
  case (Cons x xs)
  let ?b = "xb_book xb"
  obtain h1 i1 it where st: "book_iter_next h i = Some (h1, i1, True)" "bi_p i1 = fst x" "iter_cur h1 t it pre x xs" "frame h1 = frame h"
     "it_t (tree_iter i1) = it_t it" "it_i (tree_iter i1) = it_i it"
    using book_iter_next_Cons [OF Cons.prems(2)] by blast
  let ?b1 = "set_side ?b s h1"
  have b1: "BOOK ?b1 s = Some (h1, t)" "same_but s ?b ?b1" "small_side ?b1 s"
    using BOOK_set_side [OF Cons.prems(1)] same_but_set_side [OF Cons.prems(1)]
      small_side_frame [OF Cons.prems(3) book_frame_set [OF Cons.prems(1) st(4)]] by simp_all
  show ?case
  proof (cases "C (fst x)")
    case False
    then have "unwind cf prfx s C xb i out = Some (xb\<lparr>xb_book := ?b1\<rparr>, out)"
      using Cons.prems(1) st(1,2) by (subst unwind.simps) simp
    moreover have "holds h1 t (pre @ x # xs)" using bi.inv_side [OF bi.cur_inv [OF st(3)]] by simp
    then have "book_levels ?b1 s (pre @ x # xs)" using book_levels_set_side [OF Cons.prems(1)] by blast
    ultimately show ?thesis using False b1(2,3) by auto
  next
    case True
    let ?r = "\<lparr>q_s = s, q_f = BOOK_LVL_2, q_p = bi_p i1, q_q = 0, q_t = 0\<rparr>" and ?v = "\<lparr>val_q = 0, val_t = 0\<rparr> :: btree_val"
    obtain nd where nd: "leaf_side ?b1 s nd" "bt_n nd \<le> 62" using b1(3) by blast
    obtain h2 where h2: "iter_write h1 it ?v = Some h2"
       "swap_level ?b1 ?r (\<lambda>v. ?v) = Some (set_side ?b1 s h2, ?r\<lparr>q_q := val_q (snd x), q_t := val_t (snd x)\<rparr>)"
      using swap_under_iter [of ?b1 ?r h1 t nd it pre x xs "\<lambda>v. ?v"] b1(1) nd st(2,3) by auto
    let ?b2 = "set_side ?b1 s h2" and ?out = "out @ deletion prfx s x"
    have "book_add ?b1 ?r = Some (?b2, ?r\<lparr>q_q := val_q (snd x), q_t := val_t (snd x)\<rparr>)"
      using s h2(2) by (auto simp: book_add_def)
    moreover have "prq cf prfx xb' ?r old = Some (xb', deletion prfx s x)" for xb' old
      using quote_buf_plain [of "fst x" 0] Cons.prems(4) plain_zero st(2) by (simp add: prq_def prn prq2_def deletion_def)
    ultimately have un: "unwind cf prfx s C xb i out = unwind cf prfx s C (xb\<lparr>xb_book := ?b2\<rparr>) i1 ?out"
      using Cons.prems(1) st(1,2) True by (subst unwind.simps) simp
    have fr: "frame h2 = frame h1" using h2(1) store_val_frame by (auto simp: iter_write_def bind_eq_Some_conv)
    have b2: "BOOK ?b2 s = Some (h2, t)" "same_but s ?b1 ?b2" "small_side ?b2 s"
      using BOOK_set_side [OF b1(1)] same_but_set_side [OF b1(1)] small_side_frame [OF b1(3) book_frame_set [OF b1(1) fr]] by simp_all
    have "btree_val_nil_p ?v" by code_simp
    then have "iter_inv h2 t it pre xs" using bi.cur_write [OF st(3), of ?v] h2(1) by auto
    then have "iter_inv h2 t (tree_iter i1) pre xs" using iter_inv_cong st(5,6) by metis
    moreover have "BOOK (xb_book (xb\<lparr>xb_book := ?b2\<rparr>)) s = Some (h2, t)" "small_side (xb_book (xb\<lparr>xb_book := ?b2\<rparr>)) s"
      using b2(1,3) by simp_all
    moreover have "\<forall>x \<in> set xs. plain (fst x)" using Cons.prems(4) by simp
    ultimately obtain xb' where IH:
      "unwind cf prfx s C (xb\<lparr>xb_book := ?b2\<rparr>) i1 ?out = Some (xb', ?out @ concat (map (deletion prfx s) (takeWhile (C \<circ> fst) xs)))"
      "book_levels (xb_book xb') s (pre @ dropWhile (C \<circ> fst) xs)" "same_but s (xb_book (xb\<lparr>xb_book := ?b2\<rparr>)) (xb_book xb')"
      "small_side (xb_book xb') s"
      using Cons.IH [of "xb\<lparr>xb_book := ?b2\<rparr>" h2 i1 ?out] by blast
    moreover have "same_but s ?b (xb_book xb')" using b1(2) b2(2) IH(3) by (simp add: same_but_def)
    ultimately show ?thesis using un True by (intro exI [of _ xb']) (simp add: comp_def)
  qed
qed

lemma unwind_side_deletes:
  assumes prn: "cf_prq cf = PRQ2" and s: "s = BOOK_SIDE_ASK \<or> s = BOOK_SIDE_BID"
    and b: "small_side (xb_book xb) s" "book_levels (xb_book xb) s xs" "\<forall>x \<in> set xs. plain (fst x)"
  shows "\<exists>xb'. unwind_side cf prfx s C xb = Some (xb', concat (map (deletion prfx s) (takeWhile (C \<circ> fst) xs))) \<and>
    book_levels (xb_book xb') s (dropWhile (C \<circ> fst) xs) \<and> same_but s (xb_book xb) (xb_book xb') \<and> small_side (xb_book xb') s"
proof -
  obtain h t where h: "BOOK (xb_book xb) s = Some (h, t)" "holds h t xs" using b(2) by (rule book_levelsE)
  from unwind_deletes [OF prn s h(1) book_iter_inv [OF h(2)] b(1,3), of prfx C "[]"] show ?thesis using h(1) by (simp add: unwind_side_def)
qed

text \<open>A quote that clears the book.\<close>

lemma on_quote_clears:
  assumes prn: "cf_prq cf = PRQ2" and q: "q_s q = BOOK_SIDE_CLR" "q_f q \<noteq> BOOK_LVL_1"
    and small: "small_side (xb_book xb) BOOK_SIDE_BID" "small_side (xb_book xb) BOOK_SIDE_ASK"
    and bs: "book_levels (xb_book xb) BOOK_SIDE_BID bs" "\<forall>x \<in> set bs. plain (fst x)"
    and as: "book_levels (xb_book xb) BOOK_SIDE_ASK as" "\<forall>x \<in> set as. plain (fst x)"
  shows "\<exists>xb'. on_quote cf prfx xb q =
      Some (xb', concat (map (deletion prfx BOOK_SIDE_BID) bs) @ concat (map (deletion prfx BOOK_SIDE_ASK) as)) \<and>
    book_levels (xb_book xb') BOOK_SIDE_BID [] \<and> book_levels (xb_book xb') BOOK_SIDE_ASK []"
proof -
  have all: "takeWhile ((\<lambda>_. True) \<circ> fst) xs = xs" "dropWhile ((\<lambda>_. True) \<circ> fst) xs = []" for xs :: "(px_t \<times> btree_val) list"
    by (simp_all add: takeWhile_eq_all_conv dropWhile_eq_Nil_conv)
  obtain xb1 where 1: "unwind_side cf prfx BOOK_SIDE_BID (\<lambda>_. True) xb = Some (xb1, concat (map (deletion prfx BOOK_SIDE_BID) bs))"
    "book_levels (xb_book xb1) BOOK_SIDE_BID []" "same_but BOOK_SIDE_BID (xb_book xb) (xb_book xb1)"
    using unwind_side_deletes [OF prn _ small(1) bs, of prfx "\<lambda>_. True"] unfolding all by blast
  have "BOOK (xb_book xb1) BOOK_SIDE_ASK = BOOK (xb_book xb) BOOK_SIDE_ASK" using 1(3) by (simp add: same_but_def)
  then have "small_side (xb_book xb1) BOOK_SIDE_ASK" "book_levels (xb_book xb1) BOOK_SIDE_ASK as"
    using small(2) as(1) by (simp_all add: leaf_side_def book_levels_def)
  then obtain xb2 where 2: "unwind_side cf prfx BOOK_SIDE_ASK (\<lambda>_. True) xb1 = Some (xb2, concat (map (deletion prfx BOOK_SIDE_ASK) as))"
    "book_levels (xb_book xb2) BOOK_SIDE_ASK []" "same_but BOOK_SIDE_ASK (xb_book xb1) (xb_book xb2)"
    using unwind_side_deletes [OF prn _ _ _ as(2), where xb = xb1 and prfx = prfx and C = "\<lambda>_. True"] unfolding all by blast
  have "book_levels (xb_book xb2) BOOK_SIDE_BID []" using same_but_levels [OF 2(3)] 1(2) by simp
  then show ?thesis using 1(1) 2(1,2) q prn by (simp add: on_quote_def Let_def)
qed

text \<open>A level-1 quote.\<close>

definition better :: "book_side_t \<Rightarrow> px_t \<Rightarrow> px_t \<Rightarrow> bool" where
  "better s p k \<longleftrightarrow> s = BOOK_SIDE_BID \<and> p < k \<or> s = BOOK_SIDE_ASK \<and> k < p"

lemma on_quote_level1:
  assumes prn: "cf_prq cf = PRQ2" and q: "q_s q = BOOK_SIDE_ASK \<or> q_s q = BOOK_SIDE_BID" "q_f q = BOOK_LVL_1"
    and p: "plain (q_p q)" "plain (q_q q)" "0 < q_q q"
    and b: "small_side (xb_book xb) (q_s q)" "book_levels (xb_book xb) (q_s q) xs" "\<forall>x \<in> set xs. plain (fst x)"
  shows "\<exists>xb' k'. on_quote cf prfx xb q =
      Some (xb', concat (map (deletion prfx (q_s q)) (takeWhile (better (q_s q) (q_p q) \<circ> fst) xs)) @
        prfx @ quote_text (q_s q) (CHR ''2'') (q_p q) (q_q q)) \<and>
    deq (q_p q) k' \<and> book_levels (xb_book xb') (q_s q) [(k', quote_val q)] \<and> same_but (q_s q) (xb_book xb) (xb_book xb')"
proof -
  let ?C = "better (q_s q) (q_p q)"
  obtain xb1 where 1: "unwind_side cf prfx (q_s q) ?C xb = Some (xb1, concat (map (deletion prfx (q_s q)) (takeWhile (?C \<circ> fst) xs)))"
    "same_but (q_s q) (xb_book xb) (xb_book xb1)" "small_side (xb_book xb1) (q_s q)"
    using unwind_side_deletes [OF prn q(1) b] by blast
  obtain nd where nd: "leaf_side (xb_book xb1) (q_s q) nd" "bt_n nd < 63" using 1(3) by force
  obtain b' old k' where b': "book_add (xb_book xb1) q = Some (b', old)" "same_but (q_s q) (xb_book xb1) b'" "deq (q_p q) k'"
    "book_levels b' (q_s q) [(k', quote_val q)]"
    using book_add_lvl1 [OF q nd(1) plain_not_nan [OF p(1)] p(3) nd(2)] by blast
  have "prq cf prfx (xb1\<lparr>xb_book := b'\<rparr>) q old = Some (xb1\<lparr>xb_book := b'\<rparr>, prfx @ quote_text (q_s q) (CHR ''2'') (q_p q) (q_q q))"
    by (simp add: prq_def prn prq2_def quote_buf_plain [OF p(1,2)])
  moreover have "?C = (\<lambda>p. q_s q = BOOK_SIDE_BID \<and> p > q_p q \<or> q_s q = BOOK_SIDE_ASK \<and> p < q_p q)"
    by (auto simp: better_def)
  ultimately have "on_quote cf prfx xb q = Some (xb1\<lparr>xb_book := b'\<rparr>,
      concat (map (deletion prfx (q_s q)) (takeWhile (?C \<circ> fst) xs)) @ prfx @ quote_text (q_s q) (CHR ''2'') (q_p q) (q_q q))"
    using 1(1) b'(1) q(2) prn by (simp add: on_quote_def Let_def)
  moreover have "same_but (q_s q) (xb_book xb) b'" using 1(2) b'(2) by (simp add: same_but_def)
  ultimately show ?thesis using b'(3,4) by (intro exI [of _ "xb1\<lparr>xb_book := b'\<rparr>"] exI [of _ k']) simp
qed

subsection \<open>Properties\<close>


definition sample_xbook :: xbook_t where
  "sample_xbook = (make_xbook 0)\<lparr>xb_book := sample_book\<rparr>"

definition sample_config :: config where
  "sample_config = \<lparr>cf_prq = PRQ2, cf_ntop = 0, cf_cqty = zero_bits\<rparr>"

lemma sample_prices: "plain (dd 99 0)" "plain (dd 100 0)" "plain (dd 101 0)"
  by code_simp+

lemma sample_small: "bt_n sample_leaf \<le> 62" "bt_n sample_bids \<le> 62"
  by code_simp+



lemma sample_better: "better BOOK_SIDE_ASK (dd 101 0) (dd 100 0)" "\<not> better BOOK_SIDE_ASK (dd 101 0) (dd 101 0)"
  by code_simp+


end
