(* ===== verification/Book2book_Print.thy ===== *)
theory Book2book_Print
  imports Book2book_Run
begin

text \<open>
  The printer for the top of the book: what line it prints for the levels of a book, when it prints one, and that
  the line fits its buffer.
\<close>

text \<open>A field is left empty if there is no such quote.\<close>

definition px_field :: "(px_t \<times> btree_val) list \<Rightarrow> string" where
  "px_field xs = (case xs of [] \<Rightarrow> [] | x # _ \<Rightarrow> d64tostr BUFSZ (fst x))"

definition qx_field :: "(px_t \<times> btree_val) list \<Rightarrow> string" where
  "qx_field xs = (case xs of [] \<Rightarrow> [] | x # _ \<Rightarrow> d64tostr BUFSZ (val_q (snd x)))"

definition top_line :: "(px_t \<times> btree_val) list \<Rightarrow> (px_t \<times> btree_val) list \<Rightarrow> string" where
  "top_line bs as = ''c1'' @ [TAB] @ px_field bs @ [TAB] @ px_field as @ [TAB] @ qx_field bs @ [TAB] @ qx_field as @ [NL]"

definition plain_level :: "px_t \<times> btree_val \<Rightarrow> bool" where
  "plain_level x \<longleftrightarrow> plain (fst x) \<and> plain (val_q (snd x))"

text \<open>Whether the printer has printed this top already.\<close>

definition same_top :: "xbook_t \<Rightarrow> book_quo_t \<Rightarrow> book_quo_t \<Rightarrow> bool" where
  "same_top xb b a \<longleftrightarrow> deq (q_p b) (xb_bid xb) \<and> deq (q_q b) (xb_bsz xb) \<and> deq (q_p a) (xb_ask xb) \<and> deq (q_q a) (xb_asz xb)"

lemma truthy_top:
  assumes "\<forall>x \<in> set xs. \<not> btree_val_nil_p (snd x)"
  shows "truthy (q_q (top_quote s xs)) \<longleftrightarrow> xs \<noteq> []"
proof (cases xs)
  case Nil
  have "deq (bobs64 0) 0" by code_simp
  then show ?thesis using Nil by (simp add: truthy_def top_quote_def NOT_A_QUO_def)
next
  case (Cons x ys)
  then have "\<not> val_q (snd x) \<le> 0" using assms by (simp add: btree_val_nil_p_def)
  then have "\<not> deq (val_q (snd x)) 0" by (auto simp: deq_def)
  then show ?thesis using Cons by (cases x) (simp add: truthy_def top_quote_def)
qed

lemma quad_line_top:
  assumes "\<forall>x \<in> set bs. \<not> btree_val_nil_p (snd x)" "\<forall>x \<in> set as. \<not> btree_val_nil_p (snd x)"
    and "list_all plain_level (take 1 bs @ take 1 as)"
  defines "b \<equiv> top_quote BOOK_SIDE_BID bs" and "a \<equiv> top_quote BOOK_SIDE_ASK as"
  shows "quad_line ''c1'' (truthy (q_q b)) (truthy (q_q a)) (q_p b) (q_p a) (q_q b) (q_q a) = Some (top_line bs as)"
proof -
  have t: "truthy (q_q b) \<longleftrightarrow> bs \<noteq> []" "truthy (q_q a) \<longleftrightarrow> as \<noteq> []"
    using truthy_top assms(1,2) by (simp_all add: a_def b_def)
  have p: "bs \<noteq> [] \<Longrightarrow> plain (q_p b) \<and> plain (q_q b)" "as \<noteq> [] \<Longrightarrow> plain (q_p a) \<and> plain (q_q a)"
    using assms(3) by (cases bs; cases as; auto simp: a_def b_def top_quote_def plain_level_def split: prod.splits)+
  have f: "(if bs \<noteq> [] then d64tostr BUFSZ (q_p b) else []) = px_field bs" "(if as \<noteq> [] then d64tostr BUFSZ (q_p a) else []) = px_field as"
    "(if bs \<noteq> [] then d64tostr BUFSZ (q_q b) else []) = qx_field bs" "(if as \<noteq> [] then d64tostr BUFSZ (q_q a) else []) = qx_field as"
    by (auto simp: a_def b_def top_quote_def px_field_def qx_field_def split: list.splits)
  have l: "length (px_field bs) \<le> 18" "length (px_field as) \<le> 18" "length (qx_field bs) \<le> 18"
    using plain_text(2) p by (auto simp flip: f)
  have start: "putcs [] ''c1'' = Some ''c1''" "putc ''c1'' TAB = Some (''c1'' @ [TAB])" by (simp_all add: putc_def)
  show ?thesis
    unfolding quad_line_def quad_fields_def t start bind.bind_lunit
    using p l by (simp add: putfield_plain f [simplified] top_line_def)
qed

subsection \<open>Properties\<close>

text \<open>
  C17: The printer of the top of the book, when the prices and quantities of the best bid and the best ask are \<open>plain\<close> (finite, at
  most 15 digits, exponent between -15 and 0, zero without a sign): it prints nothing if they are what it printed last,
  and otherwise one line with the best bid and ask and their quantities, fields of an empty side left empty; the line fits its
  buffer. It remembers what it printed, and the book shows the same levels afterwards. For numbers with a large
  exponent the buffer may be overrun.
\<close>

theorem prq1_reports_top:
  assumes "book_levels (xb_book xb) BOOK_SIDE_BID bs" "book_levels (xb_book xb) BOOK_SIDE_ASK as"
    and "list_all plain_level (take 1 bs @ take 1 as)"
  defines "b \<equiv> top_quote BOOK_SIDE_BID bs" and "a \<equiv> top_quote BOOK_SIDE_ASK as"
  shows "\<exists>bk. book_levels bk BOOK_SIDE_BID bs \<and> book_levels bk BOOK_SIDE_ASK as \<and>
    prq1 prfx xb =
      (if same_top xb b a then Some (xb\<lparr>xb_book := bk\<rparr>, [])
       else Some (xb\<lparr>xb_book := bk, xb_bid := q_p b, xb_ask := q_p a, xb_bsz := q_q b, xb_asz := q_q a\<rparr>, prfx @ top_line bs as))"
proof -
  obtain b1 where 1: "book_top (xb_book xb) BOOK_SIDE_BID = Some (b1, b)" "book_levels b1 BOOK_SIDE_BID bs"
     "same_but BOOK_SIDE_BID (xb_book xb) b1" using book_top_quote [OF assms(1)] unfolding b_def by blast
  have "book_levels b1 BOOK_SIDE_ASK as" using assms(2) same_but_levels [OF 1(3)] by simp
  then obtain b2 where 2: "book_top b1 BOOK_SIDE_ASK = Some (b2, a)" "book_levels b2 BOOK_SIDE_ASK as" "same_but BOOK_SIDE_ASK b1 b2"
    using book_top_quote unfolding a_def by blast
  have "book_levels b2 BOOK_SIDE_BID bs" using 1(2) same_but_levels [OF 2(3)] by simp
  moreover note q = quad_line_top [OF book_levels_live [OF assms(1)] book_levels_live [OF assms(2)] assms(3), folded a_def b_def]
  ultimately show ?thesis using 1(1) 2(1,2) by (intro exI [of _ b2]) (simp add: prq1_def same_top_def Let_def)
qed

theorem prq1_reports_top_witness:
  "\<exists>bk. prq1 ''X'' ((make_xbook 0)\<lparr>xb_book := sample_book\<rparr>) =
    Some (\<lparr>xb_book = bk, xb_bid = dd 99 0, xb_ask = dd 100 0, xb_bsz = dd 4 0, xb_asz = dd 5 0, xb_bids = [], xb_asks = [], xb_bszs = [],
      xb_aszs = []\<rparr>, ''Xc1'' @ TAB # ''99'' @ TAB # ''100'' @ TAB # ''4'' @ TAB # ''5'' @ [NL])"
proof -
  have pl: "plain (dd 99 0)" "plain (dd 100 0)" "plain (dd 4 0)" "plain (dd 5 0)" by code_simp+
  have tx: "d64tostr 256 (dd 99 0) = ''99''" "d64tostr 256 (dd 100 0) = ''100''" "d64tostr 256 (dd 4 0) = ''4''" "d64tostr 256 (dd 5 0) = ''5''"
    by code_simp+
  have "\<not> deq (dd 99 0) zero_bits" by code_simp
  then show ?thesis
    using prq1_reports_top [of "(make_xbook 0)\<lparr>xb_book := sample_book\<rparr>" "[(dd 99 0, sample_val 4)]"
        "[(dd 100 0, sample_val 5), (dd 101 0, sample_val 7)]" "''X''"] sample_levels pl tx
    by (auto simp: plain_level_def sample_val_def top_quote_def same_top_def make_xbook_def Let_def top_line_def px_field_def qx_field_def)
qed

end
