(* ===== verification/Booksnap_Run.thy ===== *)
theory Booksnap_Run
  imports Booksnap Book2book_Unwind Book2book_Print
begin

text \<open>
  The snapshot of a book at level 2: the iterator's levels become lines, and these are lines the converter reads.
\<close>

subsection \<open>The buffer of a line\<close>

lemma putcs_fits: "length buf + length cs \<le> BUFSZ \<Longrightarrow> putcs buf cs = Some (buf @ cs)"
  by (induction cs arbitrary: buf) (simp_all add: putc_def)

lemma stamp_buf_fits:
  assumes "length ins + length tag \<le> 180"
  shows "stamp_buf metr (Some ins) tag = Some (tvtostr BUFSZ metr @ TAB # ins @ TAB # tag)"
proof -
  have "length (tvtostr BUFSZ metr) \<le> 21" by (rule tvtostr_fits) simp
  then have "putcs (tvtostr BUFSZ metr) (TAB # ins) = Some (tvtostr BUFSZ metr @ TAB # ins)"
    "putcs (tvtostr BUFSZ metr @ TAB # ins) (TAB # tag) = Some ((tvtostr BUFSZ metr @ TAB # ins) @ TAB # tag)"
    using assms by (intro putcs_fits; simp)+
  then show ?thesis by (simp only: stamp_buf_def Let_def option.case bind.bind_lunit append.assoc append_Cons)
qed

lemma tvtostr_size: "19 \<le> bsz \<Longrightarrow> tvtostr bsz t = tvtostr 32 t"
  by (simp add: tvtostr_def Let_def)

lemma go_to_asks_third: "go_to_asks (buf @ [x, y, z]) = buf @ [CHR ''A'', y, z]"
  by (simp add: go_to_asks_def list_update_append)

definition level_text :: "px_t \<times> btree_val \<Rightarrow> string" where
  "level_text x = d64tostr BUFSZ (fst x) @ [TAB] @ d64tostr BUFSZ (val_q (snd x)) @ [NL]"

lemma level_buf_fits:
  assumes "plain_level x" "length buf \<le> 181"
  shows "level_buf buf (fst x) (val_q (snd x)) = Some (buf @ level_text x)"
proof -
  have p: "plain (fst x)" "plain (val_q (snd x))" using assms(1) by (simp_all add: plain_level_def)
  have "length (d64tostr BUFSZ (fst x)) \<le> 18" using plain_text(2) [OF p(1)] by simp
  then show ?thesis using p assms(2) by (simp add: level_buf_def level_text_def putfield_plain)
qed

subsection \<open>The levels of a side\<close>

lemma snap_levels_prints:
  assumes "length prfx \<le> 181"
  shows "iter_inv h t (tree_iter i) pre xs \<Longrightarrow> list_all plain_level xs \<Longrightarrow>
    \<exists>h'. snap_levels prfx h i out = Some (h', out @ concat (map (\<lambda>x. prfx @ level_text x) xs)) \<and> holds h' t (pre @ xs)"
proof (induction xs arbitrary: h i pre out)
  case Nil
  then show ?case using book_iter_next_Nil [OF Nil(1)] by (subst snap_levels.simps) auto
next
  case (Cons x xs)
  obtain h1 i1 it where st: "book_iter_next h i = Some (h1, i1, True)" "bi_p i1 = fst x" "iter_cur h1 t it pre x xs"
     "it_t (tree_iter i1) = it_t it" "it_i (tree_iter i1) = it_i it" "bi_q i1 = val_q (snd x)"
    using book_iter_next_Cons [OF Cons.prems(1)] by blast
  have "iter_inv h1 t (tree_iter i1) (pre @ [x]) xs" using bi.cur_inv [OF st(3)] iter_inv_cong st(4,5) by metis
  moreover have "level_buf prfx (bi_p i1) (bi_q i1) = Some (prfx @ level_text x)"
    using level_buf_fits [OF _ assms] Cons.prems(2) st(2,6) by simp
  ultimately show ?case
    using Cons.IH [of h1 i1 "pre @ [x]" "out @ prfx @ level_text x"] Cons.prems(2) st(1) by (subst snap_levels.simps) auto
qed

text \<open>The quotes that make up a side.\<close>

definition side_quotes :: "string \<Rightarrow> tv \<Rightarrow> book_side_t \<Rightarrow> (px_t \<times> btree_val) list \<Rightarrow> (string \<times> book_quo_t) list" where
  "side_quotes ins t s xs = map (\<lambda>(k, v). (ins, \<lparr>q_s = s, q_f = BOOK_LVL_2, q_p = k, q_q = val_q v, q_t = t\<rparr>)) xs"

lemma side_lines:
  "map (\<lambda>x. (tvtostr BUFSZ t @ TAB # ins @ TAB # [side_letter s, CHR ''2'', TAB]) @ level_text x) xs =
   map level2_line (side_quotes ins t s xs)"
  using tvtostr_size [of BUFSZ t]
  by (auto simp: side_quotes_def level2_line_def line_of_def quote_prefix_def quote_text_def level_text_def)

lemma snap2_prints:
  assumes bs: "book_levels bk BOOK_SIDE_BID bs" "list_all plain_level bs" and as: "book_levels bk BOOK_SIDE_ASK as" "list_all plain_level as"
    and ins: "length ins \<le> 150"
  shows "\<exists>bk'. snap2 metr (Some ins) bk =
      Some (bk', concat (map level2_line (side_quotes ins metr BOOK_SIDE_BID bs @ side_quotes ins metr BOOK_SIDE_ASK as))) \<and>
    book_levels bk' BOOK_SIDE_BID bs \<and> book_levels bk' BOOK_SIDE_ASK as"
proof -
  let ?p = "tvtostr BUFSZ metr @ TAB # ins @ [TAB]"
  have letters: "CHR ''B'' = side_letter BOOK_SIDE_BID" "CHR ''A'' = side_letter BOOK_SIDE_ASK" by code_simp+
  have "length (tvtostr BUFSZ metr) \<le> 21" by (rule tvtostr_fits) simp
  then have len: "length (?p @ [c, CHR ''2'', TAB]) \<le> 181" for c using ins by simp
  have pre: "stamp_buf metr (Some ins) (''B2'' @ [TAB]) = Some (?p @ [CHR ''B'', CHR ''2'', TAB])"
    "go_to_asks (?p @ [CHR ''B'', CHR ''2'', TAB]) = ?p @ [CHR ''A'', CHR ''2'', TAB]"
    using stamp_buf_fits [of ins "''B2'' @ [TAB]" metr] ins go_to_asks_third [of ?p] by simp_all
  obtain h t where h: "BOOK bk BOOK_SIDE_BID = Some (h, t)" "holds h t bs" using bs(1) by (rule book_levelsE)
  obtain h1 where 1: "snap_levels (?p @ [CHR ''B'', CHR ''2'', TAB]) h (book_iter t) [] =
      Some (h1, concat (map level2_line (side_quotes ins metr BOOK_SIDE_BID bs)))" "holds h1 t bs"
    using snap_levels_prints [OF len book_iter_inv [OF h(2)] bs(2), of "CHR ''B''" "[]"]
      side_lines [of metr ins BOOK_SIDE_BID bs] by (auto simp: letters)
  let ?b1 = "set_side bk BOOK_SIDE_BID h1"
  have b1: "book_levels ?b1 BOOK_SIDE_BID bs" "book_levels ?b1 BOOK_SIDE_ASK as"
    using book_levels_set_side [OF h(1) 1(2)] same_but_levels [OF same_but_set_side [OF h(1)]] as(1) by simp_all
  obtain g u where g: "BOOK ?b1 BOOK_SIDE_ASK = Some (g, u)" "holds g u as" using b1(2) by (rule book_levelsE)
  obtain g1 where 2: "snap_levels (?p @ [CHR ''A'', CHR ''2'', TAB]) g (book_iter u) [] =
      Some (g1, concat (map level2_line (side_quotes ins metr BOOK_SIDE_ASK as)))" "holds g1 u as"
    using snap_levels_prints [OF len book_iter_inv [OF g(2)] as(2), of "CHR ''A''" "[]"]
      side_lines [of metr ins BOOK_SIDE_ASK as] by (auto simp: letters)
  let ?b2 = "set_side ?b1 BOOK_SIDE_ASK g1"
  have "book_levels ?b2 BOOK_SIDE_ASK as" "book_levels ?b2 BOOK_SIDE_BID bs"
    using book_levels_set_side [OF g(1) 2(2)] same_but_levels [OF same_but_set_side [OF g(1)]] b1(1) by simp_all
  then show ?thesis using h(1) g(1) 1(1) 2(1) pre by (simp add: snap2_def Let_def)
qed

subsection \<open>Properties\<close>

text \<open>
  C18: The snapshot of a book at level 2, when the prices and quantities of all its levels are \<open>plain\<close> (finite, at most 15 digits,
  exponent between -15 and 0, zero without a sign), the name of the instrument has 1 to 150 bytes and no tab, and the time of
  the snapshot is at least one second: it is one line for every level, all bids from the best one on and then all asks,
  with the time of the snapshot; every line fits its buffer, and every line is one that \<open>book2book\<close> at level 2 passes through
  unchanged. The book shows the same levels afterwards. Longer names are copied without a check and may overrun the buffer.
\<close>

theorem snap2_prints_levels:
  assumes "book_levels bk BOOK_SIDE_BID bs" "list_all plain_level bs" "book_levels bk BOOK_SIDE_ASK as" "list_all plain_level as"
    and "ins \<noteq> []" "length ins \<le> 150" "TAB \<notin> set ins" "NSECS \<le> metr"
  defines "qs \<equiv> side_quotes ins metr BOOK_SIDE_BID bs @ side_quotes ins metr BOOK_SIDE_ASK as"
  shows "\<exists>bk'. snap2 metr (Some ins) bk = Some (bk', concat (map level2_line qs)) \<and> (\<forall>x \<in> set qs. plain_quote x) \<and>
    book_levels bk' BOOK_SIDE_BID bs \<and> book_levels bk' BOOK_SIDE_ASK as"
proof -
  have "\<forall>x \<in> set qs. plain_quote x"
    using assms(2,4-8) by (auto simp: qs_def side_quotes_def plain_quote_def plain_level_def list_all_iff)
  then show ?thesis using snap2_prints [OF assms(1-4,6), of metr] unfolding qs_def by blast
qed

theorem snap2_prints_levels_witness:
  "\<exists>bk'. snap2 1500000000123456789 (Some ''EURUSD'') sample_book = Some (bk',
      level2_line (''EURUSD'', \<lparr>q_s = BOOK_SIDE_BID, q_f = BOOK_LVL_2, q_p = dd 99 0, q_q = dd 4 0, q_t = 1500000000123456789\<rparr>) @
      level2_line (''EURUSD'', \<lparr>q_s = BOOK_SIDE_ASK, q_f = BOOK_LVL_2, q_p = dd 100 0, q_q = dd 5 0, q_t = 1500000000123456789\<rparr>) @
      level2_line (''EURUSD'', \<lparr>q_s = BOOK_SIDE_ASK, q_f = BOOK_LVL_2, q_p = dd 101 0, q_q = dd 7 0, q_t = 1500000000123456789\<rparr>))"
proof -
  have q: "plain (dd 4 0)" "plain (dd 5 0)" "plain (dd 7 0)" by code_simp+
  show ?thesis
    using snap2_prints_levels [of sample_book "[(dd 99 0, sample_val 4)]" "[(dd 100 0, sample_val 5), (dd 101 0, sample_val 7)]"
        "''EURUSD''" 1500000000123456789] sample_levels sample_prices q
    by (auto simp: plain_level_def sample_val_def side_quotes_def)
qed

end
