(* ===== verification/Dfp754_d32.thy ===== *)
theory Dfp754_d32
  imports Dfp754_d64
begin

text \<open>
  The 32 bit sibling of the decimal helpers, \<open>src/src/dfp754_d32.c\<close> and \<open>.h\<close>: the same operations on
  \<open>_Decimal32\<close>, with seven digits and an exponent offset of 101. The character tests and the two
  digit-skipping loops of the string reader are those of the 64 bit file.
\<close>

subsection \<open>Taking a decimal apart\<close>

definition sign_bid32 :: "d32 \<Rightarrow> int" where
  "sign_bid32 x = sint (signed_drop_bit 31 (bits32 x))"

definition mant_bid32 :: "d32 \<Rightarrow> 32 word" where
  "mant_bid32 x =
     (let b = bits32 x in
      if b AND 0x60000000 = 0x60000000
      then push_bit 21 0b100 XOR (b AND 0x1fffff)
      else b AND 0x7fffff)"

definition quantexpbid32 :: "d32 \<Rightarrow> int" where
  "quantexpbid32 x =
     (let b = bits32 x in
      if b = 0 then 0
      else let tmp = (if b AND 0x60000000 \<noteq> 0x60000000 then drop_bit 23 b else drop_bit 21 b)
           in uint (tmp AND 0xff) - 101)"

definition sign_dpd32 :: "d32 \<Rightarrow> int" where
  "sign_dpd32 x = sint (signed_drop_bit 31 (bits32 x))"

definition mant_dpd32 :: "d32 \<Rightarrow> 32 word" where
  "mant_dpd32 x =
     (let b = bits32 x; res = b AND 0xfffff; b = drop_bit 26 b in
      if b AND 0b11000 = 0b11000
      then res XOR push_bit 20 ((b AND 0b00001) OR 0b1000)
      else res XOR push_bit 20 (b AND 0b00111))"

definition quantexpdpd32 :: "d32 \<Rightarrow> int" where
  "quantexpdpd32 x =
     (let b = drop_bit 20 (bits32 x) in
      if b = 0 then 0
      else let tmp = (if b AND 0b11000000000 \<noteq> 0b11000000000
                      then drop_bit 3 (b AND 0b11000000000) OR (b AND 0b111111)
                      else drop_bit 1 (b AND 0b00110000000) OR (b AND 0b111111))
           in uint tmp - 101)"

definition isnand32 :: "d32 \<Rightarrow> bool" where
  "isnand32 x \<longleftrightarrow> dec_of_d32 x = DNaN"

definition isinfd32 :: "d32 \<Rightarrow> bool" where
  "isinfd32 x \<longleftrightarrow> (case dec_of_d32 x of DInf _ \<Rightarrow> True | _ \<Rightarrow> False)"

subsection \<open>Declets\<close>

definition pack_declet32 :: "32 word \<Rightarrow> 32 word" where
  "pack_declet32 x =
     (let d0 = x AND 0xF;
          (d0, c) = (if d0 \<ge> 8 then (d0 AND 1, 0b001) else (d0, 0));
          x = drop_bit 4 x;
          d1 = x AND 0xF;
          (d1, c) = (if d1 \<ge> 8 then (d1 AND 1, c OR 0b010) else (d1, c));
          x = drop_bit 4 x;
          d2 = x AND 0xF;
          (d2, c) = (if d2 \<ge> 8 then (d2 AND 1, c OR 0b100) else (d2, c));
          res = push_bit 7 d2 OR push_bit 4 d1 OR d0 in
      if c = (0b000 :: 32 word) then res
      else if c = 0b001 then res OR push_bit 1 0b100
      else if c = 0b010 then
        (res AND NOT 0b1110) OR (push_bit 1 0b101 OR push_bit 4 (d0 AND 0b110))
      else if c = 0b011 then res OR (push_bit 4 0b100 OR push_bit 1 0b111)
      else if c = 0b100 then
        (res AND NOT 0b1110) OR (push_bit 7 (d0 AND 0b110) OR push_bit 1 0b110)
      else if c = 0b101 then
        (res AND NOT 0b1100000) OR
        (push_bit 7 (d1 AND 0b110) OR push_bit 4 0b010 OR push_bit 1 0b111)
      else if c = 0b110 then
        (res AND NOT 0b1110) OR (push_bit 7 (d0 AND 0b110) OR push_bit 1 0b111)
      else if c = 0b111 then res OR (push_bit 4 0b110 OR push_bit 1 0b111)
      else 0)"

definition unpack_declet32 :: "32 word \<Rightarrow> 32 word" where
  "unpack_declet32 x =
     (let trivial = (x AND 0b1111) OR (x AND 0b1110000) OR push_bit 1 (x AND 0b1110000000);
          sw = drop_bit 1 x AND 0b111;
          sw2 = drop_bit 5 x AND 0b11;
          d2 = push_bit 1 (x AND 0b1110000000);
          d2l = push_bit 8 0b1000 OR push_bit 1 (x AND 0b0010000000);
          d1l = push_bit 4 0b1000 OR (x AND 0b0000010000);
          d0l = push_bit 0 0b1000 OR (x AND 0b0000000001) in
      if x AND 0b1000 = 0 then trivial
      else if sw = 0b100 then trivial
      else if sw = 0b101 then d2 OR d1l OR (drop_bit 4 (x AND 0b1100000) OR (x AND 0b1))
      else if sw = 0b110 then
        d2l OR (x AND 0b1110000) OR (drop_bit 7 (x AND 0b1100000000) OR (x AND 0b1))
      else if sw = 0b111 then
        (if sw2 = 0b10 then d2 OR d1l OR d0l
         else if sw2 = 0b01 then
           d2l OR (drop_bit 3 (x AND 0b1100000000) OR (x AND 0b0000010000)) OR d0l
         else if sw2 = 0b00 then d2l OR d1l OR (drop_bit 7 (x AND 0b1100000000) OR (x AND 0b1))
         else d2l OR d1l OR d0l)
      else 0)"

subsection \<open>Putting a decimal together\<close>

record bcd32 =
  bcd32_mant :: "32 word"
  bcd32_expo :: int
  bcd32_sign :: int

definition assemble_bid32 :: "32 word \<Rightarrow> 32 word \<Rightarrow> 32 word \<Rightarrow> d32" where
  "assemble_bid32 m ex s =
     (let u = push_bit 31 s in
      if m AND push_bit 23 1 \<noteq> 0
      then bobs32 (u XOR push_bit 29 0b11 XOR push_bit 21 ex XOR (m AND 0x1fffff))
      else bobs32 (u XOR push_bit 23 ex XOR (m AND 0x7fffff)))"

definition mirror_nibbles32 :: "32 word \<Rightarrow> 32 word" where
  "mirror_nibbles32 m0 =
     (let m1 = drop_bit 16 (m0 AND 0xffff0000) XOR push_bit 16 (m0 AND 0x0000ffff);
          m2 = drop_bit 8 (m1 AND 0xff00ff00) XOR push_bit 8 (m1 AND 0x00ff00ff)
      in drop_bit 4 (m2 AND 0xf0f0f0f0) XOR push_bit 4 (m2 AND 0x0f0f0f0f))"

fun horner_nibbles32 :: "nat \<Rightarrow> 32 word \<Rightarrow> 32 word \<Rightarrow> 32 word" where
  "horner_nibbles32 0 b m = m"
| "horner_nibbles32 (Suc i) b m = horner_nibbles32 i (drop_bit 4 b) (m * 10 + (b AND 0b1111))"

definition bcd32tobid :: "bcd32 \<Rightarrow> d32" where
  "bcd32tobid b =
     assemble_bid32 (horner_nibbles32 7 (drop_bit 4 (mirror_nibbles32 (bcd32_mant b))) 0)
       (word_of_int (bcd32_expo b + 101)) (word_of_int (bcd32_sign b))"

definition bcd32todpd :: "bcd32 \<Rightarrow> d32" where
  "bcd32todpd b =
     (let m = bcd32_mant b; u = push_bit 31 (word_of_int (bcd32_sign b));
          rex = (word_of_int (bcd32_expo b + 101) :: 32 word);
          u = u OR pack_declet32 (m AND 0xfff);
          m = drop_bit 12 m; u = u OR push_bit 10 (pack_declet32 (m AND 0xfff));
          m = drop_bit 12 m;
          rex = (if m \<ge> 8
                 then (push_bit 1 (rex AND 0b11000000) OR (rex AND 0b00111111)) OR 0b11000000000
                 else push_bit 3 (rex AND 0b11000000) OR (rex AND 0b00111111));
          u = u OR push_bit 20 rex;
          u = u OR push_bit 26 (m AND 0x7)
      in bobs32 u)"

subsection \<open>Reading strings\<close>

text \<open>All of \<open>round_bcd32\<close> is 32 bit arithmetic; its loop need not stop either.\<close>

partial_function (option) round_bcd32_loop ::
    "32 word \<Rightarrow> int \<Rightarrow> nat \<Rightarrow> (32 word \<times> 32 word \<times> nat) option" where
  "round_bcd32_loop mant roff sh =
     (let x = (mant AND 0b1111) + word_of_int roff in
      if x > 9 then round_bcd32_loop (drop_bit 4 mant) roff (sh + 4) else Some (mant, x, sh))"

declare round_bcd32_loop.simps [code]

definition round_bcd32 :: "32 word \<Rightarrow> int \<Rightarrow> 32 word option" where
  "round_bcd32 mant roff = do {
     (mant, x, sh) \<leftarrow> round_bcd32_loop mant roff 0;
     Some (push_bit sh ((mant AND NOT 0b1111) OR x))
   }"

definition digU32 :: "char \<Rightarrow> 32 word" where
  "digU32 c = of_nat (cval c - 48)"

fun scan_digits32 :: "nat \<Rightarrow> string \<Rightarrow> 32 word \<Rightarrow> nat \<times> string \<times> 32 word" where
  "scan_digits32 nd [] mant = (nd, [], mant)"
| "scan_digits32 nd (c # sp) mant =
     (if isdig c \<and> nd > 0 then scan_digits32 (nd - 1) sp (push_bit 4 mant OR digU32 c)
      else (nd, c # sp, mant))"

fun scan_fraction32 :: "nat \<Rightarrow> string \<Rightarrow> 32 word \<Rightarrow> int \<Rightarrow> nat \<times> string \<times> 32 word \<times> int" where
  "scan_fraction32 nd [] mant expo = (nd, [], mant, expo)"
| "scan_fraction32 nd (c # sp) mant expo =
     (if isdig c \<and> nd > 0 then scan_fraction32 (nd - 1) sp (push_bit 4 mant OR digU32 c) (expo - 1)
      else (nd, c # sp, mant, expo))"

definition strtobcd32 :: "string \<Rightarrow> (bcd32 \<times> string) option" where
  "strtobcd32 src =
     (let (sign, sp) = (if deref_c src = CHR ''-'' then (1, tl src)
                        else if deref_c src = CHR ''+'' then (0, tl src) else (0, src));
          sp = dropWhile (\<lambda>c. c = CHR ''0'') sp;
          (nd, sp, mant) = scan_digits32 7 sp 0;
          roff = half_up sp;
          (sp, expo) = skip_digits sp 0;
          (roff, mant, expo, sp) =
            (if deref_c sp = CHR ''.'' \<and> nd > 0 then
               (let (nd, sp, mant, expo) = scan_fraction32 nd (tl sp) mant expo in
                (roff + half_up sp, mant, expo, dropWhile isdig sp))
             else if deref_c sp = CHR ''.'' then
               (roff + half_up sp, mant, expo, dropWhile isdig (tl sp))
             else (roff, mant, expo, sp))
      in do {
        mant \<leftarrow> (if roff \<noteq> 0 then round_bcd32 mant (if sign \<noteq> 0 then - 1 else 1) else Some mant);
        Some (\<lparr>bcd32_mant = mant, bcd32_expo = expo, bcd32_sign = sign\<rparr>, sp)
      })"

definition strtobid32 :: "string \<Rightarrow> (d32 \<times> string) option" where
  "strtobid32 src = do { (b, on) \<leftarrow> strtobcd32 src; Some (bcd32tobid b, on) }"

definition strtodpd32 :: "string \<Rightarrow> (d32 \<times> string) option" where
  "strtodpd32 src = do { (b, on) \<leftarrow> strtobcd32 src; Some (bcd32todpd b, on) }"

definition strtod32 :: "string \<Rightarrow> (d32 \<times> string) option" where
  "strtod32 src = strtobid32 src"

subsection \<open>Writing strings\<close>

definition Cchr32 :: "32 word \<Rightarrow> char" where
  "Cchr32 x = char_of (unat x + 48)"

fun bcd32_frac :: "nat \<Rightarrow> int \<Rightarrow> 32 word \<Rightarrow> string \<times> nat \<times> int \<times> 32 word" where
  "bcd32_frac 0 e mant = ([], 0, e, mant)"
| "bcd32_frac (Suc room) e mant =
     (if e < 0
      then (case bcd32_frac room (e + 1) (drop_bit 4 mant) of
              (ws, r) \<Rightarrow> (Cchr32 (mant AND 0b1111) # ws, r))
      else ([], Suc room, e, mant))"

fun bcd32_mants :: "nat \<Rightarrow> 32 word \<Rightarrow> string \<times> nat" where
  "bcd32_mants 0 mant = ([], 0)"
| "bcd32_mants (Suc room) mant =
     (if mant \<noteq> 0
      then (case bcd32_mants room (drop_bit 4 mant) of (ws, r) \<Rightarrow> (Cchr32 (mant AND 0b1111) # ws, r))
      else ([], Suc room))"

definition bcd32tostr :: "nat \<Rightarrow> 32 word \<Rightarrow> int \<Rightarrow> int \<Rightarrow> string" where
  "bcd32tostr bsz mant e s =
     (let (w1, room, e, mant) = bcd32_frac bsz e mant;
          (w2, room) = (if w1 \<noteq> [] \<and> room > 0 then (''.'', room - 1) else ([], room));
          (w3, room) = bcd_zeros room e;
          (w4, room) = (if mant \<noteq> 0 then bcd32_mants room mant
                        else if room > 0 then (''0'', room - 1) else ([], room));
          w5 = (if s \<noteq> 0 \<and> room > 0 then ''-'' else [])
      in rev (w1 @ w2 @ w3 @ w4 @ w5))"

text \<open>Seven decimal digits into seven nibbles, the last digit lowest.\<close>

fun bcd32_encode :: "nat \<Rightarrow> 32 word \<Rightarrow> 32 word \<Rightarrow> 32 word" where
  "bcd32_encode 0 bcdm m = bcdm"
| "bcd32_encode (Suc i) bcdm m =
     bcd32_encode i (drop_bit 4 (bcdm XOR push_bit 28 (m mod 10))) (m div 10)"

definition bid32tostr :: "nat \<Rightarrow> d32 \<Rightarrow> string" where
  "bid32tostr bsz x =
     (let e = quantexpbid32 x; m = mant_bid32 x; s = (if m \<noteq> 0 then sign_bid32 x else 0)
      in bcd32tostr bsz (bcd32_encode 7 0 m) e s)"

definition unpack_mant32 :: "32 word \<Rightarrow> 32 word" where
  "unpack_mant32 m =
     (let b = drop_bit 8 (m AND 0xf00000);
          b = b OR unpack_declet32 (drop_bit 10 m AND 0x3ff);
          b = push_bit 12 b
      in b OR unpack_declet32 (drop_bit 0 m AND 0x3ff))"

definition dpd32tostr :: "nat \<Rightarrow> d32 \<Rightarrow> string" where
  "dpd32tostr bsz x =
     (let e = quantexpdpd32 x; m = mant_dpd32 x in
      if m \<noteq> 0 then bcd32tostr bsz (unpack_mant32 m) e (sign_dpd32 x)
      else bcd32tostr bsz m e 0)"

definition d32_negative :: "d32 \<Rightarrow> bool" where
  "d32_negative x \<longleftrightarrow> dec_lt (dec_of_d32 x) (DFin False 0 0)"

definition d32tostr :: "nat \<Rightarrow> d32 \<Rightarrow> string" where
  "d32tostr bsz x =
     (if isnand32 x then take (min 3 bsz) ''nan''
      else if isinfd32 x then
        (if d32_negative x then take (min 4 bsz) ''-inf'' else take (min 3 bsz) ''inf'')
      else bid32tostr bsz x)"

subsection \<open>Quantisation and scaling\<close>

function quant_trunc32 :: "32 word \<Rightarrow> int \<Rightarrow> int \<Rightarrow> 32 word \<times> int" where
  "quant_trunc32 m ex er =
     (if ex < er then quant_trunc32 (m div 10 + (if m mod 10 \<ge> 5 then 1 else 0)) (ex + 1) er
      else (m, ex))"
  by pat_completeness auto
termination
  by (relation "measure (\<lambda>(m, ex, er). nat (er - ex))") auto

function quant_expand32 :: "32 word \<Rightarrow> int \<Rightarrow> int \<Rightarrow> 32 word \<times> int" where
  "quant_expand32 m ex er =
     (if m < 1000000 \<and> ex > er then quant_expand32 (m * 10) (ex - 1) er else (m, ex))"
  by pat_completeness auto
termination
  by (relation "measure (\<lambda>(m, ex, er). nat (ex - er))") auto

declare quant_trunc32.simps [simp del] quant_expand32.simps [simp del]

definition quantizebid32 :: "d32 \<Rightarrow> d32 \<Rightarrow> d32" where
  "quantizebid32 x r =
     (let er = quantexpbid32 r; ex = quantexpbid32 x; m = mant_bid32 x;
          (m, ex) = quant_trunc32 m ex er;
          (m, ex) = quant_expand32 m ex er
      in assemble_bid32 m (word_of_int (ex + 101)) (word_of_int (sign_bid32 x)))"

function bcd_trunc32 :: "32 word \<Rightarrow> int \<Rightarrow> int \<Rightarrow> 32 word \<times> int" where
  "bcd_trunc32 b ex er =
     (if ex < er then bcd_trunc32 (drop_bit 4 b + (if b AND 0xf \<ge> 5 then 1 else 0)) (ex + 1) er
      else (b, ex))"
  by pat_completeness auto
termination
  by (relation "measure (\<lambda>(b, ex, er). nat (er - ex))") auto

function bcd_expand32 :: "32 word \<Rightarrow> int \<Rightarrow> int \<Rightarrow> 32 word \<times> int" where
  "bcd_expand32 b ex er =
     (if b < 0x1000000 \<and> ex > er then bcd_expand32 (push_bit 4 b) (ex - 1) er else (b, ex))"
  by pat_completeness auto
termination
  by (relation "measure (\<lambda>(b, ex, er). nat (ex - er))") auto

declare bcd_trunc32.simps [simp del] bcd_expand32.simps [simp del]

lemma bcd_carry32_less:
  assumes "b AND 0xf \<ge> (10 :: 32 word)"
  shows "unat (drop_bit 4 b + 1) < unat b"
proof -
  have "(10 :: 32 word) \<le> b" using assms word_and_le2 [of b "0xf"] by (rule order_trans)
  then have ge: "10 \<le> unat b" by (simp add: word_le_nat_alt)
  have "unat (drop_bit 4 b) = unat b div 16" by (simp add: drop_bit_eq_div unat_div)
  moreover have "unat (drop_bit 4 b + 1) \<le> unat (drop_bit 4 b) + 1"
    by (simp add: unat_word_ariths)
  ultimately show ?thesis using ge by linarith
qed

function bcd_carry32 :: "32 word \<Rightarrow> nat \<Rightarrow> 32 word \<times> nat" where
  "bcd_carry32 b i = (if b AND 0xf \<ge> 10 then bcd_carry32 (drop_bit 4 b + 1) (i + 1) else (b, i))"
  by pat_completeness auto
termination
  by (relation "measure (\<lambda>(b, i). unat b)") (auto dest: bcd_carry32_less)

declare bcd_carry32.simps [simp del]

definition quantizedpd32 :: "d32 \<Rightarrow> d32 \<Rightarrow> d32" where
  "quantizedpd32 x r =
     (let er = quantexpdpd32 r; ex = quantexpdpd32 x; m = mant_dpd32 x;
          b = unpack_mant32 m;
          (b, ex) = bcd_trunc32 b ex er;
          (b, i) = bcd_carry32 b 0;
          b = push_bit (4 * i) b;
          (b, ex) = bcd_expand32 b ex er
      in bcd32todpd \<lparr>bcd32_mant = b, bcd32_expo = ex, bcd32_sign = sign_dpd32 x\<rparr>)"

definition quantized32 :: "d32 \<Rightarrow> d32 \<Rightarrow> d32" where
  "quantized32 x r = quantizebid32 x r"

definition scalbnbid32 :: "d32 \<Rightarrow> int \<Rightarrow> d32" where
  "scalbnbid32 x n =
     (let b = bits32 x in
      if b AND 0x60000000 = 0x60000000
      then (let u = drop_bit 21 b AND 0xff; u = (u XOR (u + word_of_int n)) AND 0xff
            in bobs32 (b XOR push_bit 21 u))
      else (let u = drop_bit 23 b AND 0xff; u = (u XOR (u + word_of_int n)) AND 0xff
            in bobs32 (b XOR push_bit 23 u)))"

definition scalbndpd32 :: "d32 \<Rightarrow> int \<Rightarrow> d32" where
  "scalbndpd32 x n =
     (let b = bits32 x in
      if b AND 0x60000000 = 0x60000000
      then (let u = (drop_bit 20 b AND 0x3f) XOR (drop_bit 21 b AND 0xc0);
                u = u XOR (u + word_of_int n);
                u = (u AND 0x3f) OR push_bit 1 (u AND 0xc0)
            in bobs32 (b XOR push_bit 20 u))
      else (let u = (drop_bit 20 b AND 0x3f) XOR (drop_bit 23 b AND 0xc0);
                u = u XOR (u + word_of_int n);
                u = (u AND 0x3f) OR push_bit 3 (u AND 0xc0)
            in bobs32 (b XOR push_bit 20 u)))"

definition scalbnd32 :: "d32 \<Rightarrow> int \<Rightarrow> d32" where
  "scalbnd32 x n = scalbnbid32 x n"

definition decompd32 :: "d32 \<Rightarrow> bcd32" where
  "decompd32 x =
     \<lparr>bcd32_mant = mant_bid32 x, bcd32_expo = quantexpbid32 x, bcd32_sign = sign_bid32 x\<rparr>"

end
