(* ===== verification/Dfp754_Quantum.thy ===== *)
theory Dfp754_Quantum
  imports Dfp754_d64
begin

text \<open>
  Quantisation, \<open>quantized64\<close> in the binary encoding: what it returns when digits are dropped and when zeros are appended,
  and how far the dropped digits can take it from the number.
\<close>

text \<open>Dropping \<open>n\<close> digits one by one, each time rounding half up.\<close>

fun drop_digits :: "nat \<Rightarrow> nat \<Rightarrow> nat" where
  "drop_digits 0 c = c"
| "drop_digits (Suc n) c = drop_digits n ((c + 5) div 10)"

lemma round_digit: "c div 10 + (if 5 \<le> c mod 10 then 1 else 0) = (c + 5) div (10 :: nat)"
  by presburger

lemma drop_digits_le: "drop_digits n c \<le> c"
proof (induction n arbitrary: c)
  case (Suc n)
  have "(c + 5) div 10 \<le> c" by presburger
  then show ?case using Suc.IH [of "(c + 5) div 10"] by simp
qed simp

text \<open>Rounding again and again adds up to at most five ninths of the unit, not to a half.\<close>

lemma drop_digits_error: "9 * \<bar>int (drop_digits n c) * 10 ^ n - int c\<bar> \<le> 5 * (10 ^ n - 1)"
proof (induction n arbitrary: c)
  case (Suc n)
  define d where "d = (c + 5) div 10"
  let ?x = "int (drop_digits n d) * 10 ^ n - int d" and ?y = "10 * int d - int c"
  have "\<bar>?y\<bar> \<le> 5" unfolding d_def by presburger
  moreover have "9 * \<bar>?x\<bar> \<le> 5 * (10 ^ n - 1)" by (rule Suc.IH)
  moreover have "9 * \<bar>10 * x + y\<bar> \<le> 10 * (5 * z) + 45" if "\<bar>y\<bar> \<le> 5" "9 * \<bar>x\<bar> \<le> 5 * z" for x y z :: int
    using that by (auto simp: abs_if split: if_splits)
  moreover have "int (drop_digits n d) * 10 ^ Suc n - int c = 10 * ?x + ?y" by simp
  ultimately have "9 * \<bar>int (drop_digits n d) * 10 ^ Suc n - int c\<bar> \<le> 10 * (5 * (10 ^ n - 1)) + 45" by metis
  then show ?case by (simp add: d_def)
qed simp

lemma quant_trunc_drops:
  assumes "unat m = c" "c < 2 ^ 53" "er = ex + int n"
  shows "quant_trunc m ex er = (of_nat (drop_digits n c), er)"
  using assms
proof (induction n arbitrary: m c ex)
  case 0
  then have "of_nat c = m" by (auto simp flip: 0(1))
  then show ?case using 0 by (simp add: quant_trunc.simps)
next
  case (Suc n)
  let ?m = "m div 10 + (if m mod 10 \<ge> 5 then 1 else 0)"
  have "unat (m div 10) = c div 10" "unat (m mod 10) = c mod 10" using Suc.prems(1) by (simp_all add: unat_div unat_mod)
  then have "unat ?m = c div 10 + (if 5 \<le> c mod 10 then 1 else 0)"
    using Suc.prems(2) by (auto simp: word_le_nat_alt unat_word_ariths)
  then have "unat ?m = (c + 5) div 10" by (simp only: round_digit)
  moreover have "(c + 5) div 10 < 2 ^ 53" using Suc.prems(2) by simp
  ultimately have "quant_trunc ?m (ex + 1) er = (of_nat (drop_digits n ((c + 5) div 10)), er)"
    using Suc.IH [of ?m "(c + 5) div 10" "ex + 1"] Suc.prems(3) by simp
  then show ?case using Suc.prems(3) by (subst quant_trunc.simps) simp
qed

lemma quant_expand_appends:
  assumes "unat m = c" "c * 10 ^ n < 10 ^ 15" "ex = er + int n"
  shows "quant_expand m ex er = (of_nat (c * 10 ^ n), er)"
  using assms
proof (induction n arbitrary: m c ex)
  case 0
  then have "of_nat c = m" by (auto simp flip: 0(1))
  then show ?case using 0 by (simp add: quant_expand.simps)
next
  case (Suc n)
  have "c * 10 ^ n < 10 ^ 14" using Suc.prems(2) by simp
  moreover have "c \<le> c * 10 ^ n" by simp
  ultimately have c: "c < 10 ^ 14" by (rule le_less_trans [rotated])
  then have "unat (m * 10) = c * 10" using Suc.prems(1) by (simp add: unat_word_ariths)
  then have "quant_expand (m * 10) (ex - 1) er = (of_nat (c * 10 * 10 ^ n), er)"
    using Suc.IH [of "m * 10" "c * 10" "ex - 1"] Suc.prems(2,3) by (simp add: mult.assoc)
  moreover have "m < 100000000000000" using c Suc.prems(1) by (simp add: word_less_nat_alt)
  ultimately show ?case using Suc.prems(3) by (subst quant_expand.simps) (simp add: mult.assoc)
qed

text \<open>Quantisation of a finite number to the exponent of another one.\<close>

lemma quantizebid64_fields:
  assumes c: "c < 2 ^ 53" "- 398 \<le> ex" "ex \<le> 369" and r: "quantexpbid64 r = er" "- 398 \<le> er" "er \<le> 369"
    and x: "c \<noteq> 0 \<or> ex \<noteq> - 398"
    and m: "quant_trunc (of_nat c) ex er = (m1, e1)" "quant_expand m1 e1 er = (of_nat c', er)" "c' < 2 ^ 53"
  shows "quantized64 (d64_of_dec (DFin s (int c) ex)) r = d64_of_dec (DFin s (int c') er)"
proof -
  let ?x = "d64_of_dec (DFin s (int c) ex)"
  have d: "mant_bid64 ?x = of_nat c" "quantexpbid64 ?x = ex" "sign_bid64 ?x = (if s then - 1 else 0)"
    using decomp_fin [of "int c" ex s] c x by simp_all
  have "quantized64 ?x r = assemble_bid (of_nat c') (word_of_int (er + 398)) (word_of_int (if s then - 1 else 0))"
    by (simp only: quantized64_def quantizebid64_def Let_def d r(1) m prod.case)
  moreover have "word_of_int (if s then - 1 else 0) = (if s then - 1 else 0 :: 64 word)" by simp
  ultimately show ?thesis using assemble_bid_encodes [of "int c'" er s] m(3) r(2,3) by simp
qed

lemma of_nat_word: "c < 2 ^ 53 \<Longrightarrow> unat (of_nat c :: 64 word) = c"
  by (simp add: unat_of_nat take_bit_eq_mod)

subsection \<open>Properties\<close>

text \<open>
  C33: \<open>quantized64\<close> takes a number to the exponent of another one. If zeros have to be appended and there is room for them (15 digits), the
  value is the same. If digits have to be dropped, what it returns is off by at most five ninths of
  the unit of the last digit left. (It rounds once per digit, so that the bound is not a half.)
\<close>

theorem quantized64_bounds:
  assumes "c < 2 ^ 53" "- 398 < ex" "ex \<le> 369" and "quantexpbid64 r = er" "- 398 \<le> er" "er \<le> 369"
  shows "(er \<le> ex \<longrightarrow> c * 10 ^ nat (ex - er) < 10 ^ 15 \<longrightarrow>
      quantized64 (d64_of_dec (DFin s (int c) ex)) r = d64_of_dec (DFin s (int (c * 10 ^ nat (ex - er))) er)) \<and>
    (ex < er \<longrightarrow> (\<exists>c'. quantized64 (d64_of_dec (DFin s (int c) ex)) r = d64_of_dec (DFin s (int c') er) \<and>
      9 * \<bar>int c' * 10 ^ nat (er - ex) - int c\<bar> \<le> 5 * (10 ^ nat (er - ex) - 1)))"
proof (intro conjI impI)
  note u = of_nat_word [OF assms(1)] and q = quantizebid64_fields [OF assms(1) _ assms(3-6)]
  assume e: "er \<le> ex" "c * 10 ^ nat (ex - er) < 10 ^ 15"
  have "quant_trunc (of_nat c) ex er = (of_nat c, ex)" using e(1) by (simp add: quant_trunc.simps)
  moreover have "quant_expand (of_nat c) ex er = (of_nat (c * 10 ^ nat (ex - er)), er)"
    by (rule quant_expand_appends [OF u e(2)]) (use e(1) in simp)
  ultimately show "quantized64 (d64_of_dec (DFin s (int c) ex)) r = d64_of_dec (DFin s (int (c * 10 ^ nat (ex - er))) er)"
    by (rule q [rotated 2]) (use assms(2) e(2) in auto)
next
  note u = of_nat_word [OF assms(1)] and q = quantizebid64_fields [OF assms(1) _ assms(3-6)]
  assume e: "ex < er"
  let ?c = "drop_digits (nat (er - ex)) c"
  have "quant_trunc (of_nat c) ex er = (of_nat ?c, er)" by (rule quant_trunc_drops [OF u assms(1)]) (use e in simp)
  moreover have "quant_expand (of_nat ?c) er er = (of_nat ?c, er)" by (simp add: quant_expand.simps)
  moreover have "?c < 2 ^ 53" using drop_digits_le [of "nat (er - ex)" c] assms(1) by linarith
  ultimately have "quantized64 (d64_of_dec (DFin s (int c) ex)) r = d64_of_dec (DFin s (int ?c) er)"
    by (rule q [rotated 2]) (use assms(2) in auto)
  then show "\<exists>c'. quantized64 (d64_of_dec (DFin s (int c) ex)) r = d64_of_dec (DFin s (int c') er) \<and>
      9 * \<bar>int c' * 10 ^ nat (er - ex) - int c\<bar> \<le> 5 * (10 ^ nat (er - ex) - 1)"
    using drop_digits_error by blast
qed

text \<open>The bound is reached: 1.45 in units of one is 2.\<close>

lemma rounds_twice: "quantized64 (dd 145 (- 2)) (dd 1 0) = dd 2 0"
  by code_simp

theorem quantized64_bounds_witness:
  "\<exists>c'. quantized64 (dd 145 (- 2)) (dd 1 0) = d64_of_dec (DFin False (int c') 0) \<and> 9 * \<bar>int c' * 100 - 145\<bar> \<le> 5 * (100 - 1)"
proof -
  have "quantexpbid64 (dd 1 0) = 0" by code_simp
  then show ?thesis using quantized64_bounds [of 145 "- 2" "dd 1 0" 0 False] by (simp add: dd_def)
qed

end
