(* ===== verification/Spec2Isabelle.thy ===== *)
theory Spec2Isabelle
  imports Booksnap_Run Dfp754_d32 Dfp754_Quantum
begin

text \<open>
  A verification of the order books of this repository: the library under \<open>src/src\<close> that keeps limit order
  books, and the two tools on top of it, the converter \<open>book2book\<close> and the snapshot tool \<open>booksnap\<close>.

  \<^bold>\<open>The program.\<close> A quote is a line of text: time, instrument, side and level, price, quantity. \<open>xquo.c\<close> reads it,
  finding its fields from the right with \<open>memrchr.c\<close> and converting numbers with \<open>dfp754_d64.c\<close> (decimal
  floating point; \<open>dfp754_d32.c\<close> is its 32 bit twin). A tool looks the instrument up by its hash (\<open>hash.c\<close>) and
  adds the quote to the book of the instrument (\<open>books.c\<close>). A book has two sides, each a B+ tree from prices to
  quantity and time stamp (\<open>btree.c\<close>) that is read through an iterator. The tools print what changed, or
  the state of all books at the beats of a metronome.

  \<^bold>\<open>The model.\<close> Every C function is a definition of the same name; a part of a function that is a loop or is
  shared has a definition of its own. Structs are records, C integers are machine words where their width
  matters. \<open>None\<close> stands for undefined behaviour of the C code (an access outside an array, a null pointer, an
  uninitialised index, a full line buffer) or for a loop that does not end; definitions that may not return
  are partial functions into \<open>option\<close>, and that they return is part of what is proved.

    \<^item> \<open>Prelude\<close>: search loops, array operations of \<open>string.h\<close>, bits, the order of keys (locale \<open>key_order\<close>).
    \<^item> \<open>Decimal\<close>: the C type \<open>_Decimal64\<close> with its comparisons and arithmetic, after IEEE 754, in the binary encoding;
      decoding is the inverse of encoding; the two orders of prices interpret \<open>key_order\<close>.
    \<^item> \<open>Dfp754_d64\<close>, \<open>Dfp754_d32\<close>: \<open>dfp754_d64.c\<close>, \<open>dfp754_d32.c\<close> and their headers, for both encodings. Declets and
      the binary encoding are proved to be round trips.
    \<^item> \<open>Dfp754_Strings\<close>: decimals as text. What \<open>strtod64\<close> reads and \<open>d64tostr\<close> writes, through packed BCD; the one undoes
      the other for numbers of up to 15 digits and exponents from -15 to 0, and there is input on which reading does not end.
    \<^item> \<open>Dfp754_Quantum\<close>: quantisation keeps the value or is off by five ninths of the unit at most.
    \<^item> \<open>Btree\<close>: \<open>btree.c\<close>, \<open>btree.h\<close>, \<open>btree_val.h\<close>. Nodes live in an explicit heap, because the code keeps pointers into
      nodes across operations that move their contents.
    \<^item> \<open>Btree_Leaf\<close>: one leaf. Its invariant \<open>leaf_ok\<close>, lookup and insertion as operations on a map, and the marks
      that the iterator relies on: when they are kept, and when they are lost.
    \<^item> \<open>Btree_Iter\<close>: the chain of leaves, the contract of the iterator (locale \<open>level_iter\<close>, with the three shapes of loop
      the books use, interpreted on \<open>btree_iter_next\<close>), clearing and the first level.
    \<^item> \<open>Btree_Contract\<close>: the iterator, clearing, and what the split of a full root does to the marks.
    \<^item> \<open>Btree_Flat\<close>: trees of any height, as ghost trees that a heap represents and as one sorted list of slots and separators;
      the search from the root.
    \<^item> \<open>Btree_Split\<close>: insertion into a leaf and \<open>node_split\<close> with its search for a node to recycle, as operations on that list.
    \<^item> \<open>Btree_Tree\<close>: \<open>twig_add\<close>, \<open>root_split\<close> and \<open>btree_put\<close> keep the invariant \<open>tree_ok\<close> whatever is split; put, get and remove
      on a tree of any height as operations on a map, and the one case in which a level is lost.
    \<^item> \<open>Books\<close>: \<open>books.c\<close> and \<open>books.h\<close>, the 64 bit instance that the tools use.
    \<^item> \<open>Books_Levels\<close>: every operation that walks a side, as a function on the list of its levels.
    \<^item> \<open>Books_Add\<close>: what adding a quote does to a side that is a single leaf.
    \<^item> \<open>Books_Contract\<close>: the properties of the single operations.
    \<^item> \<open>Books_Run\<close>: books reachable by the operations (an inductive relation), their invariant, that no operation on them
      gets stuck, books built from sequences of quotes without deletions, and how a deletion makes another level vanish.
    \<^item> \<open>Books_Trees\<close>: books of any size take level-2 and level-3 quotes and stay well formed; freeing a tree.
    \<^item> \<open>Memrchr\<close>, \<open>Hash\<close>: \<open>memrchr.c\<close> and \<open>hash.c\<close>, with their equivalence to a search byte by byte and to
      a function of the bytes.
    \<^item> \<open>Xquo\<close>: \<open>xquo.c\<close> and \<open>xquo.h\<close>: time stamps there and back, the fields of a line.
    \<^item> \<open>Book2book\<close>, \<open>Booksnap\<close>: the tools, from the options to the main loop. Quotes find their book; the metronome
      moves to the right beat.
    \<^item> \<open>Book2book_Run\<close>: the parts composed. Printed quotes are read back, and level-2 quotes pass through the converter unchanged.
    \<^item> \<open>Book2book_Unwind\<close>: clearing and level-1 quotes at level 2: levels are deleted while an iterator walks over them, and
      every deletion is printed.
    \<^item> \<open>Book2book_Print\<close>: the printer for the top of the book.
    \<^item> \<open>Booksnap_Run\<close>: the level-2 snapshot as the list of the levels, in lines that the converter reads.

  \<^bold>\<open>Bounds.\<close> Insertion, lookup, removal and freeing are proved for trees of any height, and runs of the converter at level 2 for
  any number of quotes. The theorems about reading a book after quotes were added assume fewer than 63 levels on a
  side, that is a tree of one leaf. This is not for want of generality of the walks, which are proved for any
  chain of leaves, but because the code loses its levels to the iterator at the first split
  (\<open>root_split_hides_levels\<close>). \<open>iter_run\<close> counts calls of the iterator; one more than there are levels is enough, and
  is proved to be. The round trips of decimals as text are for up to 15 digits, which is what the reader takes exactly,
  and exponents between -15 and 0 (\<open>plain\<close>), for which the text shows the exponent; the theorems about printed lines
  inherit these bounds.

  \<^bold>\<open>Assumptions.\<close> Allocation succeeds. \<open>long\<close> has 64 bits. The decimals of the compiler are in the binary
  encoding, and arithmetic rounds half to even. \<open>__builtin_ctzll(0)\<close>, which C leaves undefined, is 64. What freshly allocated
  memory holds is a parameter of \<open>booksnap\<close>.

  \<^bold>\<open>Not modelled.\<close> The command line parsers (\<open>book2book.yuck\<close>, \<open>booksnap.yuck\<close>), which the build generates: their result, a
  record, is an input of the tools. Diagnostics on the standard error (\<open>serror\<close>) beyond the fact that the tool
  fails. The 32 bit instances of \<open>btree.c\<close> and \<open>books.c\<close>, which are the same text with another price type and are not
  used by the tools. \<open>build-aux\<close>, \<open>m4\<close> and the tests.

  \<^bold>\<open>Still open.\<close> Decimals of 16 digits or with positive exponents as text, the lines of the other printers and of
  \<open>booksnap\<close>, and the deletion of levels while iterating in a tree of more than one leaf.
\<close>

end
